(* ===== verification/Prelude.thy ===== *)
theory Prelude
  imports "HOL-Library.Word" "HOL-Library.Monad_Syntax"
begin

text \<open>
  Shared vocabulary of the M12 kernel development: names for the C integer types of
  \<^verbatim>\<open>include/type.h\<close>, little-endian loads and stores on a flat byte memory, the lemma
  collections of the component theories, and an interface locale used by several
  components: a state machine that always returns, with an invariant and a preorder of
  states that describes what an operation may change.

  A C function that changes state is a function from states to \<open>('a \<times> state) option\<close>
  or \<open>state option\<close>; \<open>None\<close> means that the C code has no defined result (it reads
  outside an object, dereferences a null pointer, takes a variadic argument that was not
  passed, or does not return).
\<close>

unbundle bit_operations_syntax

subsection \<open>Types\<close>

type_synonym u8 = "8 word"
type_synonym u16 = "16 word"
type_synonym u32 = "32 word"
type_synonym u64 = "64 word"
type_synonym memory_bytes = "u64 \<Rightarrow> u8"

named_theorems screen_intros \<open>operations that only touch the screen\<close>
named_theorems prints_ok \<open>print statements that return\<close>

subsection \<open>Little-endian loads and stores\<close>

definition read_u16 :: "memory_bytes \<Rightarrow> u64 \<Rightarrow> u16" where
  "read_u16 m a = (ucast (m a) OR push_bit 8 (ucast (m (a + 1))))"

definition write_u16 :: "memory_bytes \<Rightarrow> u64 \<Rightarrow> u16 \<Rightarrow> memory_bytes" where
  "write_u16 m a v = m(a := ucast v, a + 1 := ucast (drop_bit 8 v))"

definition read_u32 :: "memory_bytes \<Rightarrow> u64 \<Rightarrow> u32" where
  "read_u32 m a = (ucast (read_u16 m a) OR push_bit 16 (ucast (read_u16 m (a + 2))))"

definition write_u32 :: "memory_bytes \<Rightarrow> u64 \<Rightarrow> u32 \<Rightarrow> memory_bytes" where
  "write_u32 m a v = write_u16 (write_u16 m a (ucast v)) (a + 2) (ucast (drop_bit 16 v))"

definition read_u64 :: "memory_bytes \<Rightarrow> u64 \<Rightarrow> u64" where
  "read_u64 m a = (ucast (read_u32 m a) OR push_bit 32 (ucast (read_u32 m (a + 4))))"

definition write_u64 :: "memory_bytes \<Rightarrow> u64 \<Rightarrow> u64 \<Rightarrow> memory_bytes" where
  "write_u64 m a v = write_u32 (write_u32 m a (ucast v)) (a + 4) (ucast (drop_bit 32 v))"

text \<open>The bytes \<open>a, a + 1, \<dots>, a + n - 1\<close> of the (cyclic) address space.\<close>

definition region :: "u64 \<Rightarrow> nat \<Rightarrow> u64 set" where
  "region a n = {x. unat (x - a) < n}"

definition agree_off :: "u64 set \<Rightarrow> memory_bytes \<Rightarrow> memory_bytes \<Rightarrow> bool" where
  "agree_off R m m' \<longleftrightarrow> (\<forall>a. a \<notin> R \<longrightarrow> m' a = m a)"

subsection \<open>Words\<close>

lemma split_word16: "(ucast (ucast v :: u8) OR push_bit 8 (ucast (ucast (drop_bit 8 v) :: u8)) :: u16) = v"
  by (rule bit_word_eqI) (auto simp: bit_simps)

lemma split_word32: "(ucast (ucast v :: u16) OR push_bit 16 (ucast (ucast (drop_bit 16 v) :: u16)) :: u32) = v"
  by (rule bit_word_eqI) (auto simp: bit_simps)

lemma split_word64: "(ucast (ucast v :: u32) OR push_bit 32 (ucast (ucast (drop_bit 32 v) :: u32)) :: u64) = v"
  by (rule bit_word_eqI) (auto simp: bit_simps)

lemma ucast_selector: "(ucast (ucast (x :: u16) :: u64) :: u16) = x"
  by (rule bit_word_eqI) (auto simp: bit_simps)

lemma unat_ucast_up:
  assumes "LENGTH('a::len) \<le> LENGTH('b::len)"
  shows "unat (ucast (w :: 'a word) :: 'b word) = unat w"
proof -
  have "unat w < 2 ^ LENGTH('b)"
    using unsigned_less [of w, where ?'a = nat] power_increasing [OF assms, of "2::nat"] by linarith
  then show ?thesis by (simp add: unsigned_ucast_eq take_bit_nat_eq_self)
qed

lemma unat_plus_one:
  assumes "(i::'a::len word) < n"
  shows "unat (i + 1) = Suc (unat i)"
proof -
  have "unat i + 1 < 2 ^ LENGTH('a)"
    using assms unsigned_less [of n, where ?'a = nat] unfolding word_less_nat_alt by linarith
  then show ?thesis by (simp add: unat_word_ariths)
qed

lemma word_less_step: "(i::'a::len word) < n \<Longrightarrow> unat (n - (i + 1)) < unat (n - i)"
  by (simp add: unat_plus_one unat_sub word_le_nat_alt word_less_nat_alt)

lemma card_word_less: "card {i::'a::len word. i < n} = unat n"
proof -
  have "unat ` {i. i < n} = {..< unat n}"
  proof (intro equalityI subsetI)
    fix k assume "k \<in> {..< unat n}"
    then have "k < unat n" by simp
    then have "k < 2 ^ LENGTH('a)"
      using unsigned_less [of n, where ?'a = nat] by linarith
    then have "unat (of_nat k :: 'a word) = k" by (simp add: unat_of_nat)
    with \<open>k < unat n\<close> show "k \<in> unat ` {i. i < n}"
      by (intro image_eqI [of _ _ "of_nat k"]) (simp_all add: word_less_nat_alt)
  qed (auto simp: word_less_nat_alt)
  moreover have "inj_on unat {i::'a word. i < n}" by (simp add: inj_on_def word_unat_eq_iff)
  ultimately show ?thesis by (metis card_image card_lessThan)
qed

lemma bit_FF: "n < 8 \<Longrightarrow> bit (0xFF :: u8) n"
proof -
  have "(0xFF :: u8) = - 1" by simp
  then show "n < 8 \<Longrightarrow> bit (0xFF :: u8) n" by (simp only: bit_minus_1_iff) simp
qed

subsection \<open>Reading back what was written\<close>

lemma read_u16_cong:
  "(\<And>x. x \<in> region a 2 \<Longrightarrow> m' x = m x) \<Longrightarrow> read_u16 m' a = read_u16 m a"
  by (simp add: read_u16_def region_def)

lemma read_u32_cong:
  "(\<And>x. x \<in> region a 4 \<Longrightarrow> m' x = m x) \<Longrightarrow> read_u32 m' a = read_u32 m a"
  by (simp add: read_u32_def read_u16_def region_def add.assoc)

lemma read_u64_cong:
  "(\<And>x. x \<in> region a 8 \<Longrightarrow> m' x = m x) \<Longrightarrow> read_u64 m' a = read_u64 m a"
  by (simp add: read_u64_def read_u32_def read_u16_def region_def add.assoc)

lemma write_u16_off: "x \<notin> region a 2 \<Longrightarrow> write_u16 m a v x = m x"
  by (auto simp: write_u16_def region_def)

lemma write_u32_off: "x \<notin> region a 4 \<Longrightarrow> write_u32 m a v x = m x"
  by (auto simp: write_u32_def write_u16_def region_def add.assoc)

lemma write_u64_off: "x \<notin> region a 8 \<Longrightarrow> write_u64 m a v x = m x"
  by (auto simp: write_u64_def write_u32_def write_u16_def region_def add.assoc)

lemma read_write_u16 [simp]: "read_u16 (write_u16 m a v) a = v"
  by (simp add: read_u16_def write_u16_def split_word16)

lemma read_write_u32 [simp]: "read_u32 (write_u32 m a v) a = v"
proof -
  have "read_u16 (write_u32 m a v) a = ucast v"
    unfolding write_u32_def
    by (rule trans [OF read_u16_cong [where m = "write_u16 m a (ucast v)"]])
       (auto simp: write_u16_def [of _ "a + 2"] region_def add.assoc)
  then show ?thesis
    by (simp add: read_u32_def write_u32_def split_word32)
qed

lemma read_write_u64 [simp]: "read_u64 (write_u64 m a v) a = v"
proof -
  have "read_u32 (write_u64 m a v) a = ucast v"
    unfolding write_u64_def
    by (rule trans [OF read_u32_cong [where m = "write_u32 m a (ucast v)"]])
       (auto simp: write_u32_def [of _ "a + 4"] write_u16_def region_def add.assoc)
  then show ?thesis
    by (simp add: read_u64_def write_u64_def split_word64)
qed

subsection \<open>Regions\<close>

lemma region_iff:
  assumes "unat a + n \<le> 2 ^ 64"
  shows "x \<in> region a n \<longleftrightarrow> unat a \<le> unat x \<and> unat x < unat a + n"
proof (cases "a \<le> x")
  case True
  then show ?thesis by (auto simp: region_def unat_sub word_le_nat_alt)
next
  case False
  then have "unat (x - a) = unat x + (2 ^ 64 - unat a)"
    using unsigned_less [of a, where ?'a = nat] by (simp add: unat_sub_if_size word_size word_le_nat_alt)
  with False assms show ?thesis by (auto simp: region_def word_le_nat_alt)
qed

lemma agree_off_refl [simp, intro]: "agree_off R m m"
  by (simp add: agree_off_def)

lemma agree_off_trans [trans]: "agree_off R m m' \<Longrightarrow> agree_off R m' m'' \<Longrightarrow> agree_off R m m''"
  by (simp add: agree_off_def)

lemma agree_offD: "agree_off R m m' \<Longrightarrow> a \<notin> R \<Longrightarrow> m' a = m a"
  by (simp add: agree_off_def)

lemma agree_off_mono: "agree_off R m m' \<Longrightarrow> R \<subseteq> R' \<Longrightarrow> agree_off R' m m'"
  by (auto simp: agree_off_def)

lemma read_u64_agree:
  "agree_off R m m' \<Longrightarrow> region a 8 \<inter> R = {} \<Longrightarrow> read_u64 m' a = read_u64 m a"
  by (rule read_u64_cong) (auto simp: agree_off_def)

subsection \<open>Loops over a list\<close>

lemma fold_rel:
  assumes "\<And>x s. x \<in> set xs \<Longrightarrow> R s (f x s)" and "\<And>s. R s s"
    and "\<And>s t u. R s t \<Longrightarrow> R t u \<Longrightarrow> R s u"
  shows "R s (fold f xs s)"
  using assms(1) by (induction xs arbitrary: s) (auto intro: assms(2) assms(3))

subsection \<open>Sequences of events\<close>

fun run :: "('e \<Rightarrow> 's \<Rightarrow> 's option) \<Rightarrow> 'e list \<Rightarrow> 's \<Rightarrow> 's option" where
  "run step [] s = Some s"
| "run step (e # es) s = do { s' \<leftarrow> step e s; run step es s' }"

lemma run_append: "run step (es @ fs) s = do { s' \<leftarrow> run step es s; run step fs s' }"
  by (induction es arbitrary: s) (auto split: Option.bind_splits)

text \<open>
  The contract of a state machine whose operations always return in a good state: the
  invariant is kept, and the states before and after are related by a preorder that says
  what the operation may change. Both lift to sequences of operations.
\<close>

locale safe_machine =
  fixes step :: "'e \<Rightarrow> 's \<Rightarrow> 's option"
    and inv :: "'s \<Rightarrow> bool"
    and rel :: "'s \<Rightarrow> 's \<Rightarrow> bool"
  assumes step_ok: "inv s \<Longrightarrow> \<exists>s'. step e s = Some s' \<and> inv s' \<and> rel s s'"
    and rel_refl: "rel s s"
    and rel_trans: "rel s t \<Longrightarrow> rel t u \<Longrightarrow> rel s u"
begin

lemma run_ok: "inv s \<Longrightarrow> \<exists>s'. run step es s = Some s' \<and> inv s' \<and> rel s s'"
proof (induction es arbitrary: s)
  case Nil
  then show ?case by (simp add: rel_refl)
next
  case (Cons e es)
  from step_ok [OF Cons.prems] obtain t where t: "step e s = Some t" "inv t" "rel s t"
    by blast
  from Cons.IH [OF t(2)] obtain u where "run step es t = Some u" "inv u" "rel t u"
    by blast
  with t show ?case by (auto intro: rel_trans)
qed

end

text \<open>
  The contract of a step relation that keeps an invariant and a preorder: both hold in every
  state it reaches. A safe machine is one, with the steps of all its events.
\<close>

locale invariant_system =
  fixes step :: "'s \<Rightarrow> 's \<Rightarrow> bool"
    and inv :: "'s \<Rightarrow> bool"
    and rel :: "'s \<Rightarrow> 's \<Rightarrow> bool"
  assumes preserved: "step s t \<Longrightarrow> inv s \<Longrightarrow> inv t \<and> rel s t"
    and refl: "rel s s"
    and trans: "rel s t \<Longrightarrow> rel t u \<Longrightarrow> rel s u"
begin

lemma reachable:
  assumes "step\<^sup>*\<^sup>* s t" "inv s"
  shows "inv t \<and> rel s t"
  using assms(1)
proof (induction rule: rtranclp_induct)
  case base
  then show ?case using assms(2) refl by simp
next
  case (step t u)
  then show ?case using preserved [OF step.hyps(2)] trans by blast
qed

end

sublocale safe_machine \<subseteq> lts: invariant_system "\<lambda>s t. \<exists>e. step e s = Some t" inv rel
proof
  show "inv t \<and> rel s t" if "\<exists>e. step e s = Some t" "inv s" for s t using that by (metis option.inject step_ok)
qed (auto intro: rel_refl rel_trans)

subsection \<open>Calls that may not come back\<close>

text \<open>
  A call either returns to its caller with a value, or control leaves it for good: the processor
  goes on with another stack at another address, and nothing after the call is executed.
\<close>

datatype 'v outcome = Returns 'v | Switched

text \<open>A sequence of calls ends early, after the first one that does not come back.\<close>

fun run_calls :: "('e \<Rightarrow> 's \<Rightarrow> ('v outcome \<times> 's) option) \<Rightarrow> 'e list \<Rightarrow> 's \<Rightarrow> ('v outcome list \<times> 's) option" where
  "run_calls step [] s = Some ([], s)"
| "run_calls step (e # es) s =
     do { (r, s) \<leftarrow> step e s;
          case r of
            Switched \<Rightarrow> Some ([Switched], s)
          | Returns v \<Rightarrow> do { (rs, s) \<leftarrow> run_calls step es s; Some (Returns v # rs, s) } }"

text \<open>
  The contract of such calls: a call that returns keeps the invariant and relates the states
  before and after; of one that does not, \<open>left\<close> says what it leaves behind.
\<close>

locale call_machine =
  fixes step :: "'e \<Rightarrow> 's \<Rightarrow> ('v outcome \<times> 's) option"
    and allowed :: "'e \<Rightarrow> bool"
    and inv :: "'s \<Rightarrow> bool"
    and rel :: "'s \<Rightarrow> 's \<Rightarrow> bool"
    and left :: "'s \<Rightarrow> 's \<Rightarrow> bool"
  assumes call_ok: "allowed e \<Longrightarrow> inv s \<Longrightarrow>
        \<exists>r t. step e s = Some (r, t) \<and> (case r of Returns v \<Rightarrow> inv t \<and> rel s t | Switched \<Rightarrow> left s t)"
    and rel_refl: "rel s s"
    and rel_trans: "rel s t \<Longrightarrow> rel t u \<Longrightarrow> rel s u"
    and rel_left: "rel s t \<Longrightarrow> left t u \<Longrightarrow> left s u"
begin

lemma calls_ok:
  "\<forall>e \<in> set es. allowed e \<Longrightarrow> inv s \<Longrightarrow>
    \<exists>rs t. run_calls step es s = Some (rs, t)
      \<and> (if Switched \<in> set rs then left s t else inv t \<and> rel s t \<and> length rs = length es)"
proof (induction es arbitrary: s)
  case Nil
  then show ?case by (simp add: rel_refl)
next
  case (Cons e es)
  obtain r t where t: "step e s = Some (r, t)" "case r of Returns v \<Rightarrow> inv t \<and> rel s t | Switched \<Rightarrow> left s t"
    using call_ok [of e s] Cons.prems by auto
  show ?case
  proof (cases r)
    case Switched
    then show ?thesis using t by simp
  next
    case (Returns v)
    then have i: "inv t" "rel s t" using t(2) by simp_all
    obtain rs u where u: "run_calls step es t = Some (rs, u)"
      "if Switched \<in> set rs then left t u else inv u \<and> rel t u \<and> length rs = length es"
      using Cons.IH [OF _ i(1)] Cons.prems(1) by auto
    then have "if Switched \<in> set rs then left s u else inv u \<and> rel s u \<and> length rs = length es"
      using rel_trans [OF i(2)] rel_left [OF i(2)] by (auto split: if_splits)
    then show ?thesis using t(1) u(1) Returns by simp
  qed
qed

end

subsection \<open>Refinement of sequences of operations\<close>

fun trace :: "('e \<Rightarrow> 's \<Rightarrow> ('o \<times> 's) option) \<Rightarrow> 'e list \<Rightarrow> 's \<Rightarrow> ('o list \<times> 's) option" where
  "trace step [] s = Some ([], s)"
| "trace step (e # es) s = do { (out, s) \<leftarrow> step e s; (outs, s) \<leftarrow> trace step es s; Some (out # outs, s) }"

text \<open>
  The contract of a simulation: where the specification promises a result, the operation returns
  with the same output in a related state, and a preorder says what it may have changed. This
  lifts to sequences of operations.
\<close>

locale simulation =
  fixes step :: "'e \<Rightarrow> 's \<Rightarrow> ('o \<times> 's) option"
    and spec :: "'e \<Rightarrow> 'a \<Rightarrow> ('o \<times> 'a) option"
    and represents :: "'s \<Rightarrow> 'a \<Rightarrow> bool"
    and rel :: "'s \<Rightarrow> 's \<Rightarrow> bool"
  assumes simulates: "represents s a \<Longrightarrow> spec e a = Some (out, b)
      \<Longrightarrow> \<exists>s'. step e s = Some (out, s') \<and> represents s' b \<and> rel s s'"
    and rel_refl: "rel s s"
    and rel_trans: "rel s t \<Longrightarrow> rel t u \<Longrightarrow> rel s u"
begin

lemma trace_simulates:
  "represents s a \<Longrightarrow> trace spec es a = Some (outs, b)
    \<Longrightarrow> \<exists>s'. trace step es s = Some (outs, s') \<and> represents s' b \<and> rel s s'"
proof (induction es arbitrary: s a outs)
  case (Cons e es)
  from Cons.prems(2) obtain out c outs' where
    c: "spec e a = Some (out, c)" "trace spec es c = Some (outs', b)" "outs = out # outs'"
    by (auto split: Option.bind_splits)
  from simulates [OF Cons.prems(1) c(1)] obtain t where t: "step e s = Some (out, t)" "represents t c" "rel s t" by blast
  from Cons.IH [OF t(2) c(2)] obtain u where "trace step es t = Some (outs', u)" "represents u b" "rel t u" by blast
  then show ?case using t(1,3) c(3) rel_trans by auto
qed (auto intro: rel_refl)

end

text \<open>Where the state of the specification is a function of the state, in every good state.\<close>

locale data_refinement =
  fixes step :: "'e \<Rightarrow> 's \<Rightarrow> ('o \<times> 's) option"
    and spec :: "'e \<Rightarrow> 'a \<Rightarrow> ('o \<times> 'a) option"
    and abs :: "'s \<Rightarrow> 'a"
    and inv :: "'s \<Rightarrow> bool"
    and rel :: "'s \<Rightarrow> 's \<Rightarrow> bool"
  assumes refines: "inv s \<Longrightarrow> spec e (abs s) = Some (out, a)
      \<Longrightarrow> \<exists>s'. step e s = Some (out, s') \<and> abs s' = a \<and> inv s' \<and> rel s s'"
    and refl: "rel s s"
    and trans: "rel s t \<Longrightarrow> rel t u \<Longrightarrow> rel s u"

sublocale data_refinement \<subseteq> sim: simulation step spec "\<lambda>s a. inv s \<and> abs s = a" rel
proof
  show "\<exists>s'. step e s = Some (out, s') \<and> (inv s' \<and> abs s' = b) \<and> rel s s'"
    if "inv s \<and> abs s = a" "spec e a = Some (out, b)" for s a e out b
    using refines [of s e out b] that by auto
qed (rule refl, rule trans)

end
