(* ===== verification/Machine.thy ===== *)
theory Machine
  imports Prelude
begin

text \<open>
  The machine under the kernel: a flat physical memory of bytes (the kernel runs on the
  identity mapping the boot loader sets up, so a C pointer is a physical address), the
  general registers, the segment registers (their selectors), the control registers, the
  model-specific registers, the descriptor table registers, the interrupt flag, and port
  output. The VGA ports \<^verbatim>\<open>0x3D4\<close>/\<^verbatim>\<open>0x3D5\<close> address the register
  file of the CRT controller: the first selects a register, the second reads or writes
  the selected one. Writes to every other port are recorded in order.
  The port functions are those of \<^verbatim>\<open>include/asm.h\<close>.
\<close>

datatype reg = RAX | RBX | RCX | RDX | RSI | RDI | RBP | RSP
  | R8 | R9 | R10 | R11 | R12 | R13 | R14 | R15 | RIP | RFLAGS

datatype sreg = CS | SS | DS | ES | FS | GS

record machine =
  mem :: memory_bytes
  regs :: "reg \<Rightarrow> u64"
  segs :: "sreg \<Rightarrow> u16"
  crtc_index :: u8
  crtc_regs :: "u8 \<Rightarrow> u8"
  port_in :: "u16 \<Rightarrow> u8"
  port_log :: "(u16 \<times> u8) list"
  cr0 :: u64
  cr2 :: u64
  cr3 :: u64
  cr4 :: u64
  msr :: "u32 \<Rightarrow> u64"
  gdtr :: "u16 \<times> u64"
  idtr :: "u16 \<times> u64"
  interrupts_enabled :: bool

text \<open>A machine with cleared memory, registers and devices, around the software state \<open>x\<close>.\<close>

definition cleared :: "'a \<Rightarrow> 'a machine_scheme" where
  "cleared x =
     \<lparr>mem = (\<lambda>_. 0), regs = (\<lambda>_. 0), segs = (\<lambda>_. 0), crtc_index = 0, crtc_regs = (\<lambda>_. 0), port_in = (\<lambda>_. 0),
      port_log = [], cr0 = 0, cr2 = 0, cr3 = 0, cr4 = 0, msr = (\<lambda>_. 0), gdtr = (0, 0), idtr = (0, 0),
      interrupts_enabled = False, \<dots> = x\<rparr>"

definition outb :: "u16 \<Rightarrow> u8 \<Rightarrow> 'a machine_scheme \<Rightarrow> 'a machine_scheme" where
  "outb port v s =
     (if port = 0x3D4 then s\<lparr>crtc_index := v\<rparr>
      else if port = 0x3D5 then s\<lparr>crtc_regs := (crtc_regs s)(crtc_index s := v)\<rparr>
      else s\<lparr>port_log := port_log s @ [(port, v)]\<rparr>)"

definition inb :: "u16 \<Rightarrow> 'a machine_scheme \<Rightarrow> u8" where
  "inb port s =
     (if port = 0x3D5 then crtc_regs s (crtc_index s)
      else if port = 0x3D4 then crtc_index s
      else port_in s port)"

text \<open>A wider access is one to as many consecutive byte ports, the low byte first.\<close>

definition outw :: "u16 \<Rightarrow> u16 \<Rightarrow> 'a machine_scheme \<Rightarrow> 'a machine_scheme" where
  "outw port v s = outb (port + 1) (ucast (drop_bit 8 v)) (outb port (ucast v) s)"

definition inw :: "u16 \<Rightarrow> 'a machine_scheme \<Rightarrow> u16" where
  "inw port s = (ucast (inb port s) OR push_bit 8 (ucast (inb (port + 1) s)))"

definition outl :: "u16 \<Rightarrow> u32 \<Rightarrow> 'a machine_scheme \<Rightarrow> 'a machine_scheme" where
  "outl port v s = outw (port + 2) (ucast (drop_bit 16 v)) (outw port (ucast v) s)"

definition inl :: "u16 \<Rightarrow> 'a machine_scheme \<Rightarrow> u32" where
  "inl port s = (ucast (inw port s) OR push_bit 16 (ucast (inw (port + 2) s)))"

definition sti :: "'a machine_scheme \<Rightarrow> 'a machine_scheme" where
  "sti s = s\<lparr>interrupts_enabled := True\<rparr>"

definition cli :: "'a machine_scheme \<Rightarrow> 'a machine_scheme" where
  "cli s = s\<lparr>interrupts_enabled := False\<rparr>"

text \<open>\<^verbatim>\<open>hlt\<close> waits for the next interrupt, and \<^verbatim>\<open>nop\<close> does nothing: neither changes the state.\<close>

definition hlt :: "'a machine_scheme \<Rightarrow> 'a machine_scheme" where
  "hlt s = s"

definition nop :: "'a machine_scheme \<Rightarrow> 'a machine_scheme" where
  "nop s = s"

text \<open>
  \<^verbatim>\<open>wrmsr\<close> writes \<^verbatim>\<open>edx:eax\<close>; \<^verbatim>\<open>rdmsr\<close> leaves the low half in \<^verbatim>\<open>rax\<close> (its
  upper half cleared) and the high half in \<^verbatim>\<open>rdx\<close>.
\<close>

definition wrmsr :: "u32 \<Rightarrow> u64 \<Rightarrow> u64 \<Rightarrow> 'a machine_scheme \<Rightarrow> 'a machine_scheme" where
  "wrmsr c a d s =
     s\<lparr>msr := (msr s)(c := (a AND 0xFFFFFFFF) OR push_bit 32 (d AND 0xFFFFFFFF))\<rparr>"

definition rdmsr_rax :: "u32 \<Rightarrow> 'a machine_scheme \<Rightarrow> u64" where
  "rdmsr_rax c s = msr s c AND 0xFFFFFFFF"

text \<open>
  One word written to the CRT controller's index port selects and writes a register, and reads
  back; one double word written to ordinary ports is four bytes in the log.
\<close>

lemma outw_crtc:
  "outw 0x3D4 v s = outb 0x3D5 (ucast (drop_bit 8 v)) (outb 0x3D4 (ucast v) s)" "inw 0x3D4 (outw 0x3D4 v s) = v"
proof -
  show "outw 0x3D4 v s = outb 0x3D5 (ucast (drop_bit 8 v)) (outb 0x3D4 (ucast v) s)" by (simp add: outw_def)
  show "inw 0x3D4 (outw 0x3D4 v s) = v" by (simp add: outw_def inw_def outb_def inb_def split_word16)
qed

lemma outl_log:
  assumes "{port, port + 1, port + 2, port + 3} \<inter> {0x3D4, 0x3D5} = {}"
  shows "port_log (outl port v s) = port_log s @ [(port, ucast v), (port + 1, ucast (drop_bit 8 v)),
    (port + 2, ucast (drop_bit 16 v)), (port + 3, ucast (drop_bit 24 v))]"
proof -
  have "(ucast (ucast v :: u16) :: u8) = ucast v" "(ucast (drop_bit 8 (ucast v :: u16)) :: u8) = ucast (drop_bit 8 v)"
    "(ucast (ucast (drop_bit 16 v) :: u16) :: u8) = ucast (drop_bit 16 v)"
    "(ucast (drop_bit 8 (ucast (drop_bit 16 v) :: u16)) :: u8) = ucast (drop_bit 24 v)"
    by (rule bit_word_eqI; auto simp: bit_simps)+
  then show ?thesis using assms by (auto simp: outl_def outw_def outb_def)
qed

text \<open>Operations that change nothing but memory.\<close>

definition mem_only :: "'a machine_scheme \<Rightarrow> 'a machine_scheme \<Rightarrow> bool" where
  "mem_only s t \<longleftrightarrow> t = s\<lparr>mem := mem t\<rparr>"

lemma mem_only_refl [simp, intro]: "mem_only s s"
  by (simp add: mem_only_def)

lemma mem_only_trans: "mem_only s t \<Longrightarrow> mem_only t u \<Longrightarrow> mem_only s u"
proof -
  assume "mem_only s t" and "mem_only t u"
  then have "t = s\<lparr>mem := mem t\<rparr>" and "u = t\<lparr>mem := mem u\<rparr>" by (simp_all add: mem_only_def)
  then have "u = s\<lparr>mem := mem t, mem := mem u\<rparr>" by metis
  then show ?thesis by (simp add: mem_only_def)
qed

lemma mem_only_update [simp, intro]: "mem_only s (s\<lparr>mem := m\<rparr>)"
  by (simp add: mem_only_def)

lemmas fold_mem_only = fold_rel [where R = mem_only, OF _ mem_only_refl mem_only_trans]

end
