(* ===== verification/CString.thy ===== *)
theory CString
  imports Machine
begin

text \<open>
  The string library, \<^verbatim>\<open>lib/string.c\<close>. A \<^verbatim>\<open>const char*\<close> either points into an
  immutable object (a string literal or a local buffer whose address does not escape),
  given by the bytes from the pointer to the end of the object, or is a raw address in
  memory. Reading past the end of an object has no result.
\<close>

subsection \<open>Model\<close>

datatype cptr = Obj "u8 list" | Addr u64

fun deref :: "memory_bytes \<Rightarrow> cptr \<Rightarrow> u8 option" where
  "deref m (Obj []) = None"
| "deref m (Obj (b # bs)) = Some b"
| "deref m (Addr a) = Some (m a)"

fun adv :: "cptr \<Rightarrow> cptr" where
  "adv (Obj bs) = Obj (tl bs)"
| "adv (Addr a) = Addr (a + 1)"

definition bytes_of :: "string \<Rightarrow> u8 list" where
  "bytes_of str = map of_char str"

definition lit :: "string \<Rightarrow> cptr" where
  "lit str = Obj (bytes_of str @ [0])"

partial_function (option) strlen_loop :: "memory_bytes \<Rightarrow> cptr \<Rightarrow> nat \<Rightarrow> nat option" where
  "strlen_loop m ptr n =
     do { b \<leftarrow> deref m ptr;
          if b \<noteq> 0 then strlen_loop m (adv ptr) (Suc n) else Some n }"

definition strlen :: "memory_bytes \<Rightarrow> cptr \<Rightarrow> u32 option" where
  "strlen m str = map_option of_nat (strlen_loop m str 0)"

partial_function (option) strcmp :: "memory_bytes \<Rightarrow> cptr \<Rightarrow> cptr \<Rightarrow> int option" where
  "strcmp m s1 s2 =
     do { a \<leftarrow> deref m s1; b \<leftarrow> deref m s2;
          if a \<noteq> 0 \<and> a = b then strcmp m (adv s1) (adv s2) else Some (uint a - uint b) }"

function memset_loop :: "u64 \<Rightarrow> u8 \<Rightarrow> u32 \<Rightarrow> u32 \<Rightarrow> memory_bytes \<Rightarrow> memory_bytes" where
  "memset_loop ptr c n i m =
     (if i < n then memset_loop ptr c n (i + 1) (m(ptr + ucast i := c)) else m)"
  by pat_completeness auto
termination
  by (relation "measure (\<lambda>(ptr, c, n, i, m). unat (n - i))") (auto intro: word_less_step)

declare memset_loop.simps [simp del]

definition memset :: "u64 \<Rightarrow> u32 \<Rightarrow> u32 \<Rightarrow> 'a machine_scheme \<Rightarrow> u64 \<times> 'a machine_scheme" where
  "memset dest c n s = (dest, s\<lparr>mem := memset_loop dest (ucast c) n 0 (mem s)\<rparr>)"

text \<open>The bytes of a null-terminated string at a pointer, without the terminator.\<close>

fun cstring :: "memory_bytes \<Rightarrow> cptr \<Rightarrow> u8 list \<Rightarrow> bool" where
  "cstring m ptr [] \<longleftrightarrow> deref m ptr = Some 0"
| "cstring m ptr (c # cs) \<longleftrightarrow> deref m ptr = Some c \<and> c \<noteq> 0 \<and> cstring m (adv ptr) cs"

subsection \<open>Strings\<close>

lemma cstring_Obj: "0 \<notin> set cs \<Longrightarrow> cstring m (Obj (cs @ 0 # rest)) cs"
  by (induction cs) auto

lemma cstring_lit: "0 \<notin> set (bytes_of str) \<Longrightarrow> cstring m (lit str) (bytes_of str)"
  unfolding lit_def by (rule cstring_Obj)

lemma strlen_loop_cstring: "cstring m ptr cs \<Longrightarrow> strlen_loop m ptr n = Some (n + length cs)"
  by (induction cs arbitrary: ptr n) (auto simp: strlen_loop.simps)

lemma strcmp_step:
  "deref m p = Some a \<Longrightarrow> deref m q = Some b \<Longrightarrow>
     strcmp m p q = (if a \<noteq> 0 \<and> a = b then strcmp m (adv p) (adv q) else Some (uint a - uint b))"
  by (subst strcmp.simps) simp

lemma cstring_head:
  "cstring m p cs \<Longrightarrow> deref m p = Some (case cs of [] \<Rightarrow> 0 | c # _ \<Rightarrow> c)"
  by (cases cs) auto

text \<open>Two strings compare as their byte lists do lexicographically.\<close>

definition bytes_less :: "u8 list \<Rightarrow> u8 list \<Rightarrow> bool" where
  "bytes_less xs ys \<longleftrightarrow> (xs, ys) \<in> lexord {(a, b). a < b}"

lemma strcmp_cstring:
  assumes "cstring m p xs" and "cstring m q ys"
  shows "\<exists>d. strcmp m p q = Some d \<and> (d = 0 \<longleftrightarrow> xs = ys) \<and> (d < 0 \<longleftrightarrow> bytes_less xs ys)"
  using assms
proof (induction xs arbitrary: ys p q)
  case Nil
  then show ?case
    by (cases ys)
       (auto simp: strcmp_step bytes_less_def word_neq_0_conv word_less_def)
next
  case (Cons x xs)
  show ?case
  proof (cases ys)
    case Nil
    with Cons.prems show ?thesis
      by (auto simp: strcmp_step bytes_less_def word_neq_0_conv word_less_def)
  next
    case (Cons y ys')
    show ?thesis
    proof (cases "x = y")
      case True
      with Cons Cons.prems Cons.IH [of "adv p" "adv q" ys'] show ?thesis
        by (auto simp: strcmp_step bytes_less_def)
    next
      case False
      with Cons Cons.prems show ?thesis
        by (auto simp: strcmp_step bytes_less_def word_less_def word_uint_eq_iff)
    qed
  qed
qed

lemma strcmp_eq_0: "cstring m p xs \<Longrightarrow> cstring m q ys \<Longrightarrow> strcmp m p q = Some 0 \<longleftrightarrow> xs = ys"
  using strcmp_cstring by fastforce

subsection \<open>Filling memory\<close>

lemma memset_loop_nth:
  assumes "i \<le> n"
  shows "memset_loop ptr c n i m x =
    (if unat i \<le> unat (x - ptr) \<and> unat (x - ptr) < unat n then c else m x)"
  using assms
proof (induction ptr c n i m rule: memset_loop.induct)
  case (1 ptr c n i m)
  show ?case
  proof (cases "i < n")
    case True
    have "x = ptr + ucast i \<longleftrightarrow> x - ptr = ucast i"
      by (simp add: diff_eq_eq add.commute)
    also have "\<dots> \<longleftrightarrow> unat (x - ptr) = unat i"
      by (simp add: word_unat_eq_iff unat_ucast_up)
    finally have eq: "x = ptr + ucast i \<longleftrightarrow> unat (x - ptr) = unat i" .
    show ?thesis
      using True "1.IH" [OF True] unat_plus_one [OF True]
      by (auto simp: memset_loop.simps [of ptr c n i] fun_upd_def eq word_le_nat_alt word_less_nat_alt)
  next
    case False
    with "1.prems" have "i = n" by simp
    then show ?thesis by (auto simp: memset_loop.simps [of ptr c n n])
  qed
qed

lemma memset_mem:
  "mem (snd (memset dest c n s)) x = (if x \<in> region dest (unat n) then ucast c else mem s x)"
  by (simp add: memset_def memset_loop_nth region_def)

lemma memset_form: "snd (memset dest c n s) = s\<lparr>mem := mem (snd (memset dest c n s))\<rparr>"
  by (simp add: memset_def)

end
