(* ===== verification/Vga.thy ===== *)
theory Vga
  imports CString
begin

text \<open>
  The text screen, first part of \<^verbatim>\<open>kernel/vga.c\<close>: the hardware cursor, scrolling and
  \<^verbatim>\<open>VGA_Putc\<close>. The screen is the 80 by 25 array of 16-bit cells at \<^verbatim>\<open>0xB8000\<close> in
  memory; the cursor position is in the registers \<^verbatim>\<open>0x0E\<close> and \<^verbatim>\<open>0x0F\<close> of the CRT
  controller. An abstract terminal (a list of cells and a cursor) specifies what a
  character does, and \<open>VGA_Putc\<close> refines it.
\<close>

subsection \<open>Model\<close>

record vga = machine +
  color :: u8

datatype Color = BLACK | BLUE | GREEN | CYAN | RED | MAGENTA | BROWN | LIGHT_GRAY
  | DARK_GRAY | LIGHT_BLUE | LIGHT_GREEN | LIGHT_CYAN | LIGHT_RED | LIGHT_MAGENTA
  | LIGHT_YELLOW | WHITE

fun color_value :: "Color \<Rightarrow> u32" where
  "color_value BLACK = 0x0" | "color_value BLUE = 0x1" | "color_value GREEN = 0x2"
| "color_value CYAN = 0x3" | "color_value RED = 0x4" | "color_value MAGENTA = 0x5"
| "color_value BROWN = 0x6" | "color_value LIGHT_GRAY = 0x7" | "color_value DARK_GRAY = 0x8"
| "color_value LIGHT_BLUE = 0x9" | "color_value LIGHT_GREEN = 0xA" | "color_value LIGHT_CYAN = 0xB"
| "color_value LIGHT_RED = 0xC" | "color_value LIGHT_MAGENTA = 0xD"
| "color_value LIGHT_YELLOW = 0xE" | "color_value WHITE = 0xF"

definition VGA_ADDRESS :: u64 where "VGA_ADDRESS = 0xB8000"

text \<open>\<^verbatim>\<open>VGA_MEMORY[k]\<close>, read and written.\<close>

definition cell_addr :: "nat \<Rightarrow> u64" where
  "cell_addr k = VGA_ADDRESS + 2 * of_nat k"

definition vga_load :: "nat \<Rightarrow> 'a machine_scheme \<Rightarrow> u16" where
  "vga_load k s = read_u16 (mem s) (cell_addr k)"

definition vga_store :: "nat \<Rightarrow> u16 \<Rightarrow> 'a machine_scheme \<Rightarrow> 'a machine_scheme" where
  "vga_store k v s = s\<lparr>mem := write_u16 (mem s) (cell_addr k) v\<rparr>"

definition blank :: "u8 \<Rightarrow> u16" where
  "blank col = (0x20 OR push_bit 8 (ucast col))"

definition scroll :: "'a vga_scheme \<Rightarrow> 'a vga_scheme" where
  "scroll s =
     (let s = fold (\<lambda>y. fold (\<lambda>x s. vga_store ((y - 1) * 80 + x) (vga_load (y * 80 + x) s) s) [0..<80])
                [1..<25] s
      in fold (\<lambda>x s. vga_store ((25 - 1) * 80 + x) (blank (color s)) s) [0..<80] s)"

abbreviation (input) VGA_CTRL_REG :: u16 where "VGA_CTRL_REG \<equiv> 0x3D4"
abbreviation (input) VGA_DATA_REG :: u16 where "VGA_DATA_REG \<equiv> 0x3D5"
abbreviation (input) CURSOR_START_REG :: u8 where "CURSOR_START_REG \<equiv> 0x0A"
abbreviation (input) CURSOR_END_REG :: u8 where "CURSOR_END_REG \<equiv> 0x0B"
abbreviation (input) CURSOR_HIGH_REG :: u8 where "CURSOR_HIGH_REG \<equiv> 0x0E"
abbreviation (input) CURSOR_LOW_REG :: u8 where "CURSOR_LOW_REG \<equiv> 0x0F"

definition SetColor :: "u32 \<Rightarrow> 'a vga_scheme \<Rightarrow> 'a vga_scheme" where
  "SetColor new_color s = s\<lparr>color := ucast new_color\<rparr>"

definition VGA_Clear :: "'a vga_scheme \<Rightarrow> 'a vga_scheme" where
  "VGA_Clear s = fold (\<lambda>i s. vga_store i (0x20 OR push_bit 8 0x0F) s) [0..<80 * 25] s"

definition VGA_GetCursorPosition :: "'a vga_scheme \<Rightarrow> u16 \<times> 'a vga_scheme" where
  "VGA_GetCursorPosition s =
     (let s = outb 0x3D4 0x0F s; lo = inb 0x3D5 s;
          s = outb 0x3D4 0x0E s; hi = inb 0x3D5 s
      in (ucast lo OR push_bit 8 (ucast hi), s))"

definition VGA_GetCursor :: "'a vga_scheme \<Rightarrow> (int \<times> int) \<times> 'a vga_scheme" where
  "VGA_GetCursor s =
     (let s = outb VGA_CTRL_REG CURSOR_LOW_REG s; lo = inb VGA_DATA_REG s;
          s = outb VGA_CTRL_REG CURSOR_HIGH_REG s; hi = inb VGA_DATA_REG s;
          position = (ucast lo OR push_bit 8 (ucast hi) :: u16)
      in ((uint position mod 80, uint position div 80), s))"

definition VGA_SetCursor :: "int \<Rightarrow> int \<Rightarrow> 'a vga_scheme \<Rightarrow> 'a vga_scheme" where
  "VGA_SetCursor x y s =
     (let x = (if x < 0 then 0 else x); x = (if x \<ge> 80 then 80 - 1 else x);
          y = (if y < 0 then 0 else y); y = (if y \<ge> 25 then 25 - 1 else y);
          position = (word_of_int (y * 80 + x) :: u16);
          s = outb VGA_CTRL_REG CURSOR_LOW_REG s;
          s = outb VGA_DATA_REG (ucast (position AND 0xFF)) s;
          s = outb VGA_CTRL_REG CURSOR_HIGH_REG s
      in outb VGA_DATA_REG (ucast (drop_bit 8 position AND 0xFF)) s)"

text \<open>
  \<^verbatim>\<open>char\<close> is signed here: the cell of a character keeps its sign extension.
\<close>

function VGA_Putc :: "u8 \<Rightarrow> 'a vga_scheme \<Rightarrow> 'a vga_scheme" where
  "VGA_Putc c s =
     (let (position, s) = VGA_GetCursorPosition s;
          (position, s) = (if position \<ge> 80 * 25 then VGA_GetCursorPosition (scroll s)
                           else (position, s))
      in if c = 0x0A then
           (let row = uint position div 80;
                (row, s) = (if row \<ge> 25 - 1 then (25 - 2, scroll s) else (row, s))
            in VGA_SetCursor 0 (row + 1) s)
         else if c = 0x09 then
           VGA_Putc 0x20 (VGA_Putc 0x20 (VGA_Putc 0x20 (VGA_Putc 0x20 s)))
         else if c = 0x08 then
           (if position > 0 then
              (let position = position - 1;
                   s = VGA_SetCursor (uint position mod 80) (uint position div 80) s
               in vga_store (unat position) (blank (color s)) s)
            else s)
         else
           (let s = vga_store (unat position) (scast c OR push_bit 8 (ucast (color s))) s;
                position = position + 1;
                s = VGA_SetCursor (uint position mod 80) (uint position div 80) s
            in if position \<ge> 80 * 25 then scroll s else s))"
  by pat_completeness auto
termination
  by (relation "measure (\<lambda>(c, s). if c = 0x09 then 1 else 0)") auto

declare VGA_Putc.simps [simp del]

definition rmline :: "'a vga_scheme \<Rightarrow> 'a vga_scheme" where
  "rmline s =
     (let ((x, y), s) = VGA_GetCursor s;
          s = VGA_SetCursor 0 y s;
          s = fold (\<lambda>i. VGA_Putc 0x20) [0..<80] s
      in VGA_SetCursor 0 y s)"

definition VGA_SetCursorStyle :: "u8 \<Rightarrow> u8 \<Rightarrow> 'a vga_scheme \<Rightarrow> 'a vga_scheme" where
  "VGA_SetCursorStyle start_scanline end_scanline s =
     (let s = outb VGA_CTRL_REG CURSOR_START_REG s; s = outb VGA_DATA_REG start_scanline s;
          s = outb VGA_CTRL_REG CURSOR_END_REG s
      in outb VGA_DATA_REG end_scanline s)"

definition VGA_EnableCursor :: "'a vga_scheme \<Rightarrow> 'a vga_scheme" where
  "VGA_EnableCursor s =
     (let s = VGA_SetCursorStyle 14 15 s;
          s = outb VGA_CTRL_REG CURSOR_START_REG s;
          start = inb VGA_DATA_REG s
      in if start AND 0x20 \<noteq> 0 then outb VGA_DATA_REG (start AND NOT 0x20) s else s)"

definition VGA_DisableCursor :: "'a vga_scheme \<Rightarrow> 'a vga_scheme" where
  "VGA_DisableCursor s = outb VGA_DATA_REG 0x20 (outb VGA_CTRL_REG CURSOR_START_REG s)"

text \<open>The cursor position, and the states whose cursor is on the screen.\<close>

definition cursor :: "'a machine_scheme \<Rightarrow> u16" where
  "cursor s = (ucast (crtc_regs s 0x0F) OR push_bit 8 (ucast (crtc_regs s 0x0E)))"

definition cursor_ok :: "'a machine_scheme \<Rightarrow> bool" where
  "cursor_ok s \<longleftrightarrow> cursor s < 80 * 25"

definition screen_bytes :: "u64 set" where
  "screen_bytes = region VGA_ADDRESS 4000"

text \<open>What printing may change: the screen's bytes and the CRT controller.\<close>

definition screen_only :: "'a machine_scheme \<Rightarrow> 'a machine_scheme \<Rightarrow> bool" where
  "screen_only s s' \<longleftrightarrow>
     (\<exists>m i r. s' = s\<lparr>mem := m, crtc_index := i, crtc_regs := r\<rparr> \<and> agree_off screen_bytes (mem s) m)"

subsection \<open>Only the screen changes\<close>

lemma screen_only_refl [simp, intro]: "screen_only s s"
proof -
  have "s = s\<lparr>mem := mem s, crtc_index := crtc_index s, crtc_regs := crtc_regs s\<rparr>" by simp
  then show ?thesis unfolding screen_only_def by blast
qed

lemma screen_only_trans [trans]:
  assumes "screen_only s t" and "screen_only t u"
  shows "screen_only s u"
proof -
  from assms(1) obtain m i r where t: "t = s\<lparr>mem := m, crtc_index := i, crtc_regs := r\<rparr>"
    and m: "agree_off screen_bytes (mem s) m"
    unfolding screen_only_def by blast
  from assms(2) obtain m' i' r' where u: "u = t\<lparr>mem := m', crtc_index := i', crtc_regs := r'\<rparr>"
    and m': "agree_off screen_bytes (mem t) m'"
    unfolding screen_only_def by blast
  have "u = s\<lparr>mem := m', crtc_index := i', crtc_regs := r'\<rparr>" using t u by simp
  moreover have "agree_off screen_bytes (mem s) m'" using m m' t by (auto intro: agree_off_trans)
  ultimately show ?thesis unfolding screen_only_def by blast
qed

lemma screen_onlyI:
  "s' = s\<lparr>mem := m, crtc_index := i, crtc_regs := r\<rparr> \<Longrightarrow> agree_off screen_bytes (mem s) m
    \<Longrightarrow> screen_only s s'"
  unfolding screen_only_def by blast

lemma screen_onlyE:
  assumes "screen_only s s'"
  obtains m i r where "s' = s\<lparr>mem := m, crtc_index := i, crtc_regs := r\<rparr>"
    and "agree_off screen_bytes (mem s) m"
  using assms unfolding screen_only_def by blast

lemma screen_only_mem: "screen_only s s' \<Longrightarrow> agree_off screen_bytes (mem s) (mem s')"
  by (auto simp: screen_only_def)

lemma screen_only_color: "screen_only s s' \<Longrightarrow> color s' = color s"
  by (auto simp: screen_only_def)

lemmas fold_screen_only = fold_rel [where R = screen_only, OF _ screen_only_refl screen_only_trans]

lemma unat_cell_addr: "k < 2000 \<Longrightarrow> unat (cell_addr k) = 0xB8000 + 2 * k"
proof -
  assume k: "k < 2000"
  have "cell_addr k = of_nat (0xB8000 + 2 * k)" by (simp add: cell_addr_def VGA_ADDRESS_def)
  then have "unat (cell_addr k) = (0xB8000 + 2 * k) mod 2 ^ 64"
    by (simp only: unat_of_nat) simp
  with k show ?thesis by simp
qed

lemma cell_region: "k < 2000 \<Longrightarrow> region (cell_addr k) 2 \<subseteq> screen_bytes"
  by (auto simp: screen_bytes_def region_iff unat_cell_addr VGA_ADDRESS_def)

lemma vga_store_screen_only [screen_intros]: "k < 2000 \<Longrightarrow> screen_only s (vga_store k v s)"
  by (rule screen_onlyI [where i = "crtc_index s" and r = "crtc_regs s"])
     (use cell_region in \<open>auto simp: vga_store_def agree_off_def intro!: write_u16_off\<close>)

lemma vga_store_color [simp]: "color (vga_store k v s) = color s"
  by (simp add: vga_store_def)

lemma vga_store_simps [simp]:
  "crtc_index (vga_store k v s) = crtc_index s"
  "crtc_regs (vga_store k v s) = crtc_regs s" "cursor (vga_store k v s) = cursor s"
  by (simp_all add: vga_store_def cursor_def)

lemma vga_load_store:
  assumes "k < 2000" and "j < 2000"
  shows "vga_load k (vga_store j v s) = (if k = j then v else vga_load k s)"
proof (cases "k = j")
  case True
  then show ?thesis by (simp add: vga_load_def vga_store_def)
next
  case False
  have "region (cell_addr k) 2 \<inter> region (cell_addr j) 2 = {}"
    using assms False by (auto simp: region_iff unat_cell_addr)
  with False show ?thesis
    by (auto simp: vga_load_def vga_store_def intro!: read_u16_cong write_u16_off)
qed

subsection \<open>Scrolling\<close>

lemma scroll_row:
  assumes "b + 160 \<le> 2000" "n \<le> 80" "k < 2000"
  shows "vga_load k (fold (\<lambda>x s. vga_store (b + x) (vga_load (b + x + 80) s) s) [0..<n] s) =
    (if b \<le> k \<and> k < b + n then vga_load (k + 80) s else vga_load k s)"
  using assms
proof (induction n arbitrary: k)
  case 0
  then show ?case by auto
next
  case (Suc n)
  then show ?case by (auto simp: vga_load_store)
qed

lemma scroll_rows:
  assumes "n \<le> 24" "k < 2000"
  shows "vga_load k (fold (\<lambda>y. fold (\<lambda>x s. vga_store ((y - 1) * 80 + x) (vga_load (y * 80 + x) s) s)
      [0..<80]) [1..<Suc n] s) = (if k < n * 80 then vga_load (k + 80) s else vga_load k s)"
  using assms
proof (induction n arbitrary: k)
  case 0
  then show ?case by simp
next
  case (Suc n)
  let ?row = "\<lambda>y. fold (\<lambda>x s. vga_store ((y - 1) * 80 + x) (vga_load (y * 80 + x) s) s) [0..<80]"
  let ?s = "fold ?row [1..<Suc n] s"
  have src: "Suc n * 80 + x = n * 80 + x + 80" for x by simp
  have "?row (Suc n) ?s = fold (\<lambda>x s. vga_store (n * 80 + x) (vga_load (n * 80 + x + 80) s) s) [0..<80] ?s"
    unfolding src by simp
  then have "vga_load k (?row (Suc n) ?s) =
      (if n * 80 \<le> k \<and> k < n * 80 + 80 then vga_load (k + 80) ?s else vga_load k ?s)"
    using scroll_row [of "n * 80" 80 k ?s] Suc.prems by simp
  moreover have "fold ?row [1..<Suc (Suc n)] s = ?row (Suc n) ?s" by simp
  ultimately show ?case
    using Suc.IH [of k] Suc.IH [of "k + 80"] Suc.prems by (auto split: if_splits)
qed

lemma scroll_screen_only [screen_intros]: "screen_only s (scroll s)"
  unfolding scroll_def Let_def
  by (rule screen_only_trans [OF fold_screen_only fold_screen_only])
     (auto intro!: fold_screen_only vga_store_screen_only)

lemma vga_store_mem_only [simp, intro]: "mem_only s (vga_store k v s)"
  by (simp add: vga_store_def)

lemma mem_only_color: "mem_only s t \<Longrightarrow> color t = color s"
  unfolding mem_only_def by (drule arg_cong [where f = color]) simp

lemma scroll_mem_only: "mem_only s (scroll s)"
  unfolding scroll_def Let_def
  by (rule mem_only_trans [OF fold_mem_only fold_mem_only]) (auto intro!: fold_mem_only)

lemma scroll_form: "scroll s = s\<lparr>mem := mem (scroll s)\<rparr>"
  using scroll_mem_only unfolding mem_only_def .

lemma scroll_simps [simp]:
  "color (scroll s) = color s" "crtc_index (scroll s) = crtc_index s"
  "crtc_regs (scroll s) = crtc_regs s" "cursor (scroll s) = cursor s"
  by (subst scroll_form, simp add: cursor_def)+

lemma fill_cells:
  assumes "\<And>x. x < n \<Longrightarrow> g x < 2000" "k < 2000"
  shows "vga_load k (fold (\<lambda>x. vga_store (g x) v) [0..<n] s) =
    (if \<exists>x < n. k = g x then v else vga_load k s)"
  using assms
proof (induction n)
  case (Suc n)
  then show ?case by (auto simp: vga_load_store less_Suc_eq)
qed simp

lemma fold_blank_color:
  "fold (\<lambda>x s. vga_store (g x) (blank (color s)) s) xs s =
   fold (\<lambda>x. vga_store (g x) (blank (color s))) xs s"
  for s :: "'a vga_scheme"
  by (induction xs arbitrary: s) simp_all

lemma scroll_cells:
  assumes "k < 2000"
  shows "vga_load k (scroll s) = (if k < 1920 then vga_load (k + 80) s else blank (color s))"
proof -
  let ?up = "\<lambda>s. fold (\<lambda>y. fold (\<lambda>x s. vga_store ((y - 1) * 80 + x) (vga_load (y * 80 + x) s) s)
      [0..<80]) [1..<25] s"
  have up: "vga_load k (?up s) = (if k < 1920 then vga_load (k + 80) s else vga_load k s)"
    using scroll_rows [of 24 k s] assms by simp
  have col: "color (?up s) = color s"
    by (intro mem_only_color fold_mem_only) auto
  have last: "(\<exists>x < 80. k = (25 - 1) * 80 + x) \<longleftrightarrow> \<not> k < 1920"
    using assms by (auto intro: exI [of _ "k - 1920"])
  have "scroll s = fold (\<lambda>x. vga_store ((25 - 1) * 80 + x) (blank (color s))) [0..<80] (?up s)"
    unfolding scroll_def Let_def fold_blank_color col ..
  then have "vga_load k (scroll s) = (if \<exists>x < 80. k = (25 - 1) * 80 + x then blank (color s)
      else vga_load k (?up s))"
    by (simp only:) (rule fill_cells; use assms in simp)
  then show ?thesis unfolding last up by simp
qed

subsection \<open>The cursor\<close>

lemma cursor_crtc_index [simp]: "cursor (s\<lparr>crtc_index := i\<rparr>) = cursor s"
  by (simp add: cursor_def)

lemma VGA_GetCursorPosition_eq: "VGA_GetCursorPosition s = (cursor s, s\<lparr>crtc_index := 0x0E\<rparr>)"
  by (simp add: VGA_GetCursorPosition_def cursor_def outb_def inb_def)

lemma VGA_GetCursor_eq:
  "VGA_GetCursor s = ((uint (cursor s) mod 80, uint (cursor s) div 80), s\<lparr>crtc_index := 0x0E\<rparr>)"
  by (simp add: VGA_GetCursor_def cursor_def outb_def inb_def Let_def)

lemma VGA_SetCursor_form:
  "\<exists>r. VGA_SetCursor x y s = s\<lparr>crtc_index := 0x0E, crtc_regs := r\<rparr>"
  by (auto simp: VGA_SetCursor_def outb_def Let_def)

lemma VGA_SetCursor_simps [simp]:
  "color (VGA_SetCursor x y s) = color s" "mem (VGA_SetCursor x y s) = mem s"
  "crtc_index (VGA_SetCursor x y s) = 0x0E"
  by (simp_all add: VGA_SetCursor_def outb_def Let_def)

lemma vga_load_mem: "mem t = mem s \<Longrightarrow> vga_load k t = vga_load k s"
  by (simp add: vga_load_def)

lemma ucast_and_FF: "(ucast (w AND 0xFF) :: u8) = ucast (w :: u16)"
proof -
  have "(0xFF :: u16) = mask 8" by (simp add: mask_eq_exp_minus_1)
  then have "(ucast (w AND 0xFF) :: u8) = ucast (w AND mask 8)" by (simp only:)
  also have "\<dots> = ucast w" by (rule bit_word_eqI) (auto simp: bit_simps)
  finally show ?thesis .
qed

lemma cursor_split: "(ucast (ucast (p AND 0xFF) :: u8) OR
    push_bit 8 (ucast (ucast (drop_bit 8 p AND 0xFF) :: u8)) :: u16) = p"
  by (simp only: ucast_and_FF split_word16)

lemma cursor_VGA_SetCursor:
  "cursor (VGA_SetCursor x y s) = word_of_int (min (max y 0) 24 * 80 + min (max x 0) 79)"
  by (auto simp: VGA_SetCursor_def cursor_def outb_def Let_def cursor_split)

lemma uint_cursor_VGA_SetCursor:
  "uint (cursor (VGA_SetCursor x y s)) = min (max y 0) 24 * 80 + min (max x 0) 79"
proof -
  let ?v = "min (max y 0) 24 * 80 + min (max x 0) 79"
  have "0 \<le> ?v" "?v < 2000" by (auto simp: min_def max_def)
  then have "?v mod 65536 = ?v" by simp
  then show ?thesis unfolding cursor_VGA_SetCursor uint_word_of_int by simp
qed

lemma cursor_ok_VGA_SetCursor [simp]: "cursor_ok (VGA_SetCursor x y s)"
  using uint_cursor_VGA_SetCursor [of x y s]
  by (auto simp: cursor_ok_def word_less_def min_def max_def)

lemma VGA_SetCursor_screen_only [screen_intros]: "screen_only s (VGA_SetCursor x y s)"
proof -
  obtain r where "VGA_SetCursor x y s = s\<lparr>crtc_index := 0x0E, crtc_regs := r\<rparr>"
    using VGA_SetCursor_form by blast
  then show ?thesis
    by (intro screen_onlyI [where m = "mem s" and i = "0x0E" and r = r]) simp_all
qed

lemma crtc_index_screen_only [screen_intros]: "screen_only s (s\<lparr>crtc_index := i\<rparr>)"
  by (rule screen_onlyI [where m = "mem s" and i = i and r = "crtc_regs s"]) simp_all

lemma cursor_ok_simps [simp]:
  "cursor_ok (vga_store k v s) = cursor_ok s" "cursor_ok (s\<lparr>crtc_index := i\<rparr>) = cursor_ok s"
  by (simp_all add: cursor_ok_def)

lemma cursor_ok_scroll [simp]: "cursor_ok (scroll s) = cursor_ok s"
  by (simp add: cursor_ok_def)

subsection \<open>The abstract terminal\<close>

record terminal =
  cells :: "u16 list"
  cur :: nat
  attr :: u8

definition term_scroll :: "terminal \<Rightarrow> terminal" where
  "term_scroll t = t\<lparr>cells := drop 80 (cells t) @ replicate 80 (blank (attr t))\<rparr>"

definition put_cell :: "u16 \<Rightarrow> terminal \<Rightarrow> terminal" where
  "put_cell v t =
     (let t = t\<lparr>cells := (cells t)[cur t := v]\<rparr>
      in if cur t + 1 < 2000 then t\<lparr>cur := cur t + 1\<rparr> else (term_scroll t)\<lparr>cur := 1920\<rparr>)"

definition glyph :: "u8 \<Rightarrow> u8 \<Rightarrow> u16" where
  "glyph c col = (scast c OR push_bit 8 (ucast col))"

definition term_putc :: "u8 \<Rightarrow> terminal \<Rightarrow> terminal" where
  "term_putc c t =
     (if c = 0x0A then
        (if cur t div 80 < 24 then t\<lparr>cur := (cur t div 80 + 1) * 80\<rparr>
         else (term_scroll t)\<lparr>cur := 1920\<rparr>)
      else if c = 0x09 then (put_cell (blank (attr t)) ^^ 4) t
      else if c = 0x08 then
        (if cur t = 0 then t
         else t\<lparr>cur := cur t - 1, cells := (cells t)[cur t - 1 := blank (attr t)]\<rparr>)
      else put_cell (glyph c (attr t)) t)"

definition abs_term :: "'a vga_scheme \<Rightarrow> terminal" where
  "abs_term s = \<lparr>cells = map (\<lambda>k. vga_load k s) [0..<2000], cur = unat (cursor s), attr = color s\<rparr>"

lemma abs_term_simps [simp]:
  "cur (abs_term s) = unat (cursor s)" "attr (abs_term s) = color s"
  "length (cells (abs_term s)) = 2000" "k < 2000 \<Longrightarrow> cells (abs_term s) ! k = vga_load k s"
  "abs_term (s\<lparr>crtc_index := i\<rparr>) = abs_term s"
  by (simp_all add: abs_term_def vga_load_def)

lemma terminal_eqI: "cells s = cells t \<Longrightarrow> cur s = cur t \<Longrightarrow> attr s = attr t \<Longrightarrow> s = (t :: terminal)"
  by simp

lemma abs_scroll: "abs_term (scroll s) = term_scroll (abs_term s)"
  by (rule terminal_eqI)
     (auto simp: term_scroll_def nth_append scroll_cells add.commute intro!: nth_equalityI)

lemma abs_store:
  "k < 2000 \<Longrightarrow> abs_term (vga_store k v s) = (abs_term s)\<lparr>cells := (cells (abs_term s))[k := v]\<rparr>"
  by (rule terminal_eqI)
     (auto simp: nth_list_update vga_load_store intro!: nth_equalityI)

lemma abs_set_cursor:
  assumes "0 \<le> x" "x < 80" "0 \<le> y"
  shows "abs_term (VGA_SetCursor x y s) = (abs_term s)\<lparr>cur := nat (min y 24 * 80 + x)\<rparr>"
proof (rule terminal_eqI)
  show "cur (abs_term (VGA_SetCursor x y s)) = cur ((abs_term s)\<lparr>cur := nat (min y 24 * 80 + x)\<rparr>)"
    using uint_cursor_VGA_SetCursor [of x y s] assms by (simp flip: nat_uint_eq)
qed (auto intro!: nth_equalityI vga_load_mem)

lemma abs_set_cursor_lin:
  assumes "n \<le> 2000"
  shows "abs_term (VGA_SetCursor (int n mod 80) (int n div 80) s) =
    (abs_term s)\<lparr>cur := if n < 2000 then n else 1920\<rparr>"
proof -
  have "nat (min (int n div 80) 24 * 80 + int n mod 80) = (if n < 2000 then n else 1920)"
    using assms by (auto simp: min_def)
  then show ?thesis by (simp add: abs_set_cursor)
qed

subsection \<open>One character\<close>

lemma cursor_ok_nat: "cursor_ok s \<longleftrightarrow> unat (cursor s) < 2000"
  by (simp add: cursor_ok_def word_less_nat_alt)

lemma cursor_ok_uint: "cursor_ok s \<longleftrightarrow> uint (cursor s) < 2000"
  by (simp add: cursor_ok_def word_less_def)

lemma VGA_Putc_ok:
  assumes "cursor_ok s"
  shows "VGA_Putc c s =
     (let position = cursor s; s = s\<lparr>crtc_index := 0x0E\<rparr>
      in if c = 0x0A then
           (let row = uint position div 80;
                (row, s) = (if row \<ge> 24 then (23, scroll s) else (row, s))
            in VGA_SetCursor 0 (row + 1) s)
         else if c = 0x09 then
           VGA_Putc 0x20 (VGA_Putc 0x20 (VGA_Putc 0x20 (VGA_Putc 0x20 s)))
         else if c = 0x08 then
           (if position > 0 then
              (let position = position - 1;
                   s = VGA_SetCursor (uint position mod 80) (uint position div 80) s
               in vga_store (unat position) (blank (color s)) s)
            else s)
         else
           (let s = vga_store (unat position) (glyph c (color s)) s;
                position = position + 1;
                s = VGA_SetCursor (uint position mod 80) (uint position div 80) s
            in if position \<ge> 80 * 25 then scroll s else s))"
  using assms
  by (subst VGA_Putc.simps) (simp add: VGA_GetCursorPosition_eq cursor_ok_def not_le glyph_def Let_def)

lemma put_position:
  assumes "cursor_ok s"
  shows "unat (cursor s + 1) = unat (cursor s) + 1" "uint (cursor s + 1) = int (unat (cursor s) + 1)"
proof -
  show "unat (cursor s + 1) = unat (cursor s) + 1"
    using assms unat_plus_one [of "cursor s" 2000] by (simp add: cursor_ok_def)
  then show "uint (cursor s + 1) = int (unat (cursor s) + 1)"
    by (metis uint_nat)
qed

lemma back_position:
  assumes "cursor s > 0"
  shows "unat (cursor s - 1) = unat (cursor s) - 1" "uint (cursor s - 1) = int (unat (cursor s) - 1)"
proof -
  show "unat (cursor s - 1) = unat (cursor s) - 1"
    using assms by (simp add: unat_minus_one word_neq_0_conv)
  then show "uint (cursor s - 1) = int (unat (cursor s) - 1)"
    by (metis uint_nat)
qed

lemma abs_put:
  assumes "cursor_ok s" "c \<notin> {0x08, 0x09, 0x0A}"
  shows "abs_term (VGA_Putc c s) = put_cell (glyph c (color s)) (abs_term s)
    \<and> cursor_ok (VGA_Putc c s) \<and> screen_only s (VGA_Putc c s)"
proof -
  let ?p = "cursor s"
  let ?t = "vga_store (unat ?p) (glyph c (color s)) (s\<lparr>crtc_index := 0x0E\<rparr>)"
  let ?u = "VGA_SetCursor (uint (?p + 1) mod 80) (uint (?p + 1) div 80) ?t"
  have eq: "VGA_Putc c s = (if ?p + 1 \<ge> 2000 then scroll ?u else ?u)"
    using assms by (simp add: VGA_Putc_ok Let_def)
  have lt: "unat ?p < 2000" using assms(1) by (simp add: cursor_ok_nat)
  have "screen_only s ?t"
    using lt by (blast intro: screen_only_trans screen_intros)
  then have u: "screen_only s ?u"
    by (rule screen_only_trans [OF _ VGA_SetCursor_screen_only])
  then have "screen_only s (scroll ?u)"
    by (rule screen_only_trans [OF _ scroll_screen_only])
  with u have fr: "screen_only s (VGA_Putc c s)" by (simp add: eq)
  have "abs_term ?u = (abs_term ?t)\<lparr>cur := if unat ?p + 1 < 2000 then unat ?p + 1 else 1920\<rparr>"
    unfolding put_position(2) [OF assms(1)] using lt by (intro abs_set_cursor_lin) simp
  then have "abs_term (VGA_Putc c s) = put_cell (glyph c (color s)) (abs_term s)"
    using lt put_position(1) [OF assms(1)]
    by (auto simp: eq put_cell_def Let_def abs_store abs_scroll term_scroll_def word_le_nat_alt)
  with fr show ?thesis by (simp add: eq)
qed

lemma next_row: "n div 80 < 24 \<Longrightarrow> nat (min (int n div 80 + 1) 24 * 80) = (n div 80 + 1) * 80"
  by (simp add: min_def nat_mult_distrib nat_add_distrib nat_div_distrib)

lemma abs_newline:
  assumes "cursor_ok s"
  shows "abs_term (VGA_Putc 0x0A s) = term_putc 0x0A (abs_term s)
    \<and> cursor_ok (VGA_Putc 0x0A s) \<and> screen_only s (VGA_Putc 0x0A s)"
proof -
  let ?n = "unat (cursor s)"
  have eq: "VGA_Putc 0x0A s = (if ?n div 80 < 24
      then VGA_SetCursor 0 (int ?n div 80 + 1) (s\<lparr>crtc_index := 0x0E\<rparr>)
      else VGA_SetCursor 0 24 (scroll (s\<lparr>crtc_index := 0x0E\<rparr>)))"
    using assms by (auto simp: VGA_Putc_ok Let_def uint_nat simp del: of_nat_unat)
  have "screen_only s (scroll (s\<lparr>crtc_index := 0x0E\<rparr>))"
    by (rule screen_only_trans [OF crtc_index_screen_only scroll_screen_only])
  then have "screen_only s (VGA_Putc 0x0A s)"
    unfolding eq by (auto intro: screen_only_trans VGA_SetCursor_screen_only crtc_index_screen_only)
  moreover have "abs_term (VGA_Putc 0x0A s) = term_putc 0x0A (abs_term s)"
    using next_row [of ?n]
    by (auto simp: eq abs_set_cursor abs_scroll term_putc_def simp del: of_nat_unat)
  ultimately show ?thesis by (simp add: eq)
qed

lemma abs_backspace:
  assumes "cursor_ok s"
  shows "abs_term (VGA_Putc 0x08 s) = term_putc 0x08 (abs_term s)
    \<and> cursor_ok (VGA_Putc 0x08 s) \<and> screen_only s (VGA_Putc 0x08 s)"
proof (cases "cursor s > 0")
  case True
  let ?n = "unat (cursor s) - 1"
  have lt: "?n < 2000" using assms by (simp add: cursor_ok_nat)
  have eq: "VGA_Putc 0x08 s = vga_store ?n (blank (color s))
      (VGA_SetCursor (int ?n mod 80) (int ?n div 80) (s\<lparr>crtc_index := 0x0E\<rparr>))"
    using assms True back_position [OF True] by (simp add: VGA_Putc_ok Let_def)
  have "unat (cursor s) \<noteq> 0" using True by (simp add: unat_eq_zero word_neq_0_conv)
  moreover have "abs_term (VGA_SetCursor (int ?n mod 80) (int ?n div 80) (s\<lparr>crtc_index := 0x0E\<rparr>)) =
      (abs_term s)\<lparr>cur := ?n\<rparr>"
    using abs_set_cursor_lin [of ?n "s\<lparr>crtc_index := 0x0E\<rparr>"] lt by simp
  ultimately have "abs_term (VGA_Putc 0x08 s) = term_putc 0x08 (abs_term s)"
    using lt unfolding eq by (subst abs_store) (auto simp: term_putc_def)
  moreover have "screen_only s (VGA_Putc 0x08 s)"
    unfolding eq using lt by (blast intro: screen_only_trans screen_intros)
  ultimately show ?thesis by (simp add: eq)
next
  case False
  then have "cursor s = 0" by (simp add: word_gt_0)
  then show ?thesis
    using assms by (auto simp: VGA_Putc_ok term_putc_def Let_def intro: screen_intros)
qed

text \<open>Every character refines the terminal, keeps the cursor on the screen and touches nothing else.\<close>

lemma VGA_Putc_refines:
  assumes "cursor_ok s"
  shows "abs_term (VGA_Putc c s) = term_putc c (abs_term s)
    \<and> cursor_ok (VGA_Putc c s) \<and> screen_only s (VGA_Putc c s)"
proof -
  consider "c = 0x0A" | "c = 0x08" | "c = 0x09" | "c \<notin> {0x08, 0x09, 0x0A}" by auto
  then show ?thesis
  proof cases
    case 3
    let ?put = "\<lambda>s. VGA_Putc 0x20 (s :: 'a vga_scheme)"
    define s0 where "s0 = s\<lparr>crtc_index := 0x0E\<rparr>"
    have sp: "glyph 0x20 col = blank col" for col
      by (simp add: glyph_def blank_def)
    have put: "abs_term (?put t) = put_cell (blank (color t)) (abs_term t) \<and> cursor_ok (?put t)
        \<and> screen_only t (?put t) \<and> color (?put t) = color t" if "cursor_ok t" for t
      using abs_put [OF that, of "0x20"] by (auto simp: sp dest: screen_only_color)
    have s0: "cursor_ok s0" "screen_only s s0" "abs_term s0 = abs_term s" "color s0 = color s"
      using assms by (auto simp: s0_def intro: screen_intros)
    have eq: "VGA_Putc c s = ?put (?put (?put (?put s0)))"
      using assms 3 by (simp add: VGA_Putc_ok Let_def s0_def)
    note p1 = put [OF s0(1)]
    note p2 = put [of "?put s0"]
    note p3 = put [of "?put (?put s0)"]
    note p4 = put [of "?put (?put (?put s0))"]
    from p1 p2 p3 p4 s0 have "abs_term (VGA_Putc c s) = term_putc c (abs_term s)"
      unfolding eq by (simp add: term_putc_def 3 eval_nat_numeral)
    moreover from p1 p2 p3 p4 s0 have "screen_only s (VGA_Putc c s)"
      unfolding eq by (meson screen_only_trans)
    ultimately show ?thesis using p1 p2 p3 p4 eq by simp
  next
    case 4
    then show ?thesis using abs_put [OF assms 4] by (simp add: term_putc_def)
  qed (use abs_newline abs_backspace assms in auto)
qed

subsection \<open>Sequences of characters\<close>

lemma run_putc: "run (\<lambda>b s. Some (VGA_Putc b s)) bs s = Some (fold VGA_Putc bs s)"
  by (induction bs arbitrary: s) auto

text \<open>The screen as a machine driven by characters, with what printing may change as its frame.\<close>

interpretation putc: safe_machine "\<lambda>b s. Some (VGA_Putc b s)" cursor_ok screen_only
  by unfold_locales (auto dest: VGA_Putc_refines intro: screen_only_trans)

lemma putcs_ok:
  "cursor_ok s \<Longrightarrow> cursor_ok (fold VGA_Putc bs s) \<and> screen_only s (fold VGA_Putc bs s)"
  using putc.run_ok [of s bs] by (simp add: run_putc)

lemma putcs_refine: "cursor_ok s \<Longrightarrow> abs_term (fold VGA_Putc bs s) = fold term_putc bs (abs_term s)"
proof (induction bs arbitrary: s)
  case (Cons b bs)
  then show ?case using VGA_Putc_refines [of s b] by simp
qed simp

lemma VGA_Clear_cells: "k < 2000 \<Longrightarrow> vga_load k (VGA_Clear s) = 0x0F20"
  unfolding VGA_Clear_def by (subst fill_cells) auto

lemma VGA_Clear_screen_only: "screen_only s (VGA_Clear s)"
  unfolding VGA_Clear_def by (intro fold_screen_only) (auto intro: screen_intros)

subsection \<open>Clearing a line\<close>

definition fill_from :: "nat \<Rightarrow> nat \<Rightarrow> u16 \<Rightarrow> u16 list \<Rightarrow> u16 list" where
  "fill_from i n v xs = take i xs @ replicate n v @ drop (i + n) xs"

lemma length_fill_from [simp]: "i + n \<le> length xs \<Longrightarrow> length (fill_from i n v xs) = length xs"
  by (simp add: fill_from_def)

lemma fill_from_Suc:
  assumes "i + n < length xs"
  shows "(fill_from i n v xs)[i + n := v] = fill_from i (Suc n) v xs"
proof -
  have "drop (i + n) xs = xs ! (i + n) # drop (Suc (i + n)) xs"
    using assms by (rule Cons_nth_drop_Suc [symmetric])
  then show ?thesis
    using assms by (simp add: fill_from_def list_update_append replicate_app_Cons_same)
qed

lemma put_blanks:
  assumes "cur t + n < 2000" "length (cells t) = 2000"
  shows "(put_cell v ^^ n) t = t\<lparr>cur := cur t + n, cells := fill_from (cur t) n v (cells t)\<rparr>"
  using assms(1)
proof (induction n)
  case 0
  then show ?case by (simp add: fill_from_def)
next
  case (Suc n)
  then show ?case by (simp add: put_cell_def fill_from_Suc assms(2))
qed

lemma term_blanks: "fold term_putc (replicate n 0x20) t = (put_cell (blank (attr t)) ^^ n) t"
proof (induction n arbitrary: t)
  case (Suc n)
  have "glyph 0x20 (attr t) = blank (attr t)" by (simp add: glyph_def blank_def)
  then have "term_putc 0x20 t = put_cell (blank (attr t)) t" by (simp add: term_putc_def)
  moreover have "attr (put_cell v t) = attr t" for v by (simp add: put_cell_def term_scroll_def Let_def)
  ultimately show ?case using Suc by (simp add: funpow_swap1)
qed simp

lemma term_blank_row:
  assumes "cur t = 80 * y" "y < 25" "length (cells t) = 2000"
  shows "fold term_putc (replicate 80 0x20) t =
    (let t' = t\<lparr>cells := fill_from (80 * y) 80 (blank (attr t)) (cells t)\<rparr>
     in if y < 24 then t'\<lparr>cur := 80 * y + 80\<rparr> else (term_scroll t')\<lparr>cur := 1920\<rparr>)"
proof -
  have "(put_cell v ^^ 80) t = put_cell v ((put_cell v ^^ 79) t)" for v
    by (simp add: numeral_eq_Suc)
  moreover have "(fill_from (80 * y) 79 v (cells t))[80 * y + 79 := v] = fill_from (80 * y) 80 v (cells t)" for v
    using fill_from_Suc [of "80 * y" 79 "cells t" v] assms by simp
  ultimately show ?thesis
    using assms by (auto simp: term_blanks put_blanks put_cell_def term_scroll_def Let_def
        simp del: fold_replicate)
qed

lemma fold_const: "fold (\<lambda>i. f) [0..<n] s = fold g (replicate n x) s" if "g x = f"
  using that by (induction n arbitrary: s) (simp_all add: fold_commute_apply replicate_append_same [symmetric])

text \<open>
  \<open>rmline\<close> blanks the cursor's row and puts the cursor at its start; on the last row the
  eightieth blank scrolls the whole screen first.
\<close>

lemma rmline_refines:
  assumes "cursor_ok s"
  defines "y \<equiv> unat (cursor s) div 80"
  defines "t \<equiv> (abs_term s)\<lparr>cells := fill_from (80 * y) 80 (blank (color s)) (cells (abs_term s))\<rparr>"
  shows "abs_term (rmline s) = (if y < 24 then t else term_scroll t)\<lparr>cur := 80 * y\<rparr>"
    and "cursor_ok (rmline s) \<and> screen_only s (rmline s)"
proof -
  let ?s0 = "s\<lparr>crtc_index := 0x0E\<rparr>"
  let ?s1 = "VGA_SetCursor 0 (int y) ?s0"
  let ?s2 = "fold VGA_Putc (replicate 80 0x20) ?s1"
  have y: "y < 25" using assms(1) by (simp add: y_def cursor_ok_nat)
  have "uint (cursor s) div 80 = int y" by (simp add: y_def zdiv_int)
  then have eq: "rmline s = VGA_SetCursor 0 (int y) ?s2"
    by (simp add: rmline_def VGA_GetCursor_eq fold_const [where g = VGA_Putc and x = "0x20"]
        del: fold_replicate)
  have a1: "abs_term ?s1 = (abs_term s)\<lparr>cur := 80 * y\<rparr>"
    using y by (simp add: abs_set_cursor nat_mult_distrib min_def)
  have "abs_term ?s2 = fold term_putc (replicate 80 0x20) ((abs_term s)\<lparr>cur := 80 * y\<rparr>)"
    unfolding putcs_refine [OF cursor_ok_VGA_SetCursor] a1 ..
  then show "abs_term (rmline s) = (if y < 24 then t else term_scroll t)\<lparr>cur := 80 * y\<rparr>"
    using y by (simp add: eq abs_set_cursor term_blank_row t_def Let_def term_scroll_def
        nat_mult_distrib min_def del: fold_replicate)
  have "screen_only s ?s1" by (blast intro: screen_only_trans screen_intros)
  moreover have "screen_only ?s1 ?s2" by (rule conjunct2 [OF putcs_ok]) simp
  ultimately show "cursor_ok (rmline s) \<and> screen_only s (rmline s)"
    unfolding eq by (simp, blast intro: screen_only_trans screen_intros)
qed

text \<open>A machine whose screen driver has not run yet: \<^verbatim>\<open>color\<close> has its initial value.\<close>

definition vga_statics :: "'a \<Rightarrow> 'a vga_scheme" where
  "vga_statics x = cleared (vga_ext 0x0F x)"

lemma vga_statics_simps [simp]:
  "color (vga_statics x) = 0x0F" "cursor (vga_statics x) = 0" "cursor_ok (vga_statics x)"
  "mem (vga_statics x) = (\<lambda>_. 0)"
  by (simp_all add: vga_statics_def cleared_def cursor_ok_def cursor_def)

end
