(* ===== verification/Kprintf.thy ===== *)
theory Kprintf
  imports Vga
begin

text \<open>
  Formatted printing, second part of \<^verbatim>\<open>kernel/vga.c\<close>: \<^verbatim>\<open>kprint\<close>, the number
  printers with their local buffers, \<^verbatim>\<open>vkprintf\<close> and its callers, and
  \<^verbatim>\<open>Init_VGA\<close>. A variadic argument is an integer slot of 64 bits or a string pointer;
  taking an argument that was not passed, or one of the other kind, has no result.
\<close>

subsection \<open>Model\<close>

partial_function (option) kprint_loop :: "cptr \<Rightarrow> 'a vga_scheme \<Rightarrow> 'a vga_scheme option" where
  "kprint_loop str s =
     do { b \<leftarrow> deref (mem s) str;
          if b \<noteq> 0 then kprint_loop (adv str) (VGA_Putc b s) else Some s }"

definition kprint :: "cptr \<Rightarrow> 'a vga_scheme \<Rightarrow> 'a vga_scheme option" where
  "kprint str s =
     do { d \<leftarrow> strcmp (mem s) str (lit (CHR 0x1B # ''[2k''));
          if d = 0 then Some (rmline s) else kprint_loop str s }"

text \<open>A write to a local array; outside the array it has no result.\<close>

definition buf_put :: "u8 list \<Rightarrow> nat \<Rightarrow> u8 \<Rightarrow> u8 list option" where
  "buf_put buf i b = (if i < length buf then Some (buf[i := b]) else None)"

function num_loop :: "nat \<Rightarrow> u8 list \<Rightarrow> nat \<Rightarrow> (u8 list \<times> nat) option" where
  "num_loop num buf i =
     (if num > 0 \<and> i < 15 then
        do { buf \<leftarrow> buf_put buf i (0x30 + of_nat (num mod 10));
             num_loop (num div 10) buf (i + 1) }
      else Some (buf, i))"
  by pat_completeness auto
termination
  by (relation "measure (\<lambda>(num, buf, i). num)") auto

function rev_loop :: "u8 list \<Rightarrow> nat \<Rightarrow> nat \<Rightarrow> u8 list option" where
  "rev_loop buf j k =
     (if j < k then
        (if k < length buf then rev_loop (buf[j := buf ! k, k := buf ! j]) (j + 1) (k - 1) else None)
      else Some buf)"
  by pat_completeness auto
termination
  by (relation "measure (\<lambda>(buf, j, k). k - j)") auto

declare num_loop.simps [simp del] rev_loop.simps [simp del]

definition kprint_num :: "u32 \<Rightarrow> 'a vga_scheme \<Rightarrow> 'a vga_scheme option" where
  "kprint_num num s =
     (if sint num = -2147483648 then kprint (lit ''-2147483648'') s
      else
        (let is_negative = sint num < 0;
             n = (if is_negative then - sint num else sint num);
             buf = replicate 16 0
         in do {
              (buf, i) \<leftarrow> (if n = 0 then do { buf \<leftarrow> buf_put buf 0 0x30; Some (buf, 1) }
                          else num_loop (nat n) buf 0);
              (buf, i) \<leftarrow> (if is_negative then do { buf \<leftarrow> buf_put buf i 0x2D; Some (buf, i + 1) }
                          else Some (buf, i));
              buf \<leftarrow> buf_put buf i 0;
              buf \<leftarrow> rev_loop buf 0 (i - 1);
              kprint (Obj buf) s }))"

definition kprint_unsigned :: "u32 \<Rightarrow> 'a vga_scheme \<Rightarrow> 'a vga_scheme option" where
  "kprint_unsigned num s =
     (let buf = replicate 16 0
      in do {
           (buf, i) \<leftarrow> (if num = 0 then do { buf \<leftarrow> buf_put buf 0 0x30; Some (buf, 1) }
                       else num_loop (unat num) buf 0);
           buf \<leftarrow> buf_put buf i 0;
           buf \<leftarrow> rev_loop buf 0 (i - 1);
           kprint (Obj buf) s })"

text \<open>The \<^verbatim>\<open>%x\<close> loop: \<open>p\<close> is the index of the pointer in \<^verbatim>\<open>hex_buf\<close>.\<close>

function hex_loop :: "u64 \<Rightarrow> u8 list \<Rightarrow> nat \<Rightarrow> (u8 list \<times> nat) option" where
  "hex_loop num buf p =
     (if num > 0 then
        (let digit = num AND 0xF
         in if p = 0 then None
            else do { buf \<leftarrow> buf_put buf (p - 1)
                        (if digit < 10 then 0x30 + ucast digit else 0x61 + ucast digit - 10);
                      hex_loop (drop_bit 4 num) buf (p - 1) })
      else Some (buf, p))"
  by pat_completeness auto
termination
proof (relation "measure (\<lambda>(num, buf, p). unat num)")
  fix num :: u64 and buf buf' :: "u8 list" and p :: nat
  assume "num > 0"
  then have "unat num > 0" by (simp add: word_gt_0_no unat_gt_0)
  then have "drop_bit 4 (unat num) < unat num" by (simp add: drop_bit_eq_div)
  then show "((drop_bit 4 num, buf', p - 1), num, buf, p) \<in> measure (\<lambda>(num, buf, p). unat num)"
    by (simp add: unat_drop_bit_eq)
qed simp

declare hex_loop.simps [simp del]

definition kprint_hex :: "u64 \<Rightarrow> 'a vga_scheme \<Rightarrow> 'a vga_scheme option" where
  "kprint_hex num s =
     do { hex_buf \<leftarrow> buf_put (replicate 20 0) 19 0;
          (hex_buf, p) \<leftarrow> (if num = 0 then do { b \<leftarrow> buf_put hex_buf 18 0x30; Some (b, 18) }
                          else hex_loop num hex_buf 19);
          kprint (Obj (drop p hex_buf)) s }"

datatype vararg = VInt u64 | VStr cptr

fun va_int :: "vararg list \<Rightarrow> (u64 \<times> vararg list) option" where
  "va_int (VInt w # args) = Some (w, args)"
| "va_int _ = None"

fun va_str :: "vararg list \<Rightarrow> (cptr \<times> vararg list) option" where
  "va_str (VStr p # args) = Some (p, args)"
| "va_str _ = None"

text \<open>The \<^verbatim>\<open>switch\<close> on the conversion character.\<close>

definition vkprintf_conv ::
  "u8 \<Rightarrow> vararg list \<Rightarrow> 'a vga_scheme \<Rightarrow> (vararg list \<times> 'a vga_scheme) option" where
  "vkprintf_conv c args s =
     (if c = of_char (CHR ''d'') then
        do { (num, args) \<leftarrow> va_int args; s \<leftarrow> kprint_num (ucast num) s; Some (args, s) }
      else if c = of_char (CHR ''s'') then
        do { (str, args) \<leftarrow> va_str args; s \<leftarrow> kprint str s; Some (args, s) }
      else if c = of_char (CHR ''c'') then
        do { (ch, args) \<leftarrow> va_int args; Some (args, VGA_Putc (ucast ch) s) }
      else if c = of_char (CHR ''x'') then
        do { (num, args) \<leftarrow> va_int args; s \<leftarrow> kprint_hex num s; Some (args, s) }
      else if c = of_char (CHR ''u'') then
        do { (num, args) \<leftarrow> va_int args; s \<leftarrow> kprint_unsigned (ucast num) s; Some (args, s) }
      else Some (args, VGA_Putc c (VGA_Putc (of_char (CHR ''%'')) s)))"

text \<open>
  The format is the list of the bytes of its object, terminator included: a \<^verbatim>\<open>%\<close> right
  before the terminator makes the loop step over it and read past the object.
\<close>

fun vkprintf :: "u8 list \<Rightarrow> vararg list \<Rightarrow> 'a vga_scheme \<Rightarrow> 'a vga_scheme option" where
  "vkprintf [] args s = None"
| "vkprintf (c # p) args s =
     (if c = 0 then Some s
      else if c = of_char (CHR ''%'') then
        (case p of
           [] \<Rightarrow> None
         | d # q \<Rightarrow> do { (args, s) \<leftarrow> vkprintf_conv d args s; vkprintf q args s })
      else vkprintf p args (VGA_Putc c s))"

definition kprintf :: "string \<Rightarrow> vararg list \<Rightarrow> 'a vga_scheme \<Rightarrow> 'a vga_scheme option" where
  "kprintf format args s = vkprintf (bytes_of format @ [0]) args s"

definition kprintcolor ::
  "Color \<Rightarrow> string \<Rightarrow> vararg list \<Rightarrow> 'a vga_scheme \<Rightarrow> 'a vga_scheme option" where
  "kprintcolor new_color format args s =
     (let temp = (ucast (color s) :: u32);
          s = SetColor (color_value new_color) s
      in do { s \<leftarrow> vkprintf (bytes_of format @ [0]) args s; Some (SetColor temp s) })"

definition DEBUGER ::
  "Color \<Rightarrow> string \<Rightarrow> vararg list \<Rightarrow> 'a vga_scheme \<Rightarrow> 'a vga_scheme option" where
  "DEBUGER c msg args s = kprintcolor c (''[DEBUG] '' @ msg @ [CHR 0x0A]) args s"

definition Init_VGA :: "'a vga_scheme \<Rightarrow> 'a vga_scheme option" where
  "Init_VGA s =
     (let s = VGA_Clear s;
          s = SetColor (color_value LIGHT_GREEN) s;
          s = VGA_EnableCursor s;
          s = VGA_SetCursor 0 0 s
      in DEBUGER LIGHT_RED ''VGA initialized successfully'' [] s)"

subsection \<open>Strings\<close>

lemma kprint_loop_Obj:
  "0 \<notin> set cs \<Longrightarrow> kprint_loop (Obj (cs @ 0 # rest)) s = Some (fold VGA_Putc cs s)"
  by (induction cs arbitrary: s) (simp_all add: kprint_loop.simps)

definition clear_line_seq :: "u8 list" where
  "clear_line_seq = [0x1B, 0x5B, 0x32, 0x6B]"

lemma clear_line_lit: "lit (CHR 0x1B # ''[2k'') = Obj (clear_line_seq @ [0])"
  by (simp add: lit_def bytes_of_def clear_line_seq_def)

definition print_string :: "u8 list \<Rightarrow> 'a vga_scheme \<Rightarrow> 'a vga_scheme" where
  "print_string cs s = (if cs = clear_line_seq then rmline s else fold VGA_Putc cs s)"

lemma kprint_Obj:
  assumes "0 \<notin> set cs"
  shows "kprint (Obj (cs @ 0 # rest)) s = Some (print_string cs s)"
proof -
  have 1: "cstring (mem s) (Obj (cs @ 0 # rest)) cs" using assms by (rule cstring_Obj)
  have 2: "cstring (mem s) (lit (CHR 0x1B # ''[2k'')) clear_line_seq"
    unfolding clear_line_lit by (rule cstring_Obj) (simp add: clear_line_seq_def)
  from strcmp_cstring [OF 1 2] obtain d where
    "strcmp (mem s) (Obj (cs @ 0 # rest)) (lit (CHR 0x1B # ''[2k'')) = Some d"
    "d = 0 \<longleftrightarrow> cs = clear_line_seq" by blast
  then show ?thesis by (simp add: kprint_def print_string_def kprint_loop_Obj assms)
qed

lemma print_string_ok:
  "cursor_ok s \<Longrightarrow> cursor_ok (print_string cs s) \<and> screen_only s (print_string cs s)"
  by (simp add: print_string_def putcs_ok rmline_refines(2))

subsection \<open>Decimal numbers\<close>

fun dec_bytes :: "nat \<Rightarrow> u8 list" where
  "dec_bytes n = (if n = 0 then [] else dec_bytes (n div 10) @ [0x30 + of_nat (n mod 10)])"

declare dec_bytes.simps [simp del]

lemma dec_bytes_0 [simp]: "dec_bytes 0 = []"
  by (simp add: dec_bytes.simps)

lemma dec_bytes_pos: "n > 0 \<Longrightarrow> dec_bytes n = dec_bytes (n div 10) @ [0x30 + of_nat (n mod 10)]"
  by (simp add: dec_bytes.simps)

definition decimal :: "nat \<Rightarrow> u8 list" where
  "decimal n = (if n = 0 then [0x30] else dec_bytes n)"

definition decimal_int :: "int \<Rightarrow> u8 list" where
  "decimal_int z = (if z < 0 then 0x2D # decimal (nat (- z)) else decimal (nat z))"

definition dec_value :: "u8 list \<Rightarrow> nat" where
  "dec_value bs = foldl (\<lambda>v b. 10 * v + (unat b - 0x30)) 0 bs"

lemma unat_digit: "d < 10 \<Longrightarrow> unat (0x30 + of_nat d :: u8) = 0x30 + d"
  by (simp add: unat_word_ariths unat_of_nat)

lemma dec_value_bytes: "dec_value (dec_bytes n) = n"
proof (induction n rule: dec_bytes.induct)
  case (1 n)
  then show ?case
    by (cases "n = 0") (simp_all add: dec_bytes_pos dec_value_def unat_digit)
qed

lemma dec_value_decimal: "dec_value (decimal n) = n"
  using dec_value_bytes [of n] by (auto simp: decimal_def dec_value_def)

lemma dec_bytes_digits: "b \<in> set (dec_bytes n) \<Longrightarrow> 0x30 \<le> unat b \<and> unat b \<le> 0x39"
proof (induction n rule: dec_bytes.induct)
  case (1 n)
  have "n mod 10 < 10" by simp
  with 1 show ?case
    by (cases "n = 0") (auto simp: dec_bytes_pos unat_digit)
qed

lemma length_dec_bytes: "n < 10 ^ k \<Longrightarrow> length (dec_bytes n) \<le> k"
proof (induction k arbitrary: n)
  case (Suc k)
  then have "n div 10 < 10 ^ k" by (simp add: less_mult_imp_div_less mult.commute)
  from Suc.IH [OF this] show ?case by (cases "n = 0") (simp_all add: dec_bytes_pos)
qed simp

lemma num_loop_digits:
  assumes "i + length (dec_bytes n) \<le> 15" "length buf = 16"
  shows "num_loop n buf i =
    Some (take i buf @ rev (dec_bytes n) @ drop (i + length (dec_bytes n)) buf, i + length (dec_bytes n))"
  using assms
proof (induction n buf i rule: num_loop.induct)
  case (1 n buf i)
  show ?case
  proof (cases "n = 0")
    case True
    then show ?thesis by (simp add: num_loop.simps)
  next
    case False
    then have i: "i < 15" using "1.prems" by (simp add: dec_bytes_pos)
    let ?b = "0x30 + of_nat (n mod 10) :: u8"
    have "num_loop n buf i = num_loop (n div 10) (buf[i := ?b]) (i + 1)"
      using False i "1.prems"(2) by (simp add: num_loop.simps [of n] buf_put_def)
    moreover have "take (Suc i) (buf[i := ?b]) = take i buf @ [?b]"
      using i "1.prems"(2) by (simp add: take_Suc_conv_app_nth)
    ultimately show ?thesis
      using "1.IH" [of "buf[i := ?b]"] False i "1.prems" by (simp add: buf_put_def dec_bytes_pos)
  qed
qed

lemma rev_loop_nth:
  assumes "k < length buf"
  shows "\<exists>buf'. rev_loop buf j k = Some buf' \<and> length buf' = length buf
    \<and> (\<forall>x < length buf. buf' ! x = (if j \<le> x \<and> x \<le> k then buf ! (j + k - x) else buf ! x))"
  using assms
proof (induction buf j k rule: rev_loop.induct)
  case (1 buf j k)
  show ?case
  proof (cases "j < k")
    case True
    let ?b = "buf[j := buf ! k, k := buf ! j]"
    have "k - 1 < length ?b" using "1.prems" by simp
    from "1.IH" [OF True "1.prems" this] obtain buf' where
      b: "rev_loop ?b (j + 1) (k - 1) = Some buf'" "length buf' = length ?b"
      and nth: "\<forall>x < length ?b. buf' ! x =
        (if j + 1 \<le> x \<and> x \<le> k - 1 then ?b ! (j + 1 + (k - 1) - x) else ?b ! x)"
      by blast
    have "buf' ! x = (if j \<le> x \<and> x \<le> k then buf ! (j + k - x) else buf ! x)"
      if "x < length buf" for x
    proof -
      have "x < j \<or> x = j \<or> x = k \<or> (j + 1 \<le> x \<and> x \<le> k - 1) \<or> k < x" using True by linarith
      then show ?thesis
        using nth that True "1.prems" by (auto simp: nth_list_update)
    qed
    with b True "1.prems" show ?thesis by (simp add: rev_loop.simps [of buf])
  next
    case False
    have "j + k - x = x" if "j \<le> x" "x \<le> k" for x
      using that False by linarith
    with False show ?thesis by (auto simp: rev_loop.simps [of buf])
  qed
qed

lemma rev_loop_rev:
  assumes "0 < i" "i \<le> length buf"
  shows "rev_loop buf 0 (i - 1) = Some (rev (take i buf) @ drop i buf)"
proof -
  have "i - 1 < length buf" using assms by simp
  from rev_loop_nth [OF this, of 0] obtain buf' where
    b: "rev_loop buf 0 (i - 1) = Some buf'" "length buf' = length buf"
    and nth: "\<forall>x < length buf. buf' ! x =
      (if 0 \<le> x \<and> x \<le> i - 1 then buf ! (0 + (i - 1) - x) else buf ! x)"
    by blast
  have "buf' = rev (take i buf) @ drop i buf"
    using b(2) nth assms by (auto simp: nth_append rev_nth intro!: nth_equalityI)
  with b(1) show ?thesis by simp
qed

text \<open>
  The common tail of the number printers: a buffer that holds the digits in reverse is
  terminated, reversed in place and printed.
\<close>

lemma finish_number:
  assumes "cs \<noteq> []" "length cs + length rest = 15" "0 \<notin> set cs" "hd cs \<noteq> 0x1B"
  shows "do { buf \<leftarrow> buf_put (rev cs @ x # rest) (length cs) 0;
              buf \<leftarrow> rev_loop buf 0 (length cs - 1); kprint (Obj buf) s } = Some (fold VGA_Putc cs s)"
proof -
  have "rev_loop (rev cs @ 0 # rest) 0 (length cs - 1) = Some (cs @ 0 # rest)"
    using rev_loop_rev [of "length cs" "rev cs @ 0 # rest"] assms by simp
  moreover have "cs \<noteq> clear_line_seq" using assms(4) by (auto simp: clear_line_seq_def)
  ultimately show ?thesis
    using assms by (simp add: buf_put_def list_update_append kprint_Obj print_string_def)
qed

lemma decimal_facts:
  assumes "n < 2 ^ 32"
  shows "decimal n \<noteq> []" "length (decimal n) \<le> 10" "b \<in> set (decimal n) \<Longrightarrow> 0x30 \<le> unat b \<and> unat b \<le> 0x39"
    "0 \<notin> set (decimal n)" "hd (decimal n) \<noteq> 0x1B"
proof -
  have dig: "b \<in> set (decimal n) \<Longrightarrow> 0x30 \<le> unat b \<and> unat b \<le> 0x39" for b
    using dec_bytes_digits [of b n] by (auto simp: decimal_def split: if_splits)
  then show "b \<in> set (decimal n) \<Longrightarrow> 0x30 \<le> unat b \<and> unat b \<le> 0x39" .
  show ne: "decimal n \<noteq> []" by (simp add: decimal_def dec_bytes_pos)
  show "length (decimal n) \<le> 10"
    using length_dec_bytes [of n 10] assms by (simp add: decimal_def)
  show "0 \<notin> set (decimal n)" using dig [of 0] by auto
  show "hd (decimal n) \<noteq> 0x1B" using dig [of "hd (decimal n)"] ne by auto
qed

lemma digits_in_buffer:
  assumes "n < 2 ^ 32"
  shows "(if n = 0 then do { buf \<leftarrow> buf_put (replicate 16 0) 0 0x30; Some (buf, 1) }
     else num_loop n (replicate 16 0) 0) =
     Some (rev (decimal n) @ replicate (16 - length (decimal n)) 0, length (decimal n))"
proof (cases "n = 0")
  case True
  then show ?thesis by (simp add: buf_put_def decimal_def numeral_eq_Suc)
next
  case False
  then have "length (dec_bytes n) \<le> 15"
    using decimal_facts(2) [OF assms] by (simp add: decimal_def)
  with False show ?thesis by (simp add: num_loop_digits decimal_def)
qed

lemma kprint_unsigned_decimal: "kprint_unsigned num s = Some (fold VGA_Putc (decimal (unat num)) s)"
proof -
  let ?cs = "decimal (unat num)"
  have n: "unat num < 2 ^ 32" using unsigned_less [of num, where ?'a = nat] by simp
  note f = decimal_facts [OF n]
  have "replicate (16 - length ?cs) 0 = (0 :: u8) # replicate (15 - length ?cs) 0"
    using f(2) by (simp flip: replicate_Suc)
  then have "kprint_unsigned num s =
      do { buf \<leftarrow> buf_put (rev ?cs @ 0 # replicate (15 - length ?cs) 0) (length ?cs) 0;
           buf \<leftarrow> rev_loop buf 0 (length ?cs - 1); kprint (Obj buf) s }"
    using digits_in_buffer [OF n] by (simp add: kprint_unsigned_def Let_def unat_eq_zero)
  then show ?thesis
    by (simp only:) (rule finish_number; use f in simp)
qed

lemma decimal_int_min: "decimal_int (-2147483648) = bytes_of ''-2147483648''"
  by (simp add: decimal_int_def decimal_def bytes_of_def dec_bytes.simps)

lemma kprint_num_decimal: "kprint_num num s = Some (fold VGA_Putc (decimal_int (sint num)) s)"
proof (cases "sint num = -2147483648")
  case True
  have "0 \<notin> set (bytes_of ''-2147483648'')" "bytes_of ''-2147483648'' \<noteq> clear_line_seq"
    by (simp_all add: bytes_of_def clear_line_seq_def)
  with True show ?thesis
    by (simp add: kprint_num_def lit_def kprint_Obj print_string_def decimal_int_min)
next
  case False
  let ?z = "sint num"
  let ?n = "nat (if ?z < 0 then - ?z else ?z)"
  let ?ds = "decimal ?n"
  let ?cs = "decimal_int ?z"
  have "- (2 ^ 31) \<le> ?z" "?z < 2 ^ 31" using sint_range_size [of num] by (simp_all add: word_size)
  then have n: "?n < 2 ^ 32" by auto
  note f = decimal_facts [OF n]
  have neg0: "(if (if ?z < 0 then - ?z else ?z) = 0 then do { buf \<leftarrow> buf_put (replicate 16 0) 0 0x30; Some (buf, 1) }
     else num_loop ?n (replicate 16 0) 0) = Some (rev ?ds @ replicate (16 - length ?ds) 0, length ?ds)"
    using digits_in_buffer [OF n] by (auto split: if_splits)
  have sign: "(if ?z < 0 then do { buf \<leftarrow> buf_put (rev ?ds @ replicate (16 - length ?ds) 0) (length ?ds) 0x2D;
        Some (buf, length ?ds + 1) } else Some (rev ?ds @ replicate (16 - length ?ds) 0, length ?ds)) =
      Some (rev ?cs @ 0 # replicate (15 - length ?cs) 0, length ?cs)"
  proof -
    have "replicate (16 - length ?ds) 0 = (0::u8) # 0 # replicate (14 - length ?ds) 0"
      "replicate (15 - length ?ds) 0 = (0::u8) # replicate (14 - length ?ds) 0"
      using f(2) by (simp_all flip: replicate_Suc)
    then show ?thesis
      using f(2) by (auto simp: buf_put_def decimal_int_def list_update_append)
  qed
  have "kprint_num num s =
      do { buf \<leftarrow> buf_put (rev ?cs @ 0 # replicate (15 - length ?cs) 0) (length ?cs) 0;
           buf \<leftarrow> rev_loop buf 0 (length ?cs - 1); kprint (Obj buf) s }"
    using False by (simp only: kprint_num_def Let_def neg0 sign if_False Option.bind.bind_lunit
        option.case prod.case)
  also have "\<dots> = Some (fold VGA_Putc ?cs s)"
    using f by (intro finish_number) (auto simp: decimal_int_def)
  finally show ?thesis .
qed

subsection \<open>Hexadecimal numbers\<close>

definition hex_digit :: "nat \<Rightarrow> u8" where
  "hex_digit d = (if d < 10 then 0x30 + of_nat d else 0x61 + of_nat d - 10)"

fun hex_bytes :: "nat \<Rightarrow> u8 list" where
  "hex_bytes n = (if n = 0 then [] else hex_bytes (n div 16) @ [hex_digit (n mod 16)])"

declare hex_bytes.simps [simp del]

lemma hex_bytes_0 [simp]: "hex_bytes 0 = []"
  by (simp add: hex_bytes.simps)

lemma hex_bytes_pos: "n > 0 \<Longrightarrow> hex_bytes n = hex_bytes (n div 16) @ [hex_digit (n mod 16)]"
  by (simp add: hex_bytes.simps)

definition hexadecimal :: "nat \<Rightarrow> u8 list" where
  "hexadecimal n = (if n = 0 then [0x30] else hex_bytes n)"

definition hex_digit_value :: "u8 \<Rightarrow> nat" where
  "hex_digit_value b = (if unat b < 0x3A then unat b - 0x30 else unat b - 0x61 + 10)"

definition hex_value :: "u8 list \<Rightarrow> nat" where
  "hex_value bs = foldl (\<lambda>v b. 16 * v + hex_digit_value b) 0 bs"

lemma unat_hex_digit: "d < 16 \<Longrightarrow> unat (hex_digit d) = (if d < 10 then 0x30 + d else 0x57 + d)"
proof -
  assume d: "d < 16"
  have "(0x61 + of_nat d - 10 :: u8) = of_nat (0x57 + d)" by simp
  with d show ?thesis by (simp add: hex_digit_def unat_digit unat_of_nat del: of_nat_add)
qed

lemma hex_value_bytes: "hex_value (hex_bytes n) = n"
proof (induction n rule: hex_bytes.induct)
  case (1 n)
  have "hex_digit_value (hex_digit (n mod 16)) = n mod 16"
    by (simp add: hex_digit_value_def unat_hex_digit)
  with 1 show ?case
    by (cases "n = 0") (simp_all add: hex_bytes_pos hex_value_def)
qed

lemma hex_value_hexadecimal: "hex_value (hexadecimal n) = n"
  using hex_value_bytes [of n] by (auto simp: hexadecimal_def hex_value_def hex_digit_value_def)

lemma hex_bytes_digits: "b \<in> set (hex_bytes n) \<Longrightarrow> 0x30 \<le> unat b"
proof (induction n rule: hex_bytes.induct)
  case (1 n)
  then show ?case
    by (cases "n = 0") (auto simp: hex_bytes_pos unat_hex_digit)
qed

lemma length_hex_bytes: "n < 16 ^ k \<Longrightarrow> length (hex_bytes n) \<le> k"
proof (induction k arbitrary: n)
  case (Suc k)
  then have "n div 16 < 16 ^ k" by (simp add: less_mult_imp_div_less mult.commute)
  from Suc.IH [OF this] show ?case by (cases "n = 0") (simp_all add: hex_bytes_pos)
qed simp

lemma low_digit:
  "unat (num AND 0xF) = unat num mod 16" "(ucast (num AND 0xF) :: u8) = of_nat (unat num mod 16)"
  for num :: u64
proof -
  have "(0xF :: u64) = mask 4" by (simp add: mask_eq_exp_minus_1)
  then have "num AND 0xF = take_bit 4 num" by (simp only: take_bit_eq_mask)
  then show u: "unat (num AND 0xF) = unat num mod 16"
    by (simp add: take_bit_eq_mod unat_mod_distrib)
  show "(ucast (num AND 0xF) :: u8) = of_nat (unat num mod 16)"
    by (simp only: u [symmetric] of_nat_unat)
qed

lemma hex_loop_digits:
  assumes "length (hex_bytes (unat num)) \<le> p" "p \<le> length buf"
  shows "\<exists>buf'. hex_loop num buf p = Some (buf', p - length (hex_bytes (unat num)))
    \<and> drop (p - length (hex_bytes (unat num))) buf' = hex_bytes (unat num) @ drop p buf"
  using assms
proof (induction num buf p rule: hex_loop.induct)
  case (1 num buf p)
  show ?case
  proof (cases "num > 0")
    case True
    then have pos: "unat num > 0" by (simp add: unat_gt_0)
    let ?b = "hex_digit (unat num mod 16)"
    have shift: "unat (drop_bit 4 num) = unat num div 16"
      by (simp add: drop_bit_eq_div unat_div_distrib)
    have p: "p > 0" "p - 1 < length buf" using "1.prems" pos by (auto simp: hex_bytes_pos)
    have dig: "(if num AND 0xF < 10 then 0x30 + ucast (num AND 0xF) else 0x61 + ucast (num AND 0xF) - 10) = ?b"
      by (simp add: hex_digit_def low_digit word_less_nat_alt)
    have step: "hex_loop num buf p = hex_loop (drop_bit 4 num) (buf[p - 1 := ?b]) (p - 1)"
      using True p dig by (simp add: hex_loop.simps [of num] buf_put_def Let_def)
    have dr: "drop (p - Suc 0) (buf[p - Suc 0 := ?b]) = ?b # drop p buf"
      using p by (metis Cons_nth_drop_Suc One_nat_def Suc_diff_1 drop_update_cancel length_list_update lessI nth_list_update_eq)
    from "1.IH" [OF True refl _, of "buf[p - 1 := ?b]"] p "1.prems" pos
    show ?thesis
      by (auto simp: step shift dig hex_bytes_pos dr buf_put_def)
  next
    case False
    then have "num = 0" by (simp add: word_gt_0)
    then show ?thesis by (simp add: hex_loop.simps)
  qed
qed

lemma kprint_hex_hexadecimal: "kprint_hex num s = Some (fold VGA_Putc (hexadecimal (unat num)) s)"
proof -
  let ?cs = "hexadecimal (unat num)"
  have "unat num < 16 ^ 16" using unsigned_less [of num, where ?'a = nat] by simp
  then have len: "length (hex_bytes (unat num)) \<le> 16" by (rule length_hex_bytes)
  have dig: "b \<in> set ?cs \<Longrightarrow> 0x30 \<le> unat b" for b
    using hex_bytes_digits [of b "unat num"] by (auto simp: hexadecimal_def split: if_splits)
  have "0 \<notin> set ?cs" using dig [of 0] by auto
  moreover have "?cs \<noteq> clear_line_seq"
    using dig [of "0x1B"] by (auto simp: clear_line_seq_def)
  moreover have "\<exists>b p. (if num = 0 then do { b \<leftarrow> buf_put (replicate 20 0) 18 0x30; Some (b, 18) }
      else hex_loop num (replicate 20 0) 19) = Some (b, p) \<and> drop p b = ?cs @ [0]"
  proof (cases "num = 0")
    case True
    then show ?thesis by (simp add: buf_put_def hexadecimal_def numeral_eq_Suc)
  next
    case False
    with hex_loop_digits [of num 19 "replicate 20 0"] len show ?thesis
      by (auto simp: hexadecimal_def unat_eq_zero)
  qed
  moreover have "buf_put (replicate 20 0) 19 0 = Some (replicate 20 0)"
    by (simp add: buf_put_def list_update_same_conv)
  ultimately show ?thesis
    by (auto simp: kprint_hex_def kprint_Obj print_string_def split: if_splits Option.bind_splits)
qed

subsection \<open>Formats\<close>

text \<open>
  What a format prints: the specification of \<^verbatim>\<open>vkprintf\<close> for formats whose
  conversions match their arguments. A string argument that is the clear-line sequence
  is not text and is left out.
\<close>

definition text_of :: "u8 \<Rightarrow> vararg list \<Rightarrow> (u8 list \<times> vararg list) option" where
  "text_of c args =
     (if c = 0 then None
      else if c = 0x64 then do { (w, args) \<leftarrow> va_int args; Some (decimal_int (sint (ucast w :: u32)), args) }
      else if c = 0x73 then
        (case args of
           VStr (Obj bs) # args \<Rightarrow>
             (if 0 \<in> set bs \<and> takeWhile (\<lambda>b. b \<noteq> 0) bs \<noteq> clear_line_seq
              then Some (takeWhile (\<lambda>b. b \<noteq> 0) bs, args) else None)
         | _ \<Rightarrow> None)
      else if c = 0x63 then do { (w, args) \<leftarrow> va_int args; Some ([ucast w], args) }
      else if c = 0x78 then do { (w, args) \<leftarrow> va_int args; Some (hexadecimal (unat w), args) }
      else if c = 0x75 then do { (w, args) \<leftarrow> va_int args; Some (decimal (unat (ucast w :: u32)), args) }
      else Some ([0x25, c], args))"

fun render :: "u8 list \<Rightarrow> vararg list \<Rightarrow> u8 list option" where
  "render [] args = Some []"
| "render (c # p) args =
     (if c = 0 then None
      else if c = 0x25 then
        (case p of
           [] \<Rightarrow> None
         | d # q \<Rightarrow> do { (bs, args) \<leftarrow> text_of d args; cs \<leftarrow> render q args; Some (bs @ cs) })
      else map_option ((#) c) (render p args))"

lemma takeWhile_object: "0 \<in> set bs \<Longrightarrow> \<exists>rest. bs = takeWhile (\<lambda>b. b \<noteq> (0::u8)) bs @ 0 # rest"
  by (induction bs) auto

lemma kprint_object:
  assumes "0 \<in> set bs"
  shows "kprint (Obj bs) s = Some (print_string (takeWhile (\<lambda>b. b \<noteq> 0) bs) s)"
proof -
  obtain rest where "bs = takeWhile (\<lambda>b. b \<noteq> 0) bs @ 0 # rest"
    using takeWhile_object [OF assms] by blast
  moreover have "0 \<notin> set (takeWhile (\<lambda>b. b \<noteq> (0::u8)) bs)" by (auto dest: set_takeWhileD)
  ultimately show ?thesis using kprint_Obj by metis
qed

lemma vkprintf_conv_text:
  assumes "text_of c args = Some (bs, args')"
  shows "vkprintf_conv c args s = Some (args', fold VGA_Putc bs s)"
  using assms
  by (auto simp: text_of_def vkprintf_conv_def kprint_num_decimal kprint_hex_hexadecimal
      kprint_unsigned_decimal kprint_object print_string_def
      split: if_splits list.splits vararg.splits cptr.splits Option.bind_splits)

lemma vkprintf_render:
  "render fmt args = Some bs \<Longrightarrow> vkprintf (fmt @ [0]) args s = Some (fold VGA_Putc bs s)"
proof (induction fmt args arbitrary: bs s rule: render.induct)
  case (2 c p args)
  then show ?case
    by (auto simp: vkprintf_conv_text split: if_splits list.splits Option.bind_splits)
qed simp

text \<open>A check on the format text: every conversion has an argument of its kind.\<close>

fun fmt_ok :: "string \<Rightarrow> vararg list \<Rightarrow> bool" where
  "fmt_ok [] args \<longleftrightarrow> True"
| "fmt_ok [c] args \<longleftrightarrow> c \<noteq> CHR ''%'' \<and> c \<noteq> CHR 0x00"
| "fmt_ok (c # d # q) args \<longleftrightarrow>
     (if c = CHR ''%'' then
        (if d = CHR ''d'' \<or> d = CHR ''x'' \<or> d = CHR ''u'' \<or> d = CHR ''c''
         then (case args of VInt w # args \<Rightarrow> fmt_ok q args | _ \<Rightarrow> False)
         else if d = CHR ''s''
         then (case args of
                 VStr (Obj bs) # args \<Rightarrow> 0 \<in> set bs \<and> takeWhile (\<lambda>b. b \<noteq> 0) bs \<noteq> clear_line_seq
                   \<and> fmt_ok q args
               | _ \<Rightarrow> False)
         else d \<noteq> CHR 0x00 \<and> fmt_ok q args)
      else c \<noteq> CHR 0x00 \<and> fmt_ok (d # q) args)"

lemma of_char_u8_iff: "(of_char c :: u8) = of_char d \<longleftrightarrow> c = d"
proof
  assume eq: "(of_char c :: u8) = of_char d"
  have "unat (of_char c :: u8) = of_char c" for c :: char
  proof -
    have "of_char c < (256 :: nat)" by simp
    then have "unat (of_nat (of_char c) :: u8) = of_char c" by (simp add: unat_of_nat)
    then show ?thesis by (simp only: of_nat_of_char)
  qed
  with eq have "(of_char c :: nat) = of_char d" by metis
  then show "c = d" by simp
qed simp

lemma of_char_codes:
  "(of_char c :: u8) = 0 \<longleftrightarrow> c = CHR 0x00" "(of_char c :: u8) = 0x25 \<longleftrightarrow> c = CHR ''%''"
  "(of_char c :: u8) = 0x64 \<longleftrightarrow> c = CHR ''d''" "(of_char c :: u8) = 0x73 \<longleftrightarrow> c = CHR ''s''"
  "(of_char c :: u8) = 0x63 \<longleftrightarrow> c = CHR ''c''" "(of_char c :: u8) = 0x78 \<longleftrightarrow> c = CHR ''x''"
  "(of_char c :: u8) = 0x75 \<longleftrightarrow> c = CHR ''u''"
  using of_char_u8_iff [of c "CHR 0x00"] of_char_u8_iff [of c "CHR ''%''"]
    of_char_u8_iff [of c "CHR ''d''"] of_char_u8_iff [of c "CHR ''s''"]
    of_char_u8_iff [of c "CHR ''c''"] of_char_u8_iff [of c "CHR ''x''"]
    of_char_u8_iff [of c "CHR ''u''"]
  by simp_all

lemma fmt_ok_render: "fmt_ok fmt args \<Longrightarrow> \<exists>bs. render (bytes_of fmt) args = Some bs"
proof (induction fmt args rule: fmt_ok.induct)
  case (3 c d q args)
  then show ?case
    by (force simp: bytes_of_def text_of_def of_char_codes
        split: if_splits list.splits vararg.splits cptr.splits)
qed (auto simp: bytes_of_def of_char_codes)

lemma fmt_ok_newline: "fmt_ok fmt args \<Longrightarrow> fmt_ok (fmt @ [CHR 0x0A]) args"
  by (induction fmt args rule: fmt_ok.induct)
     (auto split: if_splits list.splits vararg.splits cptr.splits)

lemma fmt_ok_debug: "fmt_ok msg args \<Longrightarrow> fmt_ok (''[DEBUG] '' @ msg @ [CHR 0x0A]) args"
proof -
  assume "fmt_ok msg args"
  then have "fmt_ok (msg @ [CHR 0x0A]) args" by (rule fmt_ok_newline)
  then show ?thesis by (cases "msg @ [CHR 0x0A]") auto
qed

subsection \<open>Print statements return and touch only the screen\<close>

lemma kprintf_render:
  "render (bytes_of format) args = Some bs \<Longrightarrow> kprintf format args s = Some (fold VGA_Putc bs s)"
  by (simp add: kprintf_def vkprintf_render)

lemma kprintf_ok:
  assumes "fmt_ok format args" "cursor_ok s"
  shows "\<exists>s'. kprintf format args s = Some s' \<and> cursor_ok s' \<and> screen_only s s'"
  using fmt_ok_render [OF assms(1)] putcs_ok [OF assms(2)] by (auto simp: kprintf_render)

lemma SetColor_cursor_ok [simp]: "cursor_ok (SetColor c s) = cursor_ok s"
  by (simp add: SetColor_def cursor_ok_def cursor_def)

lemma kprintcolor_render:
  assumes "render (bytes_of format) args = Some bs"
  shows "kprintcolor c format args s =
    Some ((fold VGA_Putc bs (s\<lparr>color := ucast (color_value c)\<rparr>))\<lparr>color := color s\<rparr>)"
proof -
  have "(ucast (ucast (color s) :: u32) :: u8) = color s"
    by (rule bit_word_eqI) (simp add: bit_simps)
  then show ?thesis
    by (simp add: kprintcolor_def SetColor_def Let_def vkprintf_render [OF assms])
qed

lemma recolor_screen_only:
  assumes "screen_only (s\<lparr>color := x\<rparr>) t"
  shows "screen_only s (t\<lparr>color := color s\<rparr>)"
proof -
  from assms obtain m i r where t: "t = s\<lparr>color := x\<rparr>\<lparr>mem := m, crtc_index := i, crtc_regs := r\<rparr>"
    and "agree_off screen_bytes (mem (s\<lparr>color := x\<rparr>)) m"
    by (rule screen_onlyE)
  moreover have "t\<lparr>color := color s\<rparr> = s\<lparr>mem := m, crtc_index := i, crtc_regs := r\<rparr>"
    unfolding t by simp
  ultimately show ?thesis by (intro screen_onlyI) auto
qed

lemma screen_only_set_color:
  assumes "screen_only s t"
  shows "screen_only (s\<lparr>color := x\<rparr>) (t\<lparr>color := x\<rparr>)"
proof -
  from assms obtain m i r where t: "t = s\<lparr>mem := m, crtc_index := i, crtc_regs := r\<rparr>"
    and m: "agree_off screen_bytes (mem s) m"
    by (rule screen_onlyE)
  show ?thesis
    by (rule screen_onlyI [where m = m and i = i and r = r]) (simp_all add: t m)
qed

lemma kprintcolor_ok:
  assumes "fmt_ok format args" "cursor_ok s"
  shows "\<exists>s'. kprintcolor c format args s = Some s' \<and> cursor_ok s' \<and> screen_only s s'"
proof -
  obtain bs where "render (bytes_of format) args = Some bs"
    using fmt_ok_render [OF assms(1)] by blast
  moreover have "cursor_ok (s\<lparr>color := ucast (color_value c)\<rparr>)"
    using assms(2) by (simp add: cursor_ok_def cursor_def)
  ultimately show ?thesis
    using putcs_ok [of "s\<lparr>color := ucast (color_value c)\<rparr>" bs]
    by (auto simp: kprintcolor_render cursor_ok_def cursor_def intro: recolor_screen_only)
qed

lemma DEBUGER_ok:
  assumes "fmt_ok msg args" "cursor_ok s"
  shows "\<exists>s'. DEBUGER c msg args s = Some s' \<and> cursor_ok s' \<and> screen_only s s'"
  unfolding DEBUGER_def by (rule kprintcolor_ok [OF fmt_ok_debug [OF assms(1)] assms(2)])

subsection \<open>Start of the screen driver\<close>

lemma VGA_EnableCursor_form: "\<exists>i r. VGA_EnableCursor s = s\<lparr>crtc_index := i, crtc_regs := r\<rparr>"
proof -
  have "VGA_SetCursorStyle 14 15 s =
      s\<lparr>crtc_index := 0x0B, crtc_regs := (crtc_regs s)(0x0A := 14, 0x0B := 15)\<rparr>"
    by (simp add: VGA_SetCursorStyle_def outb_def Let_def)
  then show ?thesis
    by (intro exI [of _ "0x0A"] exI [of _ "(crtc_regs s)(0x0A := 14, 0x0B := 15)"])
       (simp add: VGA_EnableCursor_def outb_def inb_def Let_def)
qed

lemma VGA_EnableCursor_screen_only: "screen_only s (VGA_EnableCursor s)"
proof -
  obtain i r where "VGA_EnableCursor s = s\<lparr>crtc_index := i, crtc_regs := r\<rparr>"
    using VGA_EnableCursor_form by blast
  then show ?thesis
    by (intro screen_onlyI [where m = "mem s" and i = i and r = r]) simp_all
qed

text \<open>The screen driver's cursor is visible: bit 5 of the start register is clear.\<close>

lemma VGA_EnableCursor_visible: "crtc_regs (VGA_EnableCursor s) 0x0A AND 0x20 = 0"
  by (simp add: VGA_EnableCursor_def VGA_SetCursorStyle_def outb_def inb_def Let_def)

definition boot_banner :: "u8 list" where
  "boot_banner = bytes_of (''[DEBUG] VGA initialized successfully'' @ [CHR 0x0A])"

lemma abs_term_color: "abs_term (s\<lparr>color := c\<rparr>) = (abs_term s)\<lparr>attr := c\<rparr>"
  by (simp add: abs_term_def vga_load_def cursor_def)

lemma Init_VGA_result:
  "\<exists>s'. Init_VGA s = Some s' \<and> cursor_ok s' \<and> screen_only (s\<lparr>color := 0xA\<rparr>) s'
    \<and> abs_term s' = (fold term_putc boot_banner
        \<lparr>cells = replicate 2000 0x0F20, cur = 0, attr = 0xC\<rparr>)\<lparr>attr := 0xA\<rparr>"
proof -
  let ?s1 = "(VGA_Clear s)\<lparr>color := 0xA\<rparr>"
  let ?s2 = "VGA_SetCursor 0 0 (VGA_EnableCursor ?s1)"
  let ?s3 = "?s2\<lparr>color := 0xC\<rparr>"
  have r: "render (bytes_of (''[DEBUG] VGA initialized successfully'' @ [CHR 0x0A])) [] = Some boot_banner"
    unfolding boot_banner_def by (simp add: bytes_of_def)
  have eq: "Init_VGA s = Some ((fold VGA_Putc boot_banner ?s3)\<lparr>color := 0xA\<rparr>)"
    using VGA_EnableCursor_screen_only [of ?s1, THEN screen_only_color]
    by (simp add: Init_VGA_def DEBUGER_def Let_def SetColor_def kprintcolor_render [OF r [simplified]])
  have ok: "cursor_ok ?s3"
    using cursor_ok_VGA_SetCursor by (simp add: cursor_ok_def cursor_def)
  have "screen_only (s\<lparr>color := 0xA\<rparr>) ?s1"
    by (rule screen_only_set_color [OF VGA_Clear_screen_only])
  also have "screen_only ?s1 ?s2"
    by (rule screen_only_trans [OF VGA_EnableCursor_screen_only VGA_SetCursor_screen_only])
  finally have s2: "screen_only (s\<lparr>color := 0xA\<rparr>) ?s2" .
  then have col: "color ?s2 = 0xA" by (auto dest: screen_only_color)
  have "screen_only (s\<lparr>color := 0xA\<rparr>) ((fold VGA_Putc boot_banner ?s3)\<lparr>color := 0xA\<rparr>)"
    using screen_only_trans [OF s2 recolor_screen_only [OF conjunct2 [OF putcs_ok [OF ok]]]] col by simp
  moreover have "cursor_ok ((fold VGA_Putc boot_banner ?s3)\<lparr>color := 0xA\<rparr>)"
    using putcs_ok [OF ok, of boot_banner] by (simp add: cursor_ok_def cursor_def)
  moreover have "abs_term ?s3 = \<lparr>cells = replicate 2000 0x0F20, cur = 0, attr = 0xC\<rparr>"
  proof (rule terminal_eqI)
    have "mem (VGA_EnableCursor ?s1) = mem (VGA_Clear s)"
      using VGA_EnableCursor_form [of ?s1] by auto
    then have "vga_load k ?s3 = vga_load k (VGA_Clear s)" for k by (simp add: vga_load_def)
    then show "cells (abs_term ?s3) = cells \<lparr>cells = replicate 2000 0x0F20, cur = 0, attr = 0xC\<rparr>"
      by (auto simp: VGA_Clear_cells intro!: nth_equalityI)
    show "cur (abs_term ?s3) = cur \<lparr>cells = replicate 2000 0x0F20, cur = 0, attr = 0xC\<rparr>"
      by (simp add: abs_term_color abs_set_cursor)
  qed simp
  ultimately show ?thesis
    by (simp add: eq abs_term_color putcs_refine [OF ok])
qed

subsection \<open>Sequences of messages\<close>

text \<open>Code that only prints: with the cursor on the screen it returns and changes nothing but the screen.\<close>

definition prints :: "('a vga_scheme \<Rightarrow> 'a vga_scheme option) \<Rightarrow> bool" where
  "prints f \<longleftrightarrow> (\<forall>s. cursor_ok s \<longrightarrow> (\<exists>t. f s = Some t \<and> cursor_ok t \<and> screen_only s t))"

lemma printsD: "prints f \<Longrightarrow> cursor_ok s \<Longrightarrow> \<exists>t. f s = Some t \<and> cursor_ok t \<and> screen_only s t"
  by (simp add: prints_def)

lemma prints_Some [prints_ok]: "prints Some"
  by (simp add: prints_def)

lemma prints_bind [prints_ok]:
  assumes "prints f" "prints g"
  shows "prints (\<lambda>s. f s \<bind> g)"
  unfolding prints_def
proof (intro allI impI)
  fix s :: "'a vga_scheme" assume "cursor_ok s"
  then obtain t where t: "f s = Some t" "cursor_ok t" "screen_only s t" using assms(1) unfolding prints_def by blast
  then obtain u where "g t = Some u" "cursor_ok u" "screen_only t u" using assms(2) unfolding prints_def by blast
  with t show "\<exists>t. f s \<bind> g = Some t \<and> cursor_ok t \<and> screen_only s t" by (auto intro: screen_only_trans)
qed

lemma prints_kprintf [prints_ok]: "(\<And>s. fmt_ok fmt (args s)) \<Longrightarrow> prints (\<lambda>s. kprintf fmt (args s) s)"
  unfolding prints_def by (intro allI impI kprintf_ok) simp_all

lemma prints_kprintcolor [prints_ok]: "(\<And>s. fmt_ok fmt (args s)) \<Longrightarrow> prints (\<lambda>s. kprintcolor c fmt (args s) s)"
  unfolding prints_def by (intro allI impI kprintcolor_ok) simp_all

lemma prints_DEBUGER [prints_ok]: "(\<And>s. fmt_ok msg (args s)) \<Longrightarrow> prints (\<lambda>s. DEBUGER c msg (args s) s)"
  unfolding prints_def by (intro allI impI DEBUGER_ok) simp_all

lemma prints_if [prints_ok]: "prints f \<Longrightarrow> prints g \<Longrightarrow> prints (\<lambda>s. if P s then f s else g s)"
  by (simp add: prints_def)

end
