(* ===== verification/Phys_Memory.thy ===== *)
theory Phys_Memory
  imports Kprintf
begin

text \<open>
  The physical page allocator, \<^verbatim>\<open>kernel/memory.c\<close>: reading the memory map the boot
  loader left at \<^verbatim>\<open>0x5000\<close>, the bitmap at \<^verbatim>\<open>0x60000\<close> (bit set: page free), and
  allocation and release of 4 KiB pages from 1 MiB upwards. The bitmap, the memory map
  and the pages live in the flat memory of the machine; the static variables of the file
  are fields of the state. A null pointer is address 0.
\<close>

subsection \<open>Model\<close>

record memory = vga +
  memory_map :: u64
  total_pages :: u64
  used_pages :: u64
  memory_start :: u64
  memory_end :: u64

abbreviation PAGE_SIZE :: u64 where "PAGE_SIZE \<equiv> 4096"
abbreviation MEMORY_MAP_LOCATION :: u64 where "MEMORY_MAP_LOCATION \<equiv> 0x5000"
abbreviation MAX_MEMORY :: u64 where "MAX_MEMORY \<equiv> 0x100000000"

record MemoryMapEntry =
  base_low :: u32
  base_high :: u32
  length_low :: u32
  length_high :: u32
  entry_type :: u32
  acpi :: u32

text \<open>\<^verbatim>\<open>entries[i]\<close>: packed records of 24 bytes from \<^verbatim>\<open>MEMORY_MAP_LOCATION + 2\<close>.\<close>

definition read_entry :: "memory_bytes \<Rightarrow> nat \<Rightarrow> MemoryMapEntry" where
  "read_entry m i =
     (let a = MEMORY_MAP_LOCATION + 2 + 24 * of_nat i
      in \<lparr>base_low = read_u32 m a, base_high = read_u32 m (a + 4),
          length_low = read_u32 m (a + 8), length_high = read_u32 m (a + 12),
          entry_type = read_u32 m (a + 16), acpi = read_u32 m (a + 20)\<rparr>)"

definition entry_base :: "MemoryMapEntry \<Rightarrow> u64" where
  "entry_base e = (push_bit 32 (ucast (base_high e)) OR ucast (base_low e))"

definition entry_length :: "MemoryMapEntry \<Rightarrow> u64" where
  "entry_length e = (push_bit 32 (ucast (length_high e)) OR ucast (length_low e))"

definition calculate_bitmap_size :: "u64 \<Rightarrow> u64" where
  "calculate_bitmap_size pages = (pages + 7) div 8"

text \<open>
  The loop of \<open>safe_parse_memory_map\<close>: \<open>k\<close> entries are left from index \<open>i\<close>;
  \<open>lsize\<close>, \<open>lbase\<close> and \<open>usable\<close> are the locals \<^verbatim>\<open>largest_block_size\<close>,
  \<^verbatim>\<open>largest_block_base\<close> and \<^verbatim>\<open>usable_entries_found\<close>.
\<close>

fun parse_entries :: "nat \<Rightarrow> nat \<Rightarrow> u64 \<Rightarrow> u64 \<Rightarrow> u32 \<Rightarrow> 'a memory_scheme
    \<Rightarrow> (u64 \<times> u64 \<times> u32 \<times> 'a memory_scheme) option" where
  "parse_entries 0 i lsize lbase usable s = Some (lsize, lbase, usable, s)"
| "parse_entries (Suc k) i lsize lbase usable s =
     (let e = read_entry (mem s) i; b = entry_base e; len = entry_length e
      in if b > 0x100000000 \<or> len > 0x100000000 then parse_entries k (i + 1) lsize lbase usable s
         else if entry_type e = 1 then
           (if b \<ge> memory_start s then
              (if len > lsize then
                 do { s \<leftarrow> DEBUGER LIGHT_GREEN ''New largest block: 0x%x - 0x%x (%d MB)''
                        [VInt b, VInt (b + len), VInt (len div (1024 * 1024))] s;
                      parse_entries k (i + 1) len b (usable + 1) s }
               else parse_entries k (i + 1) lsize lbase (usable + 1) s)
            else if b < memory_start s \<and> b + len > memory_start s then
              (let usable_base = memory_start s; usable_length = b + len - memory_start s
               in if usable_length > lsize
                  then parse_entries k (i + 1) usable_length usable_base (usable + 1) s
                  else parse_entries k (i + 1) lsize lbase (usable + 1) s)
            else parse_entries k (i + 1) lsize lbase (usable + 1) s)
         else parse_entries k (i + 1) lsize lbase usable s)"

text \<open>The argument \<^verbatim>\<open>memory_end_ptr\<close> is \<^verbatim>\<open>&memory_end\<close> at the only call.\<close>

definition safe_parse_memory_map :: "'a memory_scheme \<Rightarrow> (int \<times> 'a memory_scheme) option" where
  "safe_parse_memory_map s =
     (if read_u16 (mem s) MEMORY_MAP_LOCATION > 100 then
        do { s \<leftarrow> DEBUGER LIGHT_RED ''Invalid memory map entry count: %d''
               [VInt (ucast (read_u16 (mem s) MEMORY_MAP_LOCATION))] s;
             Some (-1, s) }
      else
        (let entry_count = read_u16 (mem s) MEMORY_MAP_LOCATION
         in if entry_count = 0 \<or> entry_count > 50 then
              do { s \<leftarrow> DEBUGER LIGHT_RED ''No valid memory map entries, using fallback'' [] s;
                   Some (-1, s) }
            else
              do { (lsize, lbase, usable, s) \<leftarrow>
                     parse_entries (unat entry_count) 0 0 (memory_start s) 0 s;
                   if lsize > 0 then
                     (let s = s\<lparr>memory_end := lbase + lsize\<rparr>
                      in if memory_end s > MAX_MEMORY then
                           do { s \<leftarrow> DEBUGER LIGHT_YELLOW ''Limited to 4GB for safety'' []
                                       (s\<lparr>memory_end := MAX_MEMORY\<rparr>);
                                Some (0, s) }
                         else Some (0, s))
                   else Some (-1, s) }))"

definition bit_mask :: "u64 \<Rightarrow> u8" where
  "bit_mask i = push_bit (unat (i mod 8)) 1"

definition map_byte :: "'a memory_scheme \<Rightarrow> u64 \<Rightarrow> u64" where
  "map_byte s i = memory_map s + i div 8"

definition page_free :: "'a memory_scheme \<Rightarrow> u64 \<Rightarrow> bool" where
  "page_free s i \<longleftrightarrow> mem s (map_byte s i) AND bit_mask i \<noteq> 0"

definition clear_bit :: "u64 \<Rightarrow> 'a memory_scheme \<Rightarrow> 'a memory_scheme" where
  "clear_bit i s = s\<lparr>mem := (mem s)(map_byte s i := mem s (map_byte s i) AND NOT (bit_mask i))\<rparr>"

definition set_map_bit :: "u64 \<Rightarrow> 'a memory_scheme \<Rightarrow> 'a memory_scheme" where
  "set_map_bit i s = s\<lparr>mem := (mem s)(map_byte s i := mem s (map_byte s i) OR bit_mask i)\<rparr>"

function mark_loop :: "u64 \<Rightarrow> u64 \<Rightarrow> 'a memory_scheme \<Rightarrow> 'a memory_scheme" where
  "mark_loop i end_page s =
     (if i < end_page \<and> i < total_pages s then
        mark_loop (i + 1) end_page
          (if page_free s i then (clear_bit i s)\<lparr>used_pages := used_pages s + 1\<rparr> else s)
      else s)"
  by pat_completeness auto
termination
  by (relation "measure (\<lambda>(i, end_page, s). unat (end_page - i))") (auto intro: word_less_step)

definition mark_memory_range_used :: "u64 \<Rightarrow> u64 \<Rightarrow> 'a memory_scheme \<Rightarrow> 'a memory_scheme" where
  "mark_memory_range_used start end0 s =
     (let start = (if start < memory_start s then memory_start s else start);
          end1 = (if end0 > memory_end s then memory_end s else end0)
      in if start \<ge> end1 then s
         else mark_loop ((start - memory_start s) div PAGE_SIZE) ((end1 - memory_start s) div PAGE_SIZE) s)"

function fill_loop :: "u64 \<Rightarrow> u64 \<Rightarrow> 'a memory_scheme \<Rightarrow> 'a memory_scheme" where
  "fill_loop i n s =
     (if i < n then fill_loop (i + 1) n (s\<lparr>mem := (mem s)(memory_map s + i := 0xFF)\<rparr>) else s)"
  by pat_completeness auto
termination
  by (relation "measure (\<lambda>(i, n, s). unat (n - i))") (auto intro: word_less_step)

declare mark_loop.simps [simp del] fill_loop.simps [simp del]

definition Init_Memory :: "'a memory_scheme \<Rightarrow> 'a memory_scheme option" where
  "Init_Memory s =
     do { (rc, s) \<leftarrow> safe_parse_memory_map s;
          let s = (if rc \<noteq> 0 then s\<lparr>memory_end := 0x20000000\<rparr> else s);
          let s = s\<lparr>total_pages := (memory_end s - memory_start s) div PAGE_SIZE\<rparr>;
          let map_size_bytes = calculate_bitmap_size (total_pages s);
          let s = s\<lparr>memory_map := 0x60000\<rparr>;
          let s = fill_loop 0 map_size_bytes s;
          let s = mark_memory_range_used 0x10000 0x20000 s;
          let s = mark_memory_range_used 0x1000 0x5000 s;
          let s = mark_memory_range_used 0x5000 0x6000 s;
          let s = mark_memory_range_used 0x60000 (0x60000 + map_size_bytes) s;
          let s = mark_memory_range_used 0xB8000 (0xB8000 + 0x8000) s;
          DEBUGER LIGHT_RED ''Memory initialized: %d MB, %d free pages''
            [VInt ((memory_end s - memory_start s) div (1024 * 1024)),
             VInt (total_pages s - used_pages s)] s }"

function get_page_loop :: "u64 \<Rightarrow> 'a memory_scheme \<Rightarrow> u64 \<times> 'a memory_scheme" where
  "get_page_loop i s =
     (if i < total_pages s then
        (if page_free s i then
           (let s = (clear_bit i s)\<lparr>used_pages := used_pages s + 1\<rparr>;
                physical_addr = memory_start s + i * PAGE_SIZE
            in if physical_addr \<ge> memory_end s
               then (0, (set_map_bit i s)\<lparr>used_pages := used_pages s - 1\<rparr>)
               else (physical_addr, snd (memset physical_addr 0 4096 s)))
         else get_page_loop (i + 1) s)
      else (0, s))"
  by pat_completeness auto
termination
  by (relation "measure (\<lambda>(i, s). unat (total_pages s - i))") (auto intro: word_less_step)

declare get_page_loop.simps [simp del]

definition get_physical_page :: "'a memory_scheme \<Rightarrow> u64 \<times> 'a memory_scheme" where
  "get_physical_page s = (if memory_map s = 0 then (0, s) else get_page_loop 0 s)"

definition free_physical_page :: "u64 \<Rightarrow> 'a memory_scheme \<Rightarrow> 'a memory_scheme" where
  "free_physical_page page s =
     (if memory_map s = 0 then s
      else if page < memory_start s \<or> page \<ge> memory_end s then s
      else if page mod PAGE_SIZE \<noteq> 0 then s
      else
        (let page_index = (page - memory_start s) div PAGE_SIZE
         in if page_index \<ge> total_pages s then s
            else if \<not> page_free s page_index then
              snd (memset page 0 4096 ((set_map_bit page_index s)\<lparr>used_pages := used_pages s - 1\<rparr>))
            else s))"

text \<open>The loop of \<open>find_contiguous_free_pages\<close>; 0 is also its failure value.\<close>

function contiguous_loop :: "u64 \<Rightarrow> u64 \<Rightarrow> u64 \<Rightarrow> u64 \<Rightarrow> 'a memory_scheme \<Rightarrow> u64" where
  "contiguous_loop count i consecutive_free start_page s =
     (if i < total_pages s then
        (if page_free s i then
           (let start_page = (if consecutive_free = 0 then i else start_page);
                consecutive_free = consecutive_free + 1
            in if consecutive_free \<ge> count then start_page
               else contiguous_loop count (i + 1) consecutive_free start_page s)
         else contiguous_loop count (i + 1) 0 start_page s)
      else 0)"
  by pat_completeness auto
termination
  by (relation "measure (\<lambda>(count, i, c, st, s). unat (total_pages s - i))") (auto intro: word_less_step)

declare contiguous_loop.simps [simp del]

definition find_contiguous_free_pages :: "u64 \<Rightarrow> 'a memory_scheme \<Rightarrow> u64" where
  "find_contiguous_free_pages count s =
     (if memory_map s = 0 \<or> count = 0 \<or> count > total_pages s then 0
      else contiguous_loop count 0 0 0 s)"

definition get_total_memory :: "'a memory_scheme \<Rightarrow> u64" where
  "get_total_memory s = total_pages s * PAGE_SIZE"

definition get_free_memory :: "'a memory_scheme \<Rightarrow> u64" where
  "get_free_memory s = (total_pages s - used_pages s) * PAGE_SIZE"

definition get_total_physical_memory :: "'a memory_scheme \<Rightarrow> u64" where
  "get_total_physical_memory s = total_pages s * PAGE_SIZE"

definition MemoryInfo :: "'a memory_scheme \<Rightarrow> 'a memory_scheme option" where
  "MemoryInfo s =
     (let total_mb = get_total_memory s div (1024 * 1024);
          free_mb = get_free_memory s div (1024 * 1024);
          used_mb = used_pages s * PAGE_SIZE div (1024 * 1024)
      in do { s \<leftarrow> kprintf (CHR 0x0A # ''=== Memory Information ==='' @ [CHR 0x0A]) [] s;
              s \<leftarrow> kprintf (''Total Memory:  %d MB'' @ [CHR 0x0A]) [VInt total_mb] s;
              s \<leftarrow> kprintf (''Used Memory:   %d MB (%d pages)'' @ [CHR 0x0A]) [VInt used_mb, VInt (used_pages s)] s;
              s \<leftarrow> kprintf (''Free Memory:   %d MB (%d pages)'' @ [CHR 0x0A])
                     [VInt free_mb, VInt (total_pages s - used_pages s)] s;
              s \<leftarrow> kprintf (''Memory Range:  0x%x - 0x%x'' @ [CHR 0x0A]) [VInt (memory_start s), VInt (memory_end s)] s;
              s \<leftarrow> kprintf (''Page Size:     %d bytes'' @ [CHR 0x0A]) [VInt PAGE_SIZE] s;
              kprintf (''=========================='' @ [CHR 0x0A]) [] s })"

definition memory_debug_dump :: "'a memory_scheme \<Rightarrow> 'a memory_scheme option" where
  "memory_debug_dump s =
     do { s \<leftarrow> kprintf (CHR 0x0A # ''=== Memory Debug ==='' @ [CHR 0x0A]) [] s;
          s \<leftarrow> kprintf (''memory_map: 0x%x'' @ [CHR 0x0A]) [VInt (memory_map s)] s;
          s \<leftarrow> kprintf (''memory_start: 0x%x'' @ [CHR 0x0A]) [VInt (memory_start s)] s;
          s \<leftarrow> kprintf (''memory_end: 0x%x'' @ [CHR 0x0A]) [VInt (memory_end s)] s;
          s \<leftarrow> kprintf (''total_pages: %d'' @ [CHR 0x0A]) [VInt (total_pages s)] s;
          kprintf (''used_pages: %d'' @ [CHR 0x0A]) [VInt (used_pages s)] s }"

fun debug_map_loop :: "nat \<Rightarrow> nat \<Rightarrow> 'a memory_scheme \<Rightarrow> 'a memory_scheme option" where
  "debug_map_loop 0 i s = Some s"
| "debug_map_loop (Suc k) i s =
     (if i < 10 then
        (let e = read_entry (mem s) i
         in do { s \<leftarrow> kprintf (''Entry %d: Base=0x%x, Length=0x%x, Type=%d'' @ [CHR 0x0A])
                   [VInt (of_nat i), VInt (entry_base e), VInt (entry_length e), VInt (ucast (entry_type e))] s;
                 debug_map_loop k (i + 1) s })
      else Some s)"

definition debug_memory_map :: "'a memory_scheme \<Rightarrow> 'a memory_scheme option" where
  "debug_memory_map s =
     (let entry_count = read_u16 (mem s) MEMORY_MAP_LOCATION
      in do { s \<leftarrow> kprintf (CHR 0x0A # ''=== Memory Map Debug ==='' @ [CHR 0x0A]) [] s;
              s \<leftarrow> kprintf (''Total entries: %d'' @ [CHR 0x0A]) [VInt (ucast entry_count)] s;
              s \<leftarrow> debug_map_loop (unat entry_count) 0 s;
              kprintf (''======================='' @ [CHR 0x0A]) [] s })"

text \<open>The set of free pages, the bytes of the largest bitmap, and the allocator's invariant.\<close>

definition free_pages :: "'a memory_scheme \<Rightarrow> u64 set" where
  "free_pages s = {i. i < total_pages s \<and> page_free s i}"

definition page_addr :: "u64 \<Rightarrow> u64" where
  "page_addr i = 0x100000 + i * PAGE_SIZE"

definition bitmap_area :: "u64 set" where
  "bitmap_area = region 0x60000 0x20000"

definition alloc_bounds :: "'a memory_scheme \<Rightarrow> bool" where
  "alloc_bounds s \<longleftrightarrow>
     memory_map s = 0x60000 \<and> memory_start s = 0x100000
     \<and> memory_start s \<le> memory_end s \<and> memory_end s \<le> MAX_MEMORY
     \<and> total_pages s = (memory_end s - memory_start s) div PAGE_SIZE"

definition alloc_ok :: "'a memory_scheme \<Rightarrow> bool" where
  "alloc_ok s \<longleftrightarrow>
     alloc_bounds s \<and> unat (used_pages s) + card (free_pages s) = unat (total_pages s)"

subsection \<open>Bits of the bitmap\<close>

lemma bit_mask_bit: "bit (bit_mask i) n \<longleftrightarrow> n = unat (i mod 8)"
proof -
  have "unat (i mod 8) < 8" by (simp add: unat_mod_distrib)
  then show ?thesis by (auto simp: bit_mask_def bit_simps)
qed

lemma page_free_bit: "page_free s i \<longleftrightarrow> bit (mem s (map_byte s i)) (unat (i mod 8))"
proof -
  let ?b = "mem s (map_byte s i)"
  have "(?b AND bit_mask i = 0) \<longleftrightarrow> (\<forall>n. \<not> bit (?b AND bit_mask i) n)"
    by (auto intro!: bit_word_eqI)
  also have "\<dots> \<longleftrightarrow> \<not> bit ?b (unat (i mod 8))"
    by (auto simp: bit_and_iff bit_mask_bit)
  finally show ?thesis by (simp add: page_free_def)
qed

lemma page_index_eq: "(i :: u64) = j \<longleftrightarrow> i div 8 = j div 8 \<and> unat (i mod 8) = unat (j mod 8)"
  by (metis div_mult_mod_eq word_unat_eq_iff)

lemma map_byte_mem [simp]: "map_byte (s\<lparr>mem := m\<rparr>) i = map_byte s i"
  "map_byte (s\<lparr>used_pages := u\<rparr>) i = map_byte s i"
  by (simp_all add: map_byte_def)

lemma page_free_clear: "page_free (clear_bit i s) j \<longleftrightarrow> page_free s j \<and> j \<noteq> i"
proof -
  have "map_byte s j = map_byte s i \<longleftrightarrow> j div 8 = i div 8" by (simp add: map_byte_def)
  then show ?thesis
    by (auto simp: page_free_bit clear_bit_def bit_simps bit_mask_bit page_index_eq [of j i])
       (auto simp: unat_mod_distrib)
qed

lemma page_free_set: "page_free (set_map_bit i s) j \<longleftrightarrow> page_free s j \<or> j = i"
proof -
  have "map_byte s j = map_byte s i \<longleftrightarrow> j div 8 = i div 8" by (simp add: map_byte_def)
  then show ?thesis
    by (auto simp: page_free_bit set_map_bit_def bit_simps bit_mask_bit page_index_eq [of j i])
qed

lemma page_free_used [simp]: "page_free (s\<lparr>used_pages := u\<rparr>) j = page_free s j"
  by (simp add: page_free_def map_byte_def)

lemma page_free_cong:
  "memory_map t = memory_map s \<Longrightarrow> mem t (map_byte s j) = mem s (map_byte s j) \<Longrightarrow>
     page_free t j = page_free s j"
  by (simp add: page_free_def map_byte_def)

subsection \<open>Addresses\<close>

lemma alloc_bounds_total:
  assumes "alloc_bounds s"
  shows "unat (total_pages s) = (unat (memory_end s) - 0x100000) div 4096"
    and "unat (total_pages s) \<le> 0xFFF00" "unat (memory_end s) \<le> 0x100000000"
proof -
  have "unat (memory_end s) \<le> 0x100000000" "0x100000 \<le> unat (memory_end s)"
    using assms by (auto simp: alloc_bounds_def word_le_nat_alt)
  moreover show "unat (total_pages s) = (unat (memory_end s) - 0x100000) div 4096"
    using assms by (auto simp: alloc_bounds_def unat_div_distrib unat_sub)
  ultimately show "unat (total_pages s) \<le> 0xFFF00" "unat (memory_end s) \<le> 0x100000000" by auto
qed

lemma unat_page_addr:
  assumes "unat i < 0x100000"
  shows "unat (page_addr i) = 0x100000 + 4096 * unat i"
proof -
  have "page_addr i = of_nat (0x100000 + 4096 * unat i)"
    by (simp add: page_addr_def mult.commute)
  then have "unat (page_addr i) = (0x100000 + 4096 * unat i) mod 2 ^ 64"
    by (simp only: unat_of_nat) simp
  with assms show ?thesis by simp
qed

lemma page_addr_bounds:
  assumes "alloc_bounds s" "i < total_pages s"
  shows "unat (page_addr i) = 0x100000 + 4096 * unat i"
    "0x100000 \<le> unat (page_addr i)" "unat (page_addr i) + 4096 \<le> unat (memory_end s)"
proof -
  have i: "unat i < unat (total_pages s)" using assms(2) by (simp add: word_less_nat_alt)
  then show "unat (page_addr i) = 0x100000 + 4096 * unat i"
    using alloc_bounds_total(2) [OF assms(1)] by (intro unat_page_addr) simp
  then show "0x100000 \<le> unat (page_addr i)" "unat (page_addr i) + 4096 \<le> unat (memory_end s)"
    using i alloc_bounds_total(1) [OF assms(1)] by auto
qed

lemma page_addr_inject:
  "alloc_bounds s \<Longrightarrow> i < total_pages s \<Longrightarrow> j < total_pages s \<Longrightarrow> page_addr i = page_addr j \<longleftrightarrow> i = j"
  using page_addr_bounds(1) [of s i] page_addr_bounds(1) [of s j]
  by (auto simp: word_unat_eq_iff)

lemma map_byte_area:
  assumes "alloc_bounds s" "i < total_pages s"
  shows "map_byte s i \<in> bitmap_area"
proof -
  have "unat (i div 8) < 0x20000"
    using assms alloc_bounds_total(2) [OF assms(1)]
    by (simp add: unat_div_distrib word_less_nat_alt)
  then show ?thesis
    using assms(1) by (simp add: bitmap_area_def region_def map_byte_def alloc_bounds_def)
qed

lemma page_region:
  assumes "alloc_bounds s" "i < total_pages s"
  shows "region (page_addr i) 4096 = {a. unat (page_addr i) \<le> unat a \<and> unat a < unat (page_addr i) + 4096}"
  using page_addr_bounds [OF assms] alloc_bounds_total(3) [OF assms(1)]
  by (auto simp: region_iff)

lemma bitmap_area_iff: "a \<in> bitmap_area \<longleftrightarrow> 0x60000 \<le> unat a \<and> unat a < 0x80000"
  by (simp add: bitmap_area_def region_iff)

lemma screen_bytes_iff: "a \<in> screen_bytes \<longleftrightarrow> 0xB8000 \<le> unat a \<and> unat a < 0xB8FA0"
  by (simp add: screen_bytes_def region_iff VGA_ADDRESS_def)

text \<open>No page overlaps the bitmap or the screen, and the bitmap does not overlap the screen.\<close>

lemma page_disjoint:
  assumes "alloc_bounds s" "i < total_pages s"
  shows "region (page_addr i) 4096 \<inter> bitmap_area = {}" "region (page_addr i) 4096 \<inter> screen_bytes = {}"
  using page_addr_bounds(2) [OF assms]
  by (auto simp: page_region [OF assms] bitmap_area_iff screen_bytes_iff)

lemma bitmap_screen_disjoint: "bitmap_area \<inter> screen_bytes = {}"
  by (auto simp: bitmap_area_iff screen_bytes_iff)

lemma pages_disjoint:
  assumes "alloc_bounds s" "i < total_pages s" "j < total_pages s" "i \<noteq> j"
  shows "region (page_addr i) 4096 \<inter> region (page_addr j) 4096 = {}"
proof -
  have "unat i \<noteq> unat j" using assms(4) by (simp add: word_unat_eq_iff)
  then show ?thesis
    by (auto simp: page_region [OF assms(1,2)] page_region [OF assms(1,3)]
        page_addr_bounds(1) [OF assms(1,2)] page_addr_bounds(1) [OF assms(1,3)])
qed

subsection \<open>Frames\<close>

text \<open>A state that differs in memory only, and only off the bitmap, has the same free pages.\<close>

lemma free_pages_agree:
  assumes "alloc_bounds s" "memory_map t = memory_map s" "total_pages t = total_pages s"
    and "agree_off R (mem s) (mem t)" "R \<inter> bitmap_area = {}"
  shows "free_pages t = free_pages s"
proof -
  have "page_free t i = page_free s i" if "i < total_pages s" for i
    using map_byte_area [OF assms(1) that] assms by (intro page_free_cong) (auto simp: agree_off_def)
  then show ?thesis by (auto simp: free_pages_def assms(3))
qed

lemma alloc_bounds_cong:
  "memory_map t = memory_map s \<Longrightarrow> total_pages t = total_pages s \<Longrightarrow> memory_start t = memory_start s
   \<Longrightarrow> memory_end t = memory_end s \<Longrightarrow> alloc_bounds t = alloc_bounds s"
  by (simp add: alloc_bounds_def)

lemma screen_only_memory:
  assumes "screen_only s t"
  shows "memory_map t = memory_map s" "total_pages t = total_pages s" "used_pages t = used_pages s"
    "memory_start t = memory_start s" "memory_end t = memory_end s"
  using assms by (auto elim!: screen_onlyE)

lemma screen_only_alloc_ok: "screen_only s t \<Longrightarrow> alloc_ok s \<Longrightarrow> alloc_ok t \<and> free_pages t = free_pages s"
proof -
  assume st: "screen_only s t" and ok: "alloc_ok s"
  note eqs = screen_only_memory [OF st]
  have b: "alloc_bounds s" using ok by (simp add: alloc_ok_def)
  have "free_pages t = free_pages s"
    using b eqs screen_only_mem [OF st] bitmap_screen_disjoint by (intro free_pages_agree) auto
  with ok b eqs show ?thesis by (simp add: alloc_ok_def alloc_bounds_cong [of t s])
qed

subsection \<open>Allocation\<close>

lemma clear_bit_simps [simp]:
  "total_pages (clear_bit i s) = total_pages s" "memory_map (clear_bit i s) = memory_map s"
  "memory_start (clear_bit i s) = memory_start s" "memory_end (clear_bit i s) = memory_end s"
  "used_pages (clear_bit i s) = used_pages s"
  by (simp_all add: clear_bit_def)

lemma set_map_bit_simps [simp]:
  "total_pages (set_map_bit i s) = total_pages s" "memory_map (set_map_bit i s) = memory_map s"
  "memory_start (set_map_bit i s) = memory_start s" "memory_end (set_map_bit i s) = memory_end s"
  "used_pages (set_map_bit i s) = used_pages s"
  by (simp_all add: set_map_bit_def)

lemma memset_simps [simp]:
  "total_pages (snd (memset a c n s)) = total_pages s" "memory_map (snd (memset a c n s)) = memory_map s"
  "memory_start (snd (memset a c n s)) = memory_start s" "memory_end (snd (memset a c n s)) = memory_end s"
  "used_pages (snd (memset a c n s)) = used_pages s"
  by (simp_all add: memset_def)

definition take_page :: "u64 \<Rightarrow> 'a memory_scheme \<Rightarrow> 'a memory_scheme" where
  "take_page i s = snd (memset (page_addr i) 0 4096 ((clear_bit i s)\<lparr>used_pages := used_pages s + 1\<rparr>))"

lemma get_page_loop_none:
  "(\<And>j. i \<le> j \<Longrightarrow> j < total_pages s \<Longrightarrow> \<not> page_free s j) \<Longrightarrow> get_page_loop i s = (0, s)"
proof (induction i s rule: get_page_loop.induct)
  case (1 i s)
  show ?case
  proof (cases "i < total_pages s")
    case True
    have "i + 1 \<le> j \<Longrightarrow> i \<le> j" for j
      using unat_plus_one [OF True] by (simp add: word_le_nat_alt)
    with 1 True show ?thesis by (simp add: get_page_loop.simps [of i])
  qed (simp add: get_page_loop.simps)
qed

lemma get_page_loop_some:
  assumes "alloc_bounds s" "i \<le> j" "j < total_pages s" "page_free s j"
    and "\<And>k. i \<le> k \<Longrightarrow> k < j \<Longrightarrow> \<not> page_free s k"
  shows "get_page_loop i s = (page_addr j, take_page j s)"
  using assms
proof (induction i s rule: get_page_loop.induct)
  case (1 i s)
  have i: "i < total_pages s" using "1.prems"(2,3) by simp
  show ?case
  proof (cases "i = j")
    case True
    have "memory_start s + j * PAGE_SIZE = page_addr j"
      using "1.prems"(1) by (simp add: alloc_bounds_def page_addr_def)
    moreover have "\<not> memory_end s \<le> page_addr j"
      using page_addr_bounds(3) [OF "1.prems"(1,3)] by (simp add: word_le_nat_alt)
    ultimately show ?thesis
      using "1.prems"(4) i True by (simp add: get_page_loop.simps [of j] take_page_def Let_def)
  next
    case False
    with "1.prems" have "\<not> page_free s i" by simp
    moreover have "i + 1 \<le> j"
      using False "1.prems"(2) unat_plus_one [OF i] by (auto simp: word_le_nat_alt word_unat_eq_iff)
    moreover have "\<not> page_free s k" if "i + 1 \<le> k" "k < j" for k
      using that "1.prems"(5) [of k] unat_plus_one [OF i] by (simp add: word_le_nat_alt)
    ultimately show ?thesis
      using "1.IH" [OF i] "1.prems" i by (simp add: get_page_loop.simps [of i])
  qed
qed

lemma free_pages_Min:
  assumes "free_pages s \<noteq> {}"
  shows "Min (free_pages s) \<in> free_pages s" "k < Min (free_pages s) \<Longrightarrow> k \<notin> free_pages s"
proof -
  show "Min (free_pages s) \<in> free_pages s" using assms by (simp add: Min_in)
  show "k < Min (free_pages s) \<Longrightarrow> k \<notin> free_pages s"
    by (meson Min_le finite not_le)
qed

lemma get_physical_page_eq:
  assumes "alloc_bounds s"
  shows "get_physical_page s = (if free_pages s = {} then (0, s)
    else (page_addr (Min (free_pages s)), take_page (Min (free_pages s)) s))"
proof -
  have nn: "memory_map s \<noteq> 0" using assms by (simp add: alloc_bounds_def)
  show ?thesis
  proof (cases "free_pages s = {}")
    case True
    with nn show ?thesis
      by (auto simp: get_physical_page_def free_pages_def intro!: get_page_loop_none)
  next
    case False
    let ?j = "Min (free_pages s)"
    have j: "?j < total_pages s" "page_free s ?j"
      using free_pages_Min(1) [OF False] by (auto simp: free_pages_def)
    have "\<not> page_free s k" if "k < ?j" for k
      using free_pages_Min(2) [OF False that] that j(1) by (auto simp: free_pages_def)
    then have "get_page_loop 0 s = (page_addr ?j, take_page ?j s)"
      by (intro get_page_loop_some [OF assms _ j]) auto
    with nn False show ?thesis by (simp add: get_physical_page_def)
  qed
qed

lemma take_page_form: "take_page i s = s\<lparr>mem := mem (take_page i s), used_pages := used_pages s + 1\<rparr>"
  by (simp add: take_page_def memset_def clear_bit_def)

lemma take_page_simps [simp]:
  "total_pages (take_page i s) = total_pages s" "memory_map (take_page i s) = memory_map s"
  "memory_start (take_page i s) = memory_start s" "memory_end (take_page i s) = memory_end s"
  "used_pages (take_page i s) = used_pages s + 1"
  by (simp_all add: take_page_def)

lemma take_page_mem:
  "mem (take_page i s) a = (if a \<in> region (page_addr i) 4096 then 0 else mem (clear_bit i s) a)"
  by (simp add: take_page_def memset_mem)

lemma take_page_agree:
  assumes "alloc_bounds s" "i < total_pages s"
  shows "agree_off (region (page_addr i) 4096 \<union> bitmap_area) (mem s) (mem (take_page i s))"
  using map_byte_area [OF assms] by (auto simp: agree_off_def take_page_mem clear_bit_def)

lemma take_page_free:
  assumes "alloc_bounds s" "i < total_pages s"
  shows "free_pages (take_page i s) = free_pages s - {i}"
proof -
  let ?t = "clear_bit i s"
  have "page_free (take_page i s) j = page_free ?t j" if "j < total_pages s" for j
  proof (rule page_free_cong)
    have "map_byte ?t j \<notin> region (page_addr i) 4096"
      using map_byte_area [OF assms(1) that] page_disjoint(1) [OF assms]
      by (auto simp: clear_bit_def)
    then show "mem (take_page i s) (map_byte ?t j) = mem ?t (map_byte ?t j)"
      by (simp add: take_page_mem)
  qed simp
  then show ?thesis by (auto simp: free_pages_def page_free_clear)
qed

lemma take_page_ok:
  assumes "alloc_ok s" "i \<in> free_pages s"
  shows "alloc_ok (take_page i s)"
proof -
  have b: "alloc_bounds s" and i: "i < total_pages s"
    using assms by (auto simp: alloc_ok_def free_pages_def)
  have card: "card (free_pages s) > 0" using assms(2) by (auto simp: card_gt_0_iff)
  then have "unat (used_pages s) < unat (total_pages s)"
    using assms(1) by (simp add: alloc_ok_def)
  then have "unat (used_pages s + 1) = Suc (unat (used_pages s))"
    by (intro unat_plus_one) (simp add: word_less_nat_alt)
  then show ?thesis
    using assms b card alloc_bounds_cong [of "take_page i s" s]
    by (simp add: alloc_ok_def take_page_free [OF b i])
qed

subsection \<open>Release\<close>

definition give_page :: "u64 \<Rightarrow> 'a memory_scheme \<Rightarrow> 'a memory_scheme" where
  "give_page i s = snd (memset (page_addr i) 0 4096 ((set_map_bit i s)\<lparr>used_pages := used_pages s - 1\<rparr>))"

lemma page_addr_index:
  assumes "alloc_bounds s" "i < total_pages s"
  shows "(page_addr i - 0x100000) div PAGE_SIZE = i" "page_addr i mod PAGE_SIZE = 0"
    "0x100000 \<le> page_addr i" "page_addr i < memory_end s"
proof -
  note b = page_addr_bounds [OF assms]
  show ge: "0x100000 \<le> page_addr i" using b by (simp add: word_le_nat_alt)
  show "page_addr i < memory_end s" using b by (simp add: word_less_nat_alt)
  have "unat (page_addr i mod PAGE_SIZE) = 0" using b by (simp add: unat_mod_distrib)
  then show "page_addr i mod PAGE_SIZE = 0" by (simp add: unat_eq_zero)
  have "unat ((page_addr i - 0x100000) div PAGE_SIZE) = unat i"
    using b ge by (simp add: unat_div_distrib unat_sub)
  then show "(page_addr i - 0x100000) div PAGE_SIZE = i" by (simp add: word_unat_eq_iff)
qed

lemma free_physical_page_addr:
  assumes "alloc_bounds s" "i < total_pages s"
  shows "free_physical_page (page_addr i) s = (if page_free s i then s else give_page i s)"
  using assms(1) page_addr_index [OF assms] assms(2)
  by (auto simp: free_physical_page_def alloc_bounds_def give_page_def Let_def)

lemma aligned_page_addr:
  assumes "alloc_bounds s" "0x100000 \<le> p" "p < memory_end s" "p mod PAGE_SIZE = 0"
  shows "p = page_addr ((p - 0x100000) div PAGE_SIZE)"
proof -
  have n: "0x100000 \<le> unat p" "unat p < 0x100000000"
    using assms alloc_bounds_total(3) [OF assms(1)] by (auto simp: word_le_nat_alt word_less_nat_alt)
  have "unat p mod 4096 = 0"
    using arg_cong [OF assms(4), of unat] by (simp add: unat_mod_distrib)
  then obtain k where k: "unat p = 4096 * k" by (metis mod_0_imp_dvd dvdE)
  have "unat p - 0x100000 = 4096 * (k - 256)" by (simp add: k)
  then have d: "(unat p - 0x100000) div 4096 = k - 256" by simp
  have idx: "unat ((p - 0x100000) div PAGE_SIZE) = (unat p - 0x100000) div 4096"
    using assms(2) by (simp add: unat_div_distrib unat_sub)
  then have "unat (page_addr ((p - 0x100000) div PAGE_SIZE)) = 0x100000 + 4096 * ((unat p - 0x100000) div 4096)"
    using n by (subst unat_page_addr) auto
  also have "\<dots> = unat p" using n(1) k unfolding d by simp
  finally show ?thesis by (simp add: word_unat_eq_iff)
qed

lemma free_physical_page_other:
  assumes "alloc_bounds s" "p \<notin> page_addr ` {i. i < total_pages s}"
  shows "free_physical_page p s = s"
proof (cases "0x100000 \<le> p \<and> p < memory_end s \<and> p mod PAGE_SIZE = 0")
  case True
  define i where "i = (p - 0x100000) div PAGE_SIZE"
  have "p = page_addr i"
    unfolding i_def by (rule aligned_page_addr [OF assms(1)]) (use True in auto)
  with assms(2) have "\<not> i < total_pages s" by auto
  with assms(1) show ?thesis by (simp add: free_physical_page_def alloc_bounds_def Let_def i_def)
next
  case False
  then have "(p < memory_start s \<or> p \<ge> memory_end s) \<or> p mod PAGE_SIZE \<noteq> 0"
    using assms(1) unfolding alloc_bounds_def by (metis not_le)
  then show ?thesis
    unfolding free_physical_page_def by (metis (full_types))
qed

lemma give_page_simps [simp]:
  "total_pages (give_page i s) = total_pages s" "memory_map (give_page i s) = memory_map s"
  "memory_start (give_page i s) = memory_start s" "memory_end (give_page i s) = memory_end s"
  "used_pages (give_page i s) = used_pages s - 1"
  by (simp_all add: give_page_def)

lemma give_page_mem:
  "mem (give_page i s) a = (if a \<in> region (page_addr i) 4096 then 0 else mem (set_map_bit i s) a)"
  by (simp add: give_page_def memset_mem)

lemma give_page_agree:
  assumes "alloc_bounds s" "i < total_pages s"
  shows "agree_off (region (page_addr i) 4096 \<union> bitmap_area) (mem s) (mem (give_page i s))"
  using map_byte_area [OF assms] by (auto simp: agree_off_def give_page_mem set_map_bit_def)

lemma give_page_free:
  assumes "alloc_bounds s" "i < total_pages s"
  shows "free_pages (give_page i s) = insert i (free_pages s)"
proof -
  let ?t = "set_map_bit i s"
  have "page_free (give_page i s) j = page_free ?t j" if "j < total_pages s" for j
  proof (rule page_free_cong)
    have "map_byte ?t j \<notin> region (page_addr i) 4096"
      using map_byte_area [OF assms(1) that] page_disjoint(1) [OF assms]
      by (auto simp: set_map_bit_def)
    then show "mem (give_page i s) (map_byte ?t j) = mem ?t (map_byte ?t j)"
      by (simp add: give_page_mem)
  qed simp
  then show ?thesis using assms(2) by (auto simp: free_pages_def page_free_set)
qed

lemma card_free_le: "card (free_pages s) \<le> unat (total_pages s)"
proof -
  have "card (free_pages s) = card (unat ` free_pages s)"
    by (rule card_image [symmetric]) (simp add: inj_on_def word_unat_eq_iff)
  also have "\<dots> \<le> card {..< unat (total_pages s)}"
    by (rule card_mono) (auto simp: free_pages_def word_less_nat_alt)
  finally show ?thesis by simp
qed

lemma give_page_ok:
  assumes "alloc_ok s" "i < total_pages s" "\<not> page_free s i"
  shows "alloc_ok (give_page i s)"
proof -
  have b: "alloc_bounds s" using assms(1) by (simp add: alloc_ok_def)
  have new: "i \<notin> free_pages s" using assms(3) by (simp add: free_pages_def)
  have "card (insert i (free_pages s)) \<le> unat (total_pages s)"
    using card_free_le [of "give_page i s"] give_page_free [OF b assms(2)] by simp
  then have "unat (used_pages s) \<noteq> 0"
    using assms(1) new by (simp add: alloc_ok_def)
  then have "unat (used_pages s - 1) = unat (used_pages s) - 1"
    by (intro unat_minus_one) (simp add: unat_eq_zero)
  then show ?thesis
    using assms(1) b new alloc_bounds_cong [of "give_page i s" s] \<open>unat (used_pages s) \<noteq> 0\<close>
    by (simp add: alloc_ok_def give_page_free [OF b assms(2)])
qed

subsection \<open>The allocator's contract\<close>

text \<open>
  What clients of the allocator rely on: a set of available page addresses, the pages it
  manages, and how allocation and release change the first. The null address is never
  handed out as a page.
\<close>

locale page_allocator =
  fixes alloc :: "'s \<Rightarrow> u64 \<times> 's"
    and release :: "u64 \<Rightarrow> 's \<Rightarrow> 's"
    and avail :: "'s \<Rightarrow> u64 set"
    and pages :: "'s \<Rightarrow> u64 set"
    and inv :: "'s \<Rightarrow> bool"
  assumes alloc_none: "inv s \<Longrightarrow> avail s = {} \<Longrightarrow> alloc s = (0, s)"
    and alloc_some: "inv s \<Longrightarrow> avail s \<noteq> {} \<Longrightarrow>
        fst (alloc s) = Min (avail s) \<and> avail (snd (alloc s)) = avail s - {fst (alloc s)}
        \<and> pages (snd (alloc s)) = pages s \<and> inv (snd (alloc s))"
    and avail_pages: "inv s \<Longrightarrow> avail s \<subseteq> pages s"
    and null_page: "inv s \<Longrightarrow> 0 \<notin> pages s"
    and release_page: "inv s \<Longrightarrow> p \<in> pages s - avail s \<Longrightarrow>
        avail (release p s) = insert p (avail s) \<and> pages (release p s) = pages s \<and> inv (release p s)"
    and release_other: "inv s \<Longrightarrow> p \<notin> pages s - avail s \<Longrightarrow> release p s = s"
begin

text \<open>Allocating \<open>n\<close> pages in a row.\<close>

fun allocs :: "nat \<Rightarrow> 's \<Rightarrow> u64 list \<times> 's" where
  "allocs 0 s = ([], s)"
| "allocs (Suc n) s = (let (p, s) = alloc s; (ps, s) = allocs n s in (p # ps, s))"

lemma alloc_in: "inv s \<Longrightarrow> avail s \<noteq> {} \<Longrightarrow> fst (alloc s) \<in> avail s"
  using alloc_some [of s] by (simp add: Min_in)

lemma alloc_owned:
  "inv s \<Longrightarrow> avail s \<noteq> {} \<Longrightarrow> fst (alloc s) \<in> pages (snd (alloc s)) - avail (snd (alloc s))"
  using alloc_some [of s] subsetD [OF avail_pages alloc_in, of s] by auto

lemma alloc_null_iff: "inv s \<Longrightarrow> fst (alloc s) = 0 \<longleftrightarrow> avail s = {}"
  using alloc_none [of s] alloc_in [of s] null_page [of s] avail_pages [of s] by (cases "avail s = {}") auto

lemma alloc_inv: "inv s \<Longrightarrow> inv (snd (alloc s))"
  using alloc_none [of s] alloc_some [of s] by (cases "avail s = {}") auto

lemma release_inv: "inv s \<Longrightarrow> inv (release p s)"
  using release_page [of s p] release_other [of s p] by (cases "p \<in> pages s - avail s") auto

lemma allocs_distinct:
  assumes "inv s" "n \<le> card (avail s)"
  shows "distinct (fst (allocs n s)) \<and> set (fst (allocs n s)) \<subseteq> avail s \<and> length (fst (allocs n s)) = n
    \<and> avail (snd (allocs n s)) = avail s - set (fst (allocs n s)) \<and> inv (snd (allocs n s))"
  using assms
proof (induction n arbitrary: s)
  case (Suc n)
  let ?p = "fst (alloc s)" and ?t = "snd (alloc s)"
  have ne: "avail s \<noteq> {}" using Suc.prems(2) by auto
  note some = alloc_some [OF Suc.prems(1) ne] alloc_in [OF Suc.prems(1) ne]
  then have "n \<le> card (avail ?t)" using Suc.prems(2) by simp
  from Suc.IH [OF _ this] some show ?case by (auto simp: Let_def split_beta)
qed simp

lemma allocs_map: "fst (allocs n s) = map (\<lambda>k. fst (alloc (((\<lambda>s. snd (alloc s)) ^^ k) s))) [0..<n]"
proof (induction n arbitrary: s)
  case (Suc n)
  show ?case
    unfolding allocs.simps Let_def split_beta fst_conv Suc
    by (simp add: upt_conv_Cons map_Suc_upt [symmetric] funpow_swap1 [where f = "\<lambda>s. snd (alloc s)"] comp_def del: upt_Suc)
qed simp

lemma alloc_release:
  assumes "inv s" "avail s \<noteq> {}"
  shows "avail (release (fst (alloc s)) (snd (alloc s))) = avail s"
    "fst (alloc (release (fst (alloc s)) (snd (alloc s)))) = fst (alloc s)"
proof -
  let ?p = "fst (alloc s)" and ?t = "snd (alloc s)"
  note some = alloc_some [OF assms] alloc_in [OF assms]
  have "?p \<in> pages ?t - avail ?t" by (rule alloc_owned [OF assms])
  with some release_page [of ?t ?p] have r: "avail (release ?p ?t) = avail s" "inv (release ?p ?t)"
    by auto
  then show "avail (release ?p ?t) = avail s" by simp
  show "fst (alloc (release ?p ?t)) = ?p"
    using alloc_some [of "release ?p ?t"] r assms some by simp
qed

lemma double_release: "inv s \<Longrightarrow> release p (release p s) = release p s"
  using release_page [of s p] release_other by (cases "p \<in> pages s - avail s") auto

end

definition all_pages :: "'a memory_scheme \<Rightarrow> u64 set" where
  "all_pages s = page_addr ` {i. i < total_pages s}"

definition avail_pages :: "'a memory_scheme \<Rightarrow> u64 set" where
  "avail_pages s = page_addr ` free_pages s"

lemma page_addr_mono: "alloc_bounds s \<Longrightarrow> i < total_pages s \<Longrightarrow> j < total_pages s \<Longrightarrow> i \<le> j \<Longrightarrow> page_addr i \<le> page_addr j"
  using page_addr_bounds(1) [of s i] page_addr_bounds(1) [of s j] by (simp add: word_le_nat_alt)

lemma Min_avail:
  assumes "alloc_bounds s" "free_pages s \<noteq> {}"
  shows "Min (avail_pages s) = page_addr (Min (free_pages s))"
proof (rule Min_eqI)
  show "page_addr (Min (free_pages s)) \<in> avail_pages s"
    using free_pages_Min(1) [OF assms(2)] by (simp add: avail_pages_def)
  fix q assume "q \<in> avail_pages s"
  then obtain j where "j \<in> free_pages s" "q = page_addr j" by (auto simp: avail_pages_def)
  then show "page_addr (Min (free_pages s)) \<le> q"
    using free_pages_Min(1) [OF assms(2)] page_addr_mono [OF assms(1), of "Min (free_pages s)" j]
    by (auto simp: free_pages_def)
qed simp

lemma avail_minus:
  assumes "alloc_bounds s" "i < total_pages s"
  shows "page_addr ` (free_pages s - {i}) = avail_pages s - {page_addr i}"
  using page_addr_inject [OF assms(1)] assms(2) by (auto simp: avail_pages_def free_pages_def)

lemma owned_page:
  assumes "alloc_bounds s" "p \<in> all_pages s - avail_pages s"
  obtains i where "p = page_addr i" "i < total_pages s" "\<not> page_free s i"
  using assms by (auto simp: all_pages_def avail_pages_def free_pages_def)

interpretation pa: page_allocator get_physical_page free_physical_page avail_pages all_pages alloc_ok
proof unfold_locales
  fix s :: "'a memory_scheme" and p :: u64
  assume ok: "alloc_ok s"
  then have b: "alloc_bounds s" by (simp add: alloc_ok_def)
  show "avail_pages s \<subseteq> all_pages s" by (auto simp: avail_pages_def all_pages_def free_pages_def)
  show "0 \<notin> all_pages s"
    using page_addr_bounds(2) [OF b] by (fastforce simp: all_pages_def)
  show "avail_pages s = {} \<Longrightarrow> get_physical_page s = (0, s)"
    by (simp add: get_physical_page_eq [OF b] avail_pages_def)
  show "fst (get_physical_page s) = Min (avail_pages s)
      \<and> avail_pages (snd (get_physical_page s)) = avail_pages s - {fst (get_physical_page s)}
      \<and> all_pages (snd (get_physical_page s)) = all_pages s \<and> alloc_ok (snd (get_physical_page s))"
    if "avail_pages s \<noteq> {}"
  proof -
    have ne: "free_pages s \<noteq> {}" using that by (simp add: avail_pages_def)
    let ?i = "Min (free_pages s)"
    have i: "?i \<in> free_pages s" "?i < total_pages s"
      using free_pages_Min(1) [OF ne] by (auto simp: free_pages_def)
    show ?thesis
      using ne i by (simp add: get_physical_page_eq [OF b] Min_avail [OF b] take_page_ok [OF ok]
          avail_minus [OF b] take_page_free [OF b] all_pages_def avail_pages_def [of "take_page ?i s"])
  qed
  show "avail_pages (free_physical_page p s) = insert p (avail_pages s)
      \<and> all_pages (free_physical_page p s) = all_pages s \<and> alloc_ok (free_physical_page p s)"
    if own: "p \<in> all_pages s - avail_pages s"
  proof -
    obtain i where i: "p = page_addr i" "i < total_pages s" "\<not> page_free s i"
      using owned_page [OF b own] .
    then show ?thesis
      by (simp add: free_physical_page_addr [OF b] give_page_ok [OF ok] avail_pages_def
          give_page_free [OF b] all_pages_def)
  qed
  show "free_physical_page p s = s" if other: "p \<notin> all_pages s - avail_pages s"
  proof (cases "p \<in> all_pages s")
    case True
    then obtain i where i: "p = page_addr i" "i < total_pages s" by (auto simp: all_pages_def)
    with other True have "page_free s i"
      using page_addr_inject [OF b] by (auto simp: avail_pages_def free_pages_def)
    with i show ?thesis by (simp add: free_physical_page_addr [OF b])
  next
    case False
    then show ?thesis by (simp add: free_physical_page_other [OF b] all_pages_def)
  qed
qed

text \<open>What allocation and messages may change: memory, the page count and the CRT controller.\<close>

definition mm_only :: "'a memory_scheme \<Rightarrow> 'a memory_scheme \<Rightarrow> bool" where
  "mm_only s t \<longleftrightarrow> t = s\<lparr>mem := mem t, used_pages := used_pages t, crtc_index := crtc_index t, crtc_regs := crtc_regs t\<rparr>"

lemma mm_onlyI: "t = s\<lparr>mem := m, used_pages := u, crtc_index := i, crtc_regs := r\<rparr> \<Longrightarrow> mm_only s t"
  by (simp add: mm_only_def)

lemma mm_onlyE:
  assumes "mm_only s t"
  obtains m u i r where "t = s\<lparr>mem := m, used_pages := u, crtc_index := i, crtc_regs := r\<rparr>"
  using assms unfolding mm_only_def by blast

lemma mm_only_refl [simp, intro]: "mm_only s s"
  by (rule mm_onlyI [where m = "mem s" and u = "used_pages s" and i = "crtc_index s" and r = "crtc_regs s"]) simp

lemma mm_only_trans [trans]: "mm_only s t \<Longrightarrow> mm_only t u \<Longrightarrow> mm_only s u"
  by (elim mm_onlyE) (auto intro: mm_onlyI)

lemma screen_only_mm_only: "screen_only s t \<Longrightarrow> mm_only s t"
proof (elim screen_onlyE)
  fix m i r assume "t = s\<lparr>mem := m, crtc_index := i, crtc_regs := r\<rparr>"
  then show "mm_only s t" by (intro mm_onlyI [where m = m and u = "used_pages s" and i = i and r = r]) simp
qed

lemma get_physical_page_some:
  assumes ok: "alloc_ok s" and ne: "avail_pages s \<noteq> {}" and eq: "get_physical_page s = (p, s')"
  shows "p \<in> avail_pages s" "p \<noteq> 0" "p = Min (avail_pages s)" "avail_pages s' = avail_pages s - {p}"
    and "alloc_ok s'" "\<And>a. a \<in> region p 4096 \<Longrightarrow> mem s' a = 0"
    and "agree_off (region p 4096 \<union> bitmap_area) (mem s) (mem s')"
    and "s' = s\<lparr>mem := mem s', used_pages := used_pages s + 1\<rparr>"
proof -
  have b: "alloc_bounds s" using ok by (simp add: alloc_ok_def)
  have fp: "free_pages s \<noteq> {}" using ne by (simp add: avail_pages_def)
  define i where "i = Min (free_pages s)"
  have i: "i < total_pages s" using free_pages_Min(1) [OF fp] by (simp add: i_def free_pages_def)
  have ps: "p = page_addr i" "s' = take_page i s"
    using eq fp by (simp_all add: get_physical_page_eq [OF b] i_def)
  show "p = Min (avail_pages s)" "avail_pages s' = avail_pages s - {p}" "alloc_ok s'"
    using pa.alloc_some [OF ok ne] by (simp_all add: eq)
  show "p \<in> avail_pages s" using pa.alloc_in [OF ok ne] by (simp add: eq)
  show "p \<noteq> 0" using pa.alloc_null_iff [OF ok] ne by (simp add: eq)
  show "\<And>a. a \<in> region p 4096 \<Longrightarrow> mem s' a = 0" by (simp add: ps take_page_mem)
  show "agree_off (region p 4096 \<union> bitmap_area) (mem s) (mem s')"
    using take_page_agree [OF b i] by (simp add: ps)
  show "s' = s\<lparr>mem := mem s', used_pages := used_pages s + 1\<rparr>"
    by (simp add: ps take_page_def memset_def clear_bit_def)
qed

subsection \<open>Reading the memory map\<close>

text \<open>
  The part of an entry above 1 MiB that the kernel counts as usable, and the choice of
  the first entry with the longest such part.
\<close>

definition usable_block :: "MemoryMapEntry \<Rightarrow> (u64 \<times> u64) option" where
  "usable_block e =
     (let b = entry_base e; len = entry_length e
      in if b > 0x100000000 \<or> len > 0x100000000 \<or> entry_type e \<noteq> 1 then None
         else if b \<ge> 0x100000 then Some (b, len)
         else if b + len > 0x100000 then Some (0x100000, b + len - 0x100000)
         else None)"

definition pick_block :: "MemoryMapEntry \<Rightarrow> u64 \<times> u64 \<Rightarrow> u64 \<times> u64" where
  "pick_block e acc =
     (case usable_block e of None \<Rightarrow> acc | Some (b, len) \<Rightarrow> if len > fst acc then (len, b) else acc)"

definition map_bytes :: "u64 set" where
  "map_bytes = region 0x5000 1202"

lemma map_bytes_screen: "map_bytes \<inter> screen_bytes = {}"
  by (auto simp: map_bytes_def region_iff screen_bytes_iff)

lemma entry_addr: "i < 50 \<Longrightarrow> unat (MEMORY_MAP_LOCATION + 2 + 24 * of_nat i + k) = 0x5002 + 24 * i + unat k"
  if "unat k < 24" for k :: u64
proof -
  assume i: "i < 50"
  have "MEMORY_MAP_LOCATION + 2 + 24 * of_nat i + k = of_nat (0x5002 + 24 * i + unat k)" by simp
  then have "unat (MEMORY_MAP_LOCATION + 2 + 24 * of_nat i + k) = (0x5002 + 24 * i + unat k) mod 2 ^ 64"
    by (simp only: unat_of_nat) simp
  with i that show ?thesis by simp
qed

lemma read_u32_agree:
  "agree_off R m m' \<Longrightarrow> region a 4 \<inter> R = {} \<Longrightarrow> read_u32 m' a = read_u32 m a"
  by (rule read_u32_cong) (auto simp: agree_off_def)

lemma read_entry_agree:
  assumes "agree_off screen_bytes m m'" "i < 50"
  shows "read_entry m' i = read_entry m i"
proof -
  define a :: u64 where "a = MEMORY_MAP_LOCATION + 2 + 24 * of_nat i"
  have "region (a + k) 4 \<inter> screen_bytes = {}" if "unat k < 21" for k
    using entry_addr [of k i] assms(2) that by (auto simp: a_def region_iff screen_bytes_iff)
  from read_u32_agree [OF assms(1) this] have r: "unat k < 21 \<Longrightarrow> read_u32 m' (a + k) = read_u32 m (a + k)" for k .
  from r [of 0] have "read_u32 m' a = read_u32 m a" by simp
  with r show ?thesis
    unfolding read_entry_def Let_def a_def [symmetric] by simp
qed

lemma new_block_fmt: "fmt_ok ''New largest block: 0x%x - 0x%x (%d MB)'' [VInt a, VInt b, VInt c]"
  by simp

lemma parse_entries_picks:
  assumes "cursor_ok s" "memory_start s = 0x100000" "i + k \<le> 50"
  shows "\<exists>s' u. parse_entries k i lsize lbase usable s =
      Some (fst (fold pick_block (map (read_entry (mem s)) [i..<i + k]) (lsize, lbase)),
            snd (fold pick_block (map (read_entry (mem s)) [i..<i + k]) (lsize, lbase)), u, s')
    \<and> screen_only s s' \<and> cursor_ok s'"
  using assms
proof (induction k arbitrary: i lsize lbase usable s)
  case 0
  then show ?case by auto
next
  case (Suc k)
  let ?e = "read_entry (mem s) i"
  have upt: "[i..<i + Suc k] = i # [i + 1..<i + 1 + k]" by (simp add: upt_conv_Cons)
  have skip: ?case if "\<exists>u. parse_entries (Suc k) i lsize lbase usable s =
      parse_entries k (i + 1) (fst (pick_block ?e (lsize, lbase))) (snd (pick_block ?e (lsize, lbase))) u s"
    using that Suc.IH [OF Suc.prems(1,2), of "i + 1" "fst (pick_block ?e (lsize, lbase))"
        "snd (pick_block ?e (lsize, lbase))"] Suc.prems(3)
    unfolding upt by (auto simp del: parse_entries.simps upt_Suc)
  show ?case
  proof (cases "entry_base ?e \<le> 0x100000000 \<and> entry_length ?e \<le> 0x100000000 \<and> entry_type ?e = 1
      \<and> entry_base ?e \<ge> 0x100000 \<and> entry_length ?e > lsize")
    case False
    then show ?thesis
      using Suc.prems(2)
      by (intro skip) (auto simp: pick_block_def usable_block_def Let_def)
  next
    case True
    let ?args = "[VInt (entry_base ?e), VInt (entry_base ?e + entry_length ?e),
      VInt (entry_length ?e div (1024 * 1024))]"
    obtain t where t: "DEBUGER LIGHT_GREEN ''New largest block: 0x%x - 0x%x (%d MB)'' ?args s = Some t"
      "cursor_ok t" "screen_only s t"
      using DEBUGER_ok [OF new_block_fmt Suc.prems(1)] by blast
    have pick: "pick_block ?e (lsize, lbase) = (entry_length ?e, entry_base ?e)"
      using True by (auto simp: pick_block_def usable_block_def Let_def)
    have st: "memory_start t = 0x100000" using screen_only_memory [OF t(3)] Suc.prems(2) by simp
    have same: "map (read_entry (mem t)) [i + 1..<i + 1 + k] = map (read_entry (mem s)) [i + 1..<i + 1 + k]"
      using read_entry_agree [OF screen_only_mem [OF t(3)]] Suc.prems(3) by auto
    have "parse_entries (Suc k) i lsize lbase usable s =
        parse_entries k (i + 1) (entry_length ?e) (entry_base ?e) (usable + 1) t"
      using True t(1) Suc.prems(2) by (auto simp: Let_def)
    with Suc.IH [OF t(2) st, of "i + 1" "entry_length ?e" "entry_base ?e" "usable + 1"] Suc.prems(3)
    show ?thesis
      unfolding upt same
      by (auto simp: pick intro: screen_only_trans [OF t(3)] simp del: parse_entries.simps upt_Suc)
  qed
qed

lemma pick_block_facts:
  assumes "usable_block e = Some (b, len)"
  shows "0x100000 \<le> unat b" "unat b \<le> 0x100000000" "unat len \<le> 0x100000000" "unat (b + len) = unat b + unat len"
proof -
  have *: "0x100000 \<le> unat b \<and> unat b \<le> 0x100000000 \<and> unat len \<le> 0x100000000"
  proof -
    have "unat (entry_base e + entry_length e - 0x100000) \<le> 0x100000000"
      if "entry_base e < 0x100000" "entry_length e \<le> 0x100000000" "entry_base e + entry_length e > 0x100000"
    proof -
      have "unat (entry_base e + entry_length e) = unat (entry_base e) + unat (entry_length e)"
        using that by (simp add: unat_word_ariths word_less_nat_alt word_le_nat_alt)
      with that show ?thesis by (simp add: unat_sub word_less_nat_alt word_le_nat_alt)
    qed
    then show ?thesis
      using assms by (auto simp: usable_block_def Let_def word_le_nat_alt word_less_nat_alt not_less split: if_splits)
  qed
  then show "0x100000 \<le> unat b" "unat b \<le> 0x100000000" "unat len \<le> 0x100000000" by auto
  show "unat (b + len) = unat b + unat len" using * by (simp add: unat_word_ariths)
qed

text \<open>The pick is the longest usable block, or the start value when there is none.\<close>

lemma pick_blocks:
  defines "r es acc \<equiv> fold pick_block es acc"
  shows "fst acc \<le> fst (r es acc)"
    and "e \<in> set es \<Longrightarrow> usable_block e = Some (b, len) \<Longrightarrow> len \<le> fst (r es acc)"
    and "r es acc = acc \<or> (\<exists>e \<in> set es. usable_block e = Some (snd (r es acc), fst (r es acc)))"
proof -
  show mono: "fst acc \<le> fst (r es acc)" for es acc
    unfolding r_def
  proof (induction es arbitrary: acc)
    case (Cons e es)
    have "fst acc \<le> fst (pick_block e acc)"
      by (auto simp: pick_block_def split: option.splits)
    with Cons [of "pick_block e acc"] show ?case by simp
  qed simp
  show "e \<in> set es \<Longrightarrow> usable_block e = Some (b, len) \<Longrightarrow> len \<le> fst (r es acc)"
    unfolding r_def
  proof (induction es arbitrary: acc)
    case (Cons f es)
    show ?case
    proof (cases "e = f")
      case True
      then have "len \<le> fst (pick_block f acc)"
        using Cons.prems(2) by (auto simp: pick_block_def)
      also have "\<dots> \<le> fst (fold pick_block es (pick_block f acc))" using mono by (simp add: r_def)
      finally show ?thesis by simp
    qed (use Cons in auto)
  qed simp
  show "r es acc = acc \<or> (\<exists>e \<in> set es. usable_block e = Some (snd (r es acc), fst (r es acc)))"
    unfolding r_def
  proof (induction es arbitrary: acc)
    case (Cons e es)
    have "pick_block e acc = acc \<or> usable_block e = Some (snd (pick_block e acc), fst (pick_block e acc))"
      by (auto simp: pick_block_def split: option.splits)
    then show ?case
    proof (cases "fold pick_block es (pick_block e acc) = pick_block e acc")
      case True
      with \<open>pick_block e acc = acc \<or> _\<close> show ?thesis by auto
    next
      case False
      with Cons [of "pick_block e acc"] show ?thesis by auto
    qed
  qed simp
qed

text \<open>The end of memory that the memory map promises, 512 MiB when it promises none.\<close>

definition detected_end :: "memory_bytes \<Rightarrow> u64" where
  "detected_end m =
     (let n = read_u16 m MEMORY_MAP_LOCATION;
          (size, base) = fold pick_block (map (read_entry m) [0..<unat n]) (0, 0x100000)
      in if n = 0 \<or> n > 50 \<or> size = 0 then 0x20000000 else min (base + size) MAX_MEMORY)"

lemma detected_end_bounds: "0x100000 \<le> detected_end m \<and> detected_end m \<le> MAX_MEMORY"
proof -
  define n where "n = read_u16 m MEMORY_MAP_LOCATION"
  define r where "r = fold pick_block (map (read_entry m) [0..<unat n]) (0, 0x100000)"
  have d: "detected_end m = (if n = 0 \<or> n > 50 \<or> fst r = 0 then 0x20000000 else min (snd r + fst r) MAX_MEMORY)"
    unfolding detected_end_def n_def [symmetric] Let_def r_def [symmetric] by (simp add: case_prod_beta)
  show ?thesis
  proof (cases "fst r = 0")
    case False
    from pick_blocks(3) [of "map (read_entry m) [0..<unat n]" "(0, 0x100000)"] False
    obtain e where "usable_block e = Some (snd r, fst r)" unfolding r_def by auto
    from pick_block_facts [OF this] have "0x100000 \<le> snd r + fst r"
      by (simp add: word_le_nat_alt)
    with d show ?thesis by (auto simp: min_def)
  qed (simp add: d)
qed

lemma screen_only_memory_end: "screen_only s t \<Longrightarrow> screen_only (s\<lparr>memory_end := x\<rparr>) (t\<lparr>memory_end := x\<rparr>)"
proof -
  assume "screen_only s t"
  then obtain m i r where t: "t = s\<lparr>mem := m, crtc_index := i, crtc_regs := r\<rparr>"
    and m: "agree_off screen_bytes (mem s) m"
    by (rule screen_onlyE)
  show ?thesis
    by (rule screen_onlyI [where m = m and i = i and r = r]) (simp_all add: t m)
qed

lemma cursor_ok_memory [simp]:
  "cursor_ok (s\<lparr>memory_end := x\<rparr>) = cursor_ok s" "cursor_ok (s\<lparr>total_pages := x\<rparr>) = cursor_ok s"
  "cursor_ok (s\<lparr>memory_map := x\<rparr>) = cursor_ok s" "cursor_ok (s\<lparr>mem := m\<rparr>) = cursor_ok s"
  by (simp_all add: cursor_ok_def cursor_def)

lemma safe_parse_memory_map_result:
  assumes c: "cursor_ok s" and ms: "memory_start s = 0x100000"
  shows "\<exists>rc s'. safe_parse_memory_map s = Some (rc, s') \<and> cursor_ok s'
    \<and> screen_only (s\<lparr>memory_end := detected_end (mem s)\<rparr>)
        (if rc \<noteq> 0 then s'\<lparr>memory_end := 0x20000000\<rparr> else s')"
proof -
  define n where "n = read_u16 (mem s) MEMORY_MAP_LOCATION"
  have print: "\<exists>t. DEBUGER col msg args s = Some t \<and> cursor_ok t
      \<and> screen_only (s\<lparr>memory_end := x\<rparr>) (t\<lparr>memory_end := x\<rparr>)" if "fmt_ok msg args" for col msg args x
    using DEBUGER_ok [OF that c] screen_only_memory_end by blast
  show ?thesis
  proof (cases "n = 0 \<or> n > 50")
    case True
    then have d: "detected_end (mem s) = 0x20000000" by (auto simp: detected_end_def n_def Let_def case_prod_beta)
    have m: "fmt_ok ''Invalid memory map entry count: %d'' [VInt (ucast n)]"
      "fmt_ok ''No valid memory map entries, using fallback'' []" by simp_all
    from True print [OF m(1), of LIGHT_RED "0x20000000"] print [OF m(2), of LIGHT_RED "0x20000000"]
    have "\<exists>s'. safe_parse_memory_map s = Some (-1, s') \<and> cursor_ok s'
        \<and> screen_only (s\<lparr>memory_end := 0x20000000\<rparr>) (s'\<lparr>memory_end := 0x20000000\<rparr>)"
      unfolding safe_parse_memory_map_def n_def [symmetric] by (auto simp: Let_def)
    then show ?thesis unfolding d by (intro exI [of _ "-1"]) simp
  next
    case False
    define r where "r = fold pick_block (map (read_entry (mem s)) [0..<unat n]) (0, 0x100000)"
    have n50: "unat n \<le> 50" and n100: "\<not> n > 100" using False by (auto simp: word_less_nat_alt not_less)
    have d: "detected_end (mem s) = (if fst r = 0 then 0x20000000 else min (snd r + fst r) MAX_MEMORY)"
      using False unfolding detected_end_def n_def [symmetric] Let_def r_def [symmetric] by (simp add: case_prod_beta)
    obtain u t where t: "parse_entries (unat n) 0 0 (memory_start s) 0 s = Some (fst r, snd r, u, t)"
      "screen_only s t" "cursor_ok t"
      using parse_entries_picks [OF c ms, of 0 "unat n" 0 "0x100000" 0] n50 unfolding r_def ms by auto
    have eq: "safe_parse_memory_map s =
       (if fst r > 0 then
          (let t = t\<lparr>memory_end := snd r + fst r\<rparr>
           in if memory_end t > MAX_MEMORY then
                do { t \<leftarrow> DEBUGER LIGHT_YELLOW ''Limited to 4GB for safety'' [] (t\<lparr>memory_end := MAX_MEMORY\<rparr>);
                     Some (0, t) }
              else Some (0, t))
        else Some (-1, t))"
      using False n100 t(1) unfolding safe_parse_memory_map_def n_def [symmetric] by (simp add: Let_def)
    have lim: "\<exists>t'. DEBUGER LIGHT_YELLOW ''Limited to 4GB for safety'' [] (t\<lparr>memory_end := MAX_MEMORY\<rparr>) = Some t'
        \<and> cursor_ok t' \<and> screen_only (s\<lparr>memory_end := MAX_MEMORY\<rparr>) t'"
      using DEBUGER_ok [of "''Limited to 4GB for safety''" "[]" "t\<lparr>memory_end := MAX_MEMORY\<rparr>" LIGHT_YELLOW] t(3)
        screen_only_trans [OF screen_only_memory_end [OF t(2)]] by auto
    show ?thesis
    proof (cases "fst r = 0")
      case True
      then show ?thesis using t screen_only_memory_end [OF t(2)] by (simp add: eq d)
    next
      case nz: False
      then have pos: "fst r > 0" by (simp add: word_gt_0)
      show ?thesis
      proof (cases "snd r + fst r > MAX_MEMORY")
        case True
        then have "detected_end (mem s) = MAX_MEMORY" using nz by (auto simp: d min_def)
        with True lim pos show ?thesis
          unfolding eq by (intro exI [of _ 0]) (auto simp: Let_def)
      next
        case False
        then have "detected_end (mem s) = snd r + fst r" using nz by (auto simp: d min_def)
        with False pos t(3) screen_only_memory_end [OF t(2)] show ?thesis
          unfolding eq by (intro exI [of _ 0]) (simp add: Let_def)
      qed
    qed
  qed
qed

subsection \<open>Start of the allocator\<close>

lemma fill_loop_result:
  "fill_loop i n s = s\<lparr>mem := (\<lambda>a. if i \<le> a - memory_map s \<and> a - memory_map s < n then 0xFF else mem s a)\<rparr>"
proof (induction i n s rule: fill_loop.induct)
  case (1 i n s)
  show ?case
  proof (cases "i < n")
    case True
    have le: "i \<le> w \<longleftrightarrow> w = i \<or> i + 1 \<le> w" for w
      using True unat_plus_one [OF True] by (auto simp: word_le_nat_alt word_unat_eq_iff)
    have eq: "fill_loop i n s = fill_loop (i + 1) n (s\<lparr>mem := (mem s)(memory_map s + i := 0xFF)\<rparr>)"
      using True by (subst fill_loop.simps) simp
    have "(\<lambda>a. if i + 1 \<le> a - memory_map s \<and> a - memory_map s < n then 0xFF
          else ((mem s)(memory_map s + i := 0xFF)) a)
        = (\<lambda>a. if i \<le> a - memory_map s \<and> a - memory_map s < n then 0xFF else mem s a)"
      using True by (auto simp: fun_eq_iff le algebra_simps)
    then show ?thesis using "1.IH" [OF True] by (simp add: eq cong: if_cong)
  next
    case False
    then have "(\<lambda>a. if i \<le> a - memory_map s \<and> a - memory_map s < n then 0xFF else mem s a) = mem s"
      by (auto simp: fun_eq_iff)
    with False show ?thesis by (subst fill_loop.simps) simp
  qed
qed

lemma mark_low_range:
  "memory_start s = 0x100000 \<Longrightarrow> end0 \<le> 0x100000 \<Longrightarrow> mark_memory_range_used start end0 s = s"
  by (auto simp: mark_memory_range_used_def Let_def not_le not_less)

lemma div8_le: "unat (x :: u64) \<le> 0xFFF00 \<Longrightarrow> unat (calculate_bitmap_size x) = (unat x + 7) div 8"
  by (simp add: calculate_bitmap_size_def unat_div_distrib unat_word_ariths)

text \<open>
  After \<open>Init_Memory\<close> the static variables describe the detected memory, every page is
  free, and nothing but the statics, the bitmap and the screen has changed.
\<close>

definition fresh_bitmap :: "'a memory_scheme \<Rightarrow> 'a memory_scheme" where
  "fresh_bitmap s =
     (let n = (detected_end (mem s) - 0x100000) div PAGE_SIZE
      in s\<lparr>memory_end := detected_end (mem s), total_pages := n, memory_map := 0x60000,
           mem := (\<lambda>a. if a - 0x60000 < calculate_bitmap_size n then 0xFF else mem s a)\<rparr>)"

lemma fresh_bitmap_alloc_ok:
  assumes "memory_start s = 0x100000" "used_pages s = 0"
  shows "alloc_ok (fresh_bitmap s) \<and> free_pages (fresh_bitmap s) = {i. i < total_pages (fresh_bitmap s)}"
proof -
  let ?t = "fresh_bitmap s"
  define n where "n = (detected_end (mem s) - 0x100000) div PAGE_SIZE"
  have t: "total_pages ?t = n" "memory_map ?t = 0x60000" "memory_end ?t = detected_end (mem s)"
    "memory_start ?t = 0x100000" "used_pages ?t = 0"
    using assms by (simp_all add: fresh_bitmap_def Let_def n_def)
  have b: "alloc_bounds ?t"
    unfolding alloc_bounds_def using detected_end_bounds [of "mem s"] t by (simp add: n_def)
  have n: "unat n \<le> 0xFFF00" using alloc_bounds_total [OF b] t(1) by simp
  have "page_free ?t i" if "i < n" for i
  proof -
    have "unat (i div 8) < (unat n + 7) div 8"
      using that by (simp add: unat_div_distrib word_less_nat_alt)
    then have "i div 8 < calculate_bitmap_size n" by (simp add: word_less_nat_alt div8_le [OF n])
    then have "mem ?t (map_byte ?t i) = 0xFF"
      by (simp add: map_byte_def t(2)) (simp add: fresh_bitmap_def Let_def n_def)
    moreover have "unat (i mod 8) < 8" by (simp add: unat_mod_distrib)
    ultimately show ?thesis using bit_FF by (simp only: page_free_bit)
  qed
  then have fp: "free_pages ?t = {i. i < n}" by (auto simp: free_pages_def t(1))
  have "card {i. i < n} = unat n" by (rule card_word_less)
  with fp b t show ?thesis by (simp add: alloc_ok_def)
qed

lemma fresh_bitmap_agree:
  assumes "memory_start s = 0x100000" "used_pages s = 0"
  shows "agree_off (bitmap_area \<union> screen_bytes) (mem s) (mem (fresh_bitmap s))"
proof -
  define n where "n = (detected_end (mem s) - 0x100000) div PAGE_SIZE"
  have b: "alloc_bounds (fresh_bitmap s)"
    using fresh_bitmap_alloc_ok [OF assms] by (simp add: alloc_ok_def)
  have "total_pages (fresh_bitmap s) = n" by (simp add: fresh_bitmap_def Let_def n_def)
  with alloc_bounds_total [OF b] have "unat n \<le> 0xFFF00" by simp
  then have "unat (calculate_bitmap_size n) < 0x20000" by (simp add: div8_le)
  then show ?thesis
    by (auto simp: agree_off_def fresh_bitmap_def Let_def n_def bitmap_area_def region_def word_less_nat_alt)
qed

lemma Init_Memory_result:
  assumes c: "cursor_ok s" and ms: "memory_start s = 0x100000" and u: "used_pages s = 0"
  shows "\<exists>s'. Init_Memory s = Some s' \<and> cursor_ok s' \<and> screen_only (fresh_bitmap s) s'"
proof -
  obtain rc t where t: "safe_parse_memory_map s = Some (rc, t)" "cursor_ok t"
    "screen_only (s\<lparr>memory_end := detected_end (mem s)\<rparr>) (if rc \<noteq> 0 then t\<lparr>memory_end := 0x20000000\<rparr> else t)"
    using safe_parse_memory_map_result [OF c ms] by blast
  define t1 where "t1 = (if rc \<noteq> 0 then t\<lparr>memory_end := 0x20000000\<rparr> else t)"
  from t(3) obtain m i r where t1: "t1 = s\<lparr>memory_end := detected_end (mem s), mem := m, crtc_index := i, crtc_regs := r\<rparr>"
    and m: "agree_off screen_bytes (mem s) m"
    unfolding t1_def [symmetric] by (rule screen_onlyE) simp
  define n where "n = (detected_end (mem s) - 0x100000) div PAGE_SIZE"
  define t2 where "t2 = fill_loop 0 (calculate_bitmap_size n) (t1\<lparr>total_pages := n, memory_map := 0x60000\<rparr>)"
  have c2: "cursor_ok t2"
    using t(2) by (simp add: t2_def fill_loop_result t1_def)
  have bm: "unat (calculate_bitmap_size n) \<le> 0x20000"
  proof -
    have "unat n \<le> 0xFFF00"
      using detected_end_bounds [of "mem s"]
        div_le_mono [of "unat (detected_end (mem s)) - 0x100000" "0xFFF00000" 4096]
      by (auto simp: n_def unat_div_distrib unat_sub word_le_nat_alt)
    then show ?thesis by (simp add: div8_le)
  qed
  have bm2: "0x60000 + calculate_bitmap_size n \<le> 0x100000"
    using bm by (simp add: word_le_nat_alt unat_word_ariths)
  have st: "memory_start t2 = 0x100000" using ms by (simp add: t2_def fill_loop_result t1)
  have t2_eq: "fill_loop 0 (calculate_bitmap_size n) (s\<lparr>memory_end := detected_end (mem s), mem := m,
      crtc_index := i, crtc_regs := r, total_pages := n, memory_map := 0x60000\<rparr>) = t2"
    by (simp add: t2_def t1)
  have eq: "Init_Memory s = DEBUGER LIGHT_RED ''Memory initialized: %d MB, %d free pages''
      [VInt ((memory_end t2 - memory_start t2) div (1024 * 1024)), VInt (total_pages t2 - used_pages t2)] t2"
    using ms bm2 st t2_eq unfolding Init_Memory_def t(1)
    by (simp add: Let_def t1_def [symmetric]) (simp add: t1 n_def [symmetric] mark_low_range)
  have fmt: "fmt_ok ''Memory initialized: %d MB, %d free pages'' [VInt a, VInt b]" for a b by simp
  have "agree_off screen_bytes (mem (fresh_bitmap s)) (mem t2)"
    using m by (auto simp: agree_off_def t2_def fill_loop_result t1 fresh_bitmap_def Let_def n_def)
  then have so: "screen_only (fresh_bitmap s) t2"
    by (intro screen_onlyI [where m = "mem t2" and i = i and r = r])
       (simp_all add: t2_def fill_loop_result t1 fresh_bitmap_def Let_def n_def)
  show ?thesis
    unfolding eq using DEBUGER_ok [OF fmt c2] screen_only_trans [OF so] by blast
qed

subsection \<open>Runs of free pages\<close>

text \<open>\<open>count\<close> free pages in a row from page \<open>i\<close>, all below \<^verbatim>\<open>total_pages\<close>.\<close>

definition free_run :: "'a memory_scheme \<Rightarrow> nat \<Rightarrow> nat \<Rightarrow> bool" where
  "free_run s count i \<longleftrightarrow> i + count \<le> unat (total_pages s) \<and> (\<forall>j<count. page_free s (of_nat (i + j)))"

definition first_run :: "'a memory_scheme \<Rightarrow> nat \<Rightarrow> u64" where
  "first_run s count = (if \<exists>i. free_run s count i then of_nat (LEAST i. free_run s count i) else 0)"

lemma first_runI:
  "free_run s count i \<Longrightarrow> (\<And>k. k < i \<Longrightarrow> \<not> free_run s count k) \<Longrightarrow> first_run s count = of_nat i"
proof -
  assume run: "free_run s count i" and first: "\<And>k. k < i \<Longrightarrow> \<not> free_run s count k"
  have "(LEAST i. free_run s count i) = i"
    using run first by (intro Least_equality) (auto simp: not_less [symmetric])
  with run show ?thesis by (auto simp: first_run_def)
qed

lemma free_runD: "free_run s count k \<Longrightarrow> k \<le> j \<Longrightarrow> j < k + count \<Longrightarrow> page_free s (of_nat j)"
  unfolding free_run_def by (metis le_add_diff_inverse nat_add_left_cancel_less)

lemma contiguous_loop_first:
  assumes "unat c < unat count" "unat c \<le> unat i" "\<And>j. unat i - unat c \<le> j \<Longrightarrow> j < unat i \<Longrightarrow> page_free s (of_nat j)"
    and "\<And>k. k < unat i - unat c \<Longrightarrow> \<not> free_run s (unat count) k"
    and "c \<noteq> 0 \<Longrightarrow> st = i - c"
  shows "contiguous_loop count i c st s = first_run s (unat count)"
  using assms
proof (induction count i c st s rule: contiguous_loop.induct)
  case (1 count i c st s)
  let ?st = "if c = 0 then i else st"
  have st: "?st = i - c" using "1.prems"(5) by simp
  have c1: "unat (c + 1) = Suc (unat c)"
    using "1.prems"(1) by (intro unat_plus_one [of c count]) (simp add: word_less_nat_alt)
  show ?case
  proof (cases "i < total_pages s")
    case lt: True
    have i1: "unat (i + 1) = Suc (unat i)" using lt by (rule unat_plus_one)
    show ?thesis
    proof (cases "page_free s i")
      case True
      have run: "page_free s (of_nat j)" if "unat i - unat c \<le> j" "j < Suc (unat i)" for j
        using that "1.prems"(3) [of j] True by (cases "j = unat i") auto
      show ?thesis
      proof (cases "c + 1 \<ge> count")
        case full: True
        have cnt: "unat count = Suc (unat c)" using full c1 "1.prems"(1) by (simp add: word_le_nat_alt)
        have "page_free s (of_nat (unat i - unat c + j))" if "j < Suc (unat c)" for j
          using that "1.prems"(2) by (intro run) auto
        then have "free_run s (unat count) (unat i - unat c)"
          using lt "1.prems"(2) unfolding free_run_def cnt word_less_nat_alt by (auto simp del: of_nat_add)
        then have "first_run s (unat count) = of_nat (unat i - unat c)"
          by (rule first_runI) (use "1.prems"(4) in blast)
        also have "\<dots> = i - c" using "1.prems"(2) by (simp add: of_nat_diff)
        finally show ?thesis
          using lt True full st by (subst contiguous_loop.simps) (simp add: Let_def)
      next
        case False
        have "contiguous_loop count (i + 1) (c + 1) ?st s = first_run s (unat count)"
        proof (rule "1.IH"(1) [OF lt True refl refl False])
          show "unat (c + 1) < unat count" using False by (simp add: word_le_nat_alt)
          show "unat (c + 1) \<le> unat (i + 1)" using c1 i1 "1.prems"(2) by simp
          show "page_free s (of_nat j)" if "unat (i + 1) - unat (c + 1) \<le> j" "j < unat (i + 1)" for j
            using that run c1 i1 by simp
          show "\<not> free_run s (unat count) k" if "k < unat (i + 1) - unat (c + 1)" for k
            using that "1.prems"(4) c1 i1 by simp
          show "?st = i + 1 - (c + 1)" using st by simp
        qed
        then show ?thesis using lt True False by (subst contiguous_loop.simps) (simp add: Let_def)
      qed
    next
      case False
      have "contiguous_loop count (i + 1) 0 st s = first_run s (unat count)"
      proof (rule "1.IH"(2) [OF lt False])
        show "unat 0 < unat count" using "1.prems"(1) by simp
        show "\<not> free_run s (unat count) k" if "k < unat (i + 1) - unat 0" for k
        proof
          assume "free_run s (unat count) k"
          with "1.prems"(4) [of k] have "unat i - unat c \<le> k" by (meson not_le)
          with that i1 "1.prems"(1,2) have "page_free s (of_nat (unat i))"
            by (intro free_runD [OF \<open>free_run s (unat count) k\<close>]) auto
          with False show False by simp
        qed
      qed (simp_all add: i1)
      then show ?thesis using lt False by (subst contiguous_loop.simps) simp
    qed
  next
    case False
    have "\<not> free_run s (unat count) k" for k
    proof
      assume run: "free_run s (unat count) k"
      with "1.prems"(4) [of k] have "unat i - unat c \<le> k" by (meson not_le)
      moreover have "k + unat count \<le> unat (total_pages s)" using run by (simp add: free_run_def)
      ultimately show False using False "1.prems"(1,2) unfolding word_less_nat_alt by linarith
    qed
    with False show ?thesis by (subst contiguous_loop.simps) (simp add: first_run_def)
  qed
qed

end
