(* ===== verification/Memory_Properties.thy ===== *)
theory Memory_Properties
  imports Phys_Memory
begin

text \<open>
  What the physical page allocator promises: its start from any memory map, allocation,
  release, disjointness of the pages in use, the search for contiguous pages and the
  statistics. The witnesses run on the state the kernel has after \<open>Init_Memory\<close>.
\<close>

text \<open>The static variables of the file as the kernel starts with them.\<close>

definition memory_statics :: "'a \<Rightarrow> 'a memory_scheme" where
  "memory_statics x = vga_statics (memory_ext 0 0 0 0x100000 0x20000000 x)"

lemma memory_statics_simps [simp]:
  "memory_map (memory_statics x) = 0" "total_pages (memory_statics x) = 0" "used_pages (memory_statics x) = 0"
  "memory_start (memory_statics x) = 0x100000" "memory_end (memory_statics x) = 0x20000000"
  "cursor_ok (memory_statics x)" "mem (memory_statics x) = (\<lambda>_. 0)"
  by (simp_all add: memory_statics_def vga_statics_def cleared_def cursor_ok_def cursor_def)

text \<open>The state right after \<open>Init_Memory\<close> on a machine without a memory map: 512 MiB.\<close>

definition booted_memory :: "'a \<Rightarrow> 'a memory_scheme" where
  "booted_memory x = fresh_bitmap (memory_statics x)"

lemma booted_memory_simps [simp]:
  "memory_end (booted_memory x) = 0x20000000" "total_pages (booted_memory x) = 0x1FF00"
  "alloc_ok (booted_memory x)" "free_pages (booted_memory x) = {i. i < 0x1FF00}"
  "cursor_ok (booted_memory x)" "memory_map (booted_memory x) = 0x60000"
proof -
  have d: "detected_end (mem (memory_statics x)) = 0x20000000"
    by (simp add: detected_end_def read_u16_def case_prod_beta)
  then show "memory_end (booted_memory x) = 0x20000000" "memory_map (booted_memory x) = 0x60000"
    and n: "total_pages (booted_memory x) = 0x1FF00"
    by (simp_all add: booted_memory_def fresh_bitmap_def Let_def)
  show "alloc_ok (booted_memory x)" "free_pages (booted_memory x) = {i. i < 0x1FF00}"
    using fresh_bitmap_alloc_ok [of "memory_statics x"] n by (simp_all add: booted_memory_def)
  show "cursor_ok (booted_memory x)"
    by (simp add: booted_memory_def fresh_bitmap_def Let_def cursor_ok_def cursor_def)
       (simp add: memory_statics_def vga_statics_def cleared_def)
qed

lemma booted_memory_avail: "avail_pages (booted_memory x) \<noteq> {}"
proof
  assume none: "avail_pages (booted_memory x) = {}"
  have "page_addr 0 \<in> avail_pages (booted_memory x)" by (simp add: avail_pages_def)
  with none show False by simp
qed

text \<open>
  C1: \<open>Init_Memory\<close> returns for every content of the boot loader's memory map. It sets
  \<^verbatim>\<open>memory_end\<close> from the longest usable block above 1 MiB (or to 512 MiB, and never above
  4 GiB), leaves every page free with a consistent page count, and writes only to the
  bitmap and the screen.
\<close>

theorem Init_Memory_correct:
  assumes "cursor_ok s" "memory_start s = 0x100000" "used_pages s = 0"
  shows "\<exists>s'. Init_Memory s = Some s' \<and> alloc_ok s' \<and> free_pages s' = {i. i < total_pages s'}
    \<and> memory_end s' = detected_end (mem s) \<and> cursor_ok s'
    \<and> agree_off (bitmap_area \<union> screen_bytes) (mem s) (mem s')"
proof -
  obtain s' where s': "Init_Memory s = Some s'" "cursor_ok s'" "screen_only (fresh_bitmap s) s'"
    using Init_Memory_result [OF assms] by blast
  note ok = fresh_bitmap_alloc_ok [OF assms(2,3)]
  have "alloc_ok s' \<and> free_pages s' = {i. i < total_pages s'}"
    using screen_only_alloc_ok [OF s'(3)] screen_only_memory [OF s'(3)] ok by simp
  moreover have "memory_end s' = detected_end (mem s)"
    using screen_only_memory [OF s'(3)] by (simp add: fresh_bitmap_def Let_def)
  ultimately show ?thesis
    using s' agree_off_trans [OF fresh_bitmap_agree [OF assms(2,3)]]
      agree_off_mono [OF screen_only_mem [OF s'(3)], of "bitmap_area \<union> screen_bytes"] by auto
qed

theorem Init_Memory_correct_witness:
  "\<exists>s'. Init_Memory (memory_statics ()) = Some s' \<and> alloc_ok s' \<and> free_pages s' = {i. i < total_pages s'}
    \<and> memory_end s' = detected_end (mem (memory_statics ())) \<and> cursor_ok s'
    \<and> agree_off (bitmap_area \<union> screen_bytes) (mem (memory_statics ())) (mem s')"
  by (rule Init_Memory_correct) simp_all

text \<open>
  C9: \<open>get_physical_page\<close> hands out the lowest free page: it takes exactly that page from
  the free pages, counts it as used, returns it filled with zeros, changes nothing
  outside the page and the bitmap, and keeps the allocator consistent. When no page is
  free it returns null and changes nothing.
\<close>

theorem get_physical_page_correct:
  assumes ok: "alloc_ok s" and eq: "get_physical_page s = (p, s')"
  shows "if avail_pages s = {} then p = 0 \<and> s' = s
    else p = Min (avail_pages s) \<and> avail_pages s' = avail_pages s - {p} \<and> used_pages s' = used_pages s + 1
      \<and> (\<forall>a \<in> region p 4096. mem s' a = 0) \<and> agree_off (region p 4096 \<union> bitmap_area) (mem s) (mem s')
      \<and> alloc_ok s'"
proof (cases "avail_pages s = {}")
  case True
  then show ?thesis using pa.alloc_none [OF ok] eq by simp
next
  case False
  note some = get_physical_page_some [OF ok False eq]
  have "used_pages s' = used_pages s + 1" by (subst some(8)) simp
  with False some(3-7) show ?thesis by simp
qed

theorem get_physical_page_correct_witness:
  "\<exists>p s'. get_physical_page (booted_memory ()) = (p, s') \<and> (\<forall>a \<in> region p 4096. mem s' a = 0) \<and> alloc_ok s'"
proof -
  obtain p s' where eq: "get_physical_page (booted_memory ()) = (p, s')" by (rule prod.exhaust)
  then have "(\<forall>a \<in> region p 4096. mem s' a = 0) \<and> alloc_ok s'"
    using get_physical_page_correct [OF booted_memory_simps(3) eq]
    unfolding if_not_P [OF booted_memory_avail] by (elim conjE) (intro conjI)
  with eq show ?thesis by (intro exI [of _ p] exI [of _ s'] conjI) simp_all
qed

text \<open>
  C11: \<open>free_physical_page\<close> gives back a page that is in use: the page becomes free, the
  count of used pages drops by one, the page is cleared and nothing outside it and the
  bitmap changes. Every other argument (null, unaligned, outside the managed range, or a
  page that is already free) is ignored, so a double free is harmless.
\<close>

theorem free_physical_page_correct:
  assumes "alloc_ok s"
  shows "(if p \<in> all_pages s - avail_pages s then
      avail_pages (free_physical_page p s) = insert p (avail_pages s)
      \<and> used_pages (free_physical_page p s) = used_pages s - 1 \<and> alloc_ok (free_physical_page p s)
      \<and> (\<forall>a \<in> region p 4096. mem (free_physical_page p s) a = 0)
      \<and> agree_off (region p 4096 \<union> bitmap_area) (mem s) (mem (free_physical_page p s))
    else free_physical_page p s = s)
    \<and> free_physical_page p (free_physical_page p s) = free_physical_page p s"
proof (cases "p \<in> all_pages s - avail_pages s")
  case False
  then show ?thesis using pa.release_other [OF assms False] by (simp only: if_False)
next
  case own: True
  have b: "alloc_bounds s" using assms by (simp add: alloc_ok_def)
  obtain i where i: "p = page_addr i" "i < total_pages s" "\<not> page_free s i"
    using owned_page [OF b own] .
  have eq: "free_physical_page p s = give_page i s"
    using i by (simp add: free_physical_page_addr [OF b i(2)])
  show ?thesis
    unfolding if_P [OF own] eq
    using pa.release_page [OF assms own, unfolded eq] give_page_agree [OF b i(2)]
      pa.double_release [OF assms, of p, unfolded eq]
    by (simp add: i(1) give_page_mem)
qed

theorem free_physical_page_correct_witness:
  "\<exists>(s :: memory) p. alloc_ok s \<and> p \<in> all_pages s - avail_pages s
    \<and> avail_pages (free_physical_page p s) = insert p (avail_pages s)
    \<and> free_physical_page p (free_physical_page p s) = free_physical_page p s
    \<and> free_physical_page 0 s = s"
proof -
  let ?s = "snd (get_physical_page (booted_memory ()))" and ?p = "fst (get_physical_page (booted_memory ()))"
  note own = pa.alloc_owned [OF booted_memory_simps(3) booted_memory_avail, of "()"]
  have ok: "alloc_ok ?s" by (rule pa.alloc_inv [OF booted_memory_simps(3)])
  have other: "0 \<notin> all_pages ?s - avail_pages ?s" using pa.null_page [OF ok] by simp
  show ?thesis
    using free_physical_page_correct [OF ok, of ?p] free_physical_page_correct [OF ok, of 0] ok own
    unfolding if_P [OF own] if_not_P [OF other]
    by (elim conjE) (intro exI [of _ ?s] exI [of _ ?p] conjI)
qed

text \<open>
  As long as pages are left, successive allocations return different pages, none of
  them null, and their 4 KiB ranges do not overlap each other, the bitmap or the screen.
\<close>

lemma allocations_disjoint:
  assumes "alloc_ok s" "n \<le> card (avail_pages s)"
  defines "page k \<equiv> fst (get_physical_page (((\<lambda>s. snd (get_physical_page s)) ^^ k) s))"
  assumes "j < n" "k < n" "j \<noteq> k"
  shows "page j \<noteq> 0 \<and> page j \<in> avail_pages s \<and> region (page j) 4096 \<inter> region (page k) 4096 = {}
    \<and> region (page j) 4096 \<inter> (bitmap_area \<union> screen_bytes) = {}"
proof -
  have b: "alloc_bounds s" using assms(1) by (simp add: alloc_ok_def)
  have ps: "fst (pa.allocs n s) = map page [0..<n]" by (simp add: pa.allocs_map page_def)
  note d = pa.allocs_distinct [OF assms(1,2), unfolded ps]
  have in_avail: "page i \<in> avail_pages s" if "i < n" for i using d that by auto
  have ne: "page j \<noteq> page k" using d assms(4-6) by (auto simp: distinct_map inj_on_def)
  obtain x y where x: "page j = page_addr x" "x < total_pages s" and y: "page k = page_addr y" "y < total_pages s"
    using in_avail [OF assms(4)] in_avail [OF assms(5)] by (auto simp: avail_pages_def free_pages_def)
  have "x \<noteq> y" using ne x y by auto
  moreover have "page j \<noteq> 0"
    using in_avail [OF assms(4)] pa.null_page [OF assms(1)] pa.avail_pages [OF assms(1)] by auto
  ultimately show ?thesis
    using pages_disjoint [OF b x(2) y(2)] page_disjoint [OF b x(2)] x(1) y(1) in_avail [OF assms(4)] by auto
qed

lemma booted_memory_card: "2 \<le> card (avail_pages (booted_memory x))"
proof -
  have "alloc_bounds (booted_memory x)" using booted_memory_simps(3) [of x] unfolding alloc_ok_def by blast
  then have "page_addr 0 \<noteq> page_addr 1" using page_addr_inject [of "booted_memory x" 0 1] by simp
  then have "card {page_addr 0, page_addr 1} = 2" by simp
  moreover have "{page_addr 0, page_addr 1} \<subseteq> avail_pages (booted_memory x)" by (auto simp: avail_pages_def)
  ultimately show ?thesis by (metis card_mono finite)
qed

text \<open>
  C30: \<open>find_contiguous_free_pages\<close> returns the index of the first run of \<open>count\<close> free
  pages, and 0 when there is none (which a caller cannot tell from a run at page 0).
\<close>

theorem find_contiguous_free_pages_first:
  assumes "memory_map s \<noteq> 0" "count \<noteq> 0"
  shows "find_contiguous_free_pages count s =
    (if \<exists>i. free_run s (unat count) i then of_nat (LEAST i. free_run s (unat count) i) else 0)"
proof (cases "count > total_pages s")
  case True
  then have "\<not> free_run s (unat count) i" for i by (simp add: free_run_def word_less_nat_alt)
  with True show ?thesis by (simp add: find_contiguous_free_pages_def)
next
  case False
  have "contiguous_loop count 0 0 0 s = first_run s (unat count)"
    using assms(2) by (intro contiguous_loop_first) (simp_all add: unat_gt_0)
  with False assms show ?thesis by (simp add: find_contiguous_free_pages_def first_run_def)
qed

theorem find_contiguous_free_pages_first_witness:
  "find_contiguous_free_pages 3 (booted_memory ()) =
    (if \<exists>i. free_run (booted_memory ()) (unat (3::u64)) i
     then of_nat (LEAST i. free_run (booted_memory ()) (unat (3::u64)) i) else 0)"
  by (rule find_contiguous_free_pages_first) simp_all

text \<open>
  The statistics are exact: \<open>get_free_memory\<close> is 4096 times the number of free pages,
  and \<open>get_total_memory\<close> the size of the managed range in whole pages, without overflow.
\<close>

lemma memory_statistics:
  assumes "alloc_ok s"
  shows "unat (get_free_memory s) = 4096 * card (free_pages s)
    \<and> unat (get_total_memory s) = (unat (memory_end s) - 0x100000) div 4096 * 4096
    \<and> unat (get_free_memory s) + 4096 * unat (used_pages s) = unat (get_total_memory s)"
proof -
  have b: "alloc_bounds s" and u: "unat (used_pages s) + card (free_pages s) = unat (total_pages s)"
    using assms by (simp_all add: alloc_ok_def)
  note tot = alloc_bounds_total [OF b]
  have "unat (total_pages s - used_pages s) = card (free_pages s)"
    using u by (simp add: unat_sub word_le_nat_alt)
  then have f: "unat (get_free_memory s) = 4096 * card (free_pages s)"
    using tot u unfolding get_free_memory_def unat_word_ariths(2) by simp
  have t: "unat (get_total_memory s) = 4096 * unat (total_pages s)"
    using tot unfolding get_total_memory_def unat_word_ariths(2) by simp
  then have "unat (get_total_memory s) = (unat (memory_end s) - 0x100000) div 4096 * 4096"
    using tot(1) by simp
  moreover have "unat (get_free_memory s) + 4096 * unat (used_pages s) = unat (get_total_memory s)"
    unfolding f t u [symmetric] by simp
  ultimately show ?thesis using f by blast
qed

text \<open>
  The calls of \<open>mark_memory_range_used\<close> in \<open>Init_Memory\<close> that are meant to reserve
  the kernel image, the boot page tables, the memory map, the bitmap and the video memory
  reserve nothing: a range that ends below 1 MiB is clamped away.
\<close>

lemma low_ranges_not_reserved:
  assumes "memory_start s = 0x100000" "end0 \<le> 0x100000"
  shows "mark_memory_range_used start end0 s = s"
  by (rule mark_low_range [OF assms])

end
