(* ===== verification/Screen_Properties.thy ===== *)
theory Screen_Properties
  imports Kprintf
begin

text \<open>
  What the string library, the screen driver and the formatted printer promise. The
  witnesses run on a cleared machine.
\<close>

text \<open>
  \<open>strcmp\<close> on two null-terminated strings returns; the result is 0 exactly for equal
  strings and negative exactly when the first is lexicographically smaller (by unsigned
  bytes).
\<close>

lemma strcmp_lexicographic:
  assumes "cstring m p xs" "cstring m q ys"
  shows "\<exists>d. strcmp m p q = Some d \<and> (d = 0 \<longleftrightarrow> xs = ys) \<and> (d < 0 \<longleftrightarrow> bytes_less xs ys)"
  by (rule strcmp_cstring [OF assms])

text \<open>
  \<open>strlen\<close> of a null-terminated string returns the number of bytes before the
  terminator, as an unsigned 32-bit value.
\<close>

lemma strlen_counts:
  assumes "cstring m p cs"
  shows "strlen m p = Some (of_nat (length cs))"
  by (simp add: strlen_def strlen_loop_cstring [OF assms])

text \<open>
  \<open>memset\<close> returns its first argument, sets exactly the \<open>n\<close> bytes from there to the
  low byte of \<open>c\<close>, and changes nothing else of the machine.
\<close>

lemma memset_fills:
  "memset dest c n s =
     (dest, s\<lparr>mem := (\<lambda>x. if x \<in> region dest (unat n) then ucast c else mem s x)\<rparr>)"
  by (simp add: memset_def memset_loop_nth region_def fun_eq_iff)

text \<open>
  Writing characters refines the abstract terminal: with the cursor on the screen,
  \<open>VGA_Putc\<close> on any sequence of bytes leaves the cells, the cursor and the colour exactly
  as the terminal model says (line feed, tab, backspace, wrap at the end of the screen and
  scrolling included), keeps the cursor on the screen, and changes nothing but the
  screen's memory and the cursor registers.
\<close>

lemma VGA_Putc_terminal:
  assumes "cursor_ok s"
  shows "abs_term (fold VGA_Putc bs s) = fold term_putc bs (abs_term s)
    \<and> cursor_ok (fold VGA_Putc bs s) \<and> screen_only s (fold VGA_Putc bs s)"
  using putcs_refine [OF assms] putcs_ok [OF assms] by blast

text \<open>
  \<open>rmline\<close> blanks the line of the cursor in the current colour and moves the cursor
  to its start, except on the last line, where blanking the last cell scrolls the screen.
\<close>

lemma rmline_clears:
  assumes "cursor_ok s"
  defines "y \<equiv> unat (cursor s) div 80"
  defines "t \<equiv> (abs_term s)\<lparr>cells := fill_from (80 * y) 80 (blank (color s)) (cells (abs_term s))\<rparr>"
  shows "abs_term (rmline s) = (if y < 24 then t else term_scroll t)\<lparr>cur := 80 * y\<rparr>
    \<and> cursor_ok (rmline s) \<and> screen_only s (rmline s)"
  using rmline_refines [OF assms(1)] by (simp add: y_def t_def)

text \<open>
  Setting the cursor and reading it back gives the coordinates clamped to the screen,
  through the two halves kept in the controller's registers.
\<close>

lemma cursor_round_trip:
  "fst (VGA_GetCursor (VGA_SetCursor x y s)) = (min (max x 0) 79, min (max y 0) 24)
    \<and> cursor_ok (VGA_SetCursor x y s)"
proof -
  define a b where "a = min (max x 0) 79" and "b = min (max y 0) (24 :: int)"
  have "0 \<le> a" "a < 80" by (auto simp: a_def)
  then have "(b * 80 + a) mod 80 = a" "(b * 80 + a) div 80 = b" by simp_all
  then show ?thesis
    by (simp add: VGA_GetCursor_eq uint_cursor_VGA_SetCursor a_def [symmetric] b_def [symmetric])
qed

text \<open>
  \<open>kprint_num\<close>, \<open>kprint_unsigned\<close> and \<open>kprint_hex\<close> print the decimal numeral of a signed and of an
  unsigned number and the hexadecimal numeral of a 64-bit number, the most negative number
  included; the numerals are not empty and denote the argument.
\<close>

lemma numerals_denote:
  "kprint_num n s = Some (fold VGA_Putc (decimal_int (sint n)) s)
   \<and> kprint_unsigned u s = Some (fold VGA_Putc (decimal (unat u)) s)
   \<and> kprint_hex h s = Some (fold VGA_Putc (hexadecimal (unat h)) s)
   \<and> decimal k \<noteq> [] \<and> dec_value (decimal k) = k \<and> hexadecimal k \<noteq> [] \<and> hex_value (hexadecimal k) = k"
  using dec_value_decimal [of k] hex_value_hexadecimal [of k]
  by (auto simp: kprint_num_decimal kprint_unsigned_decimal kprint_hex_hexadecimal decimal_def hexadecimal_def dec_value_def hex_value_def
      split: if_splits)

text \<open>
  C14: \<open>kprintf\<close> and \<open>kprintcolor\<close> on a format whose conversions have arguments of their
  kind return, put exactly the rendered text on the terminal (\<open>kprintcolor\<close> in its own
  colour, restoring the previous one), and change nothing else.
\<close>

theorem kprintf_renders:
  assumes "render (bytes_of format) args = Some bs" "cursor_ok s"
  shows "(\<exists>s'. kprintf format args s = Some s' \<and> cursor_ok s' \<and> screen_only s s'
      \<and> abs_term s' = fold term_putc bs (abs_term s))
    \<and> (\<exists>s'. kprintcolor c format args s = Some s' \<and> color s' = color s
      \<and> abs_term s' = (fold term_putc bs ((abs_term s)\<lparr>attr := ucast (color_value c)\<rparr>))\<lparr>attr := color s\<rparr>)"
proof (intro conjI)
  show "\<exists>s'. kprintf format args s = Some s' \<and> cursor_ok s' \<and> screen_only s s'
      \<and> abs_term s' = fold term_putc bs (abs_term s)"
    using putcs_ok [OF assms(2)] by (simp add: kprintf_render [OF assms(1)] putcs_refine [OF assms(2)])
  have "cursor_ok (s\<lparr>color := x\<rparr>)" for x using assms(2) by (simp add: cursor_ok_def cursor_def)
  from putcs_refine [OF this]
  show "\<exists>s'. kprintcolor c format args s = Some s' \<and> color s' = color s
      \<and> abs_term s' = (fold term_putc bs ((abs_term s)\<lparr>attr := ucast (color_value c)\<rparr>))\<lparr>attr := color s\<rparr>"
    by (simp add: kprintcolor_render [OF assms(1)] abs_term_color)
qed

theorem kprintf_renders_witness:
  "\<exists>s'. kprintf ''%x!'' [VInt 0xAB] (vga_statics ()) = Some s'
      \<and> abs_term s' = fold term_putc [0x61, 0x62, 0x21] (abs_term (vga_statics ()))"
proof -
  have "render (bytes_of ''%x!'') [VInt 0xAB] = Some [0x61, 0x62, 0x21]"
    by (simp add: bytes_of_def text_of_def hexadecimal_def hex_bytes.simps hex_digit_def)
  from kprintf_renders [OF this vga_statics_simps(3), of "()"] show ?thesis by blast
qed

text \<open>
  \<open>Init_VGA\<close> returns from any state with a blank white-on-black screen that shows only
  the driver's message, colour light green, the cursor on the screen and enabled, and
  changes nothing but the screen, the colour and the controller's registers.
\<close>

lemma Init_VGA_clears:
  "\<exists>s'. Init_VGA s = Some s' \<and> cursor_ok s' \<and> screen_only (s\<lparr>color := 0xA\<rparr>) s'
    \<and> abs_term s' = (fold term_putc boot_banner
        \<lparr>cells = replicate 2000 0x0F20, cur = 0, attr = 0xC\<rparr>)\<lparr>attr := 0xA\<rparr>"
  by (rule Init_VGA_result)

end
