(* ===== verification/Paging.thy ===== *)
theory Paging
  imports Phys_Memory
begin

text \<open>
  Four-level paging, \<^verbatim>\<open>kernel/paging.c\<close>. A page table is 512 eight-byte entries in the
  flat memory; tables are reached through their physical addresses. The code maps 2 MiB
  pages only, so a mapping is an entry of a page directory, and the tables below one root
  represent a function from the three table indices to that entry (\<open>pd_slot\<close>); the
  translation the processor performs is \<open>page_walk\<close>.
\<close>

subsection \<open>Model\<close>

record paging = memory +
  kernel_pml4 :: u64

abbreviation (input) PAGE_TABLE_ENTRIES :: nat where "PAGE_TABLE_ENTRIES \<equiv> 512"
abbreviation PAGE_PRESENT :: u64 where "PAGE_PRESENT \<equiv> 0x1"
abbreviation PAGE_WRITABLE :: u64 where "PAGE_WRITABLE \<equiv> 0x2"
abbreviation PAGE_USER :: u64 where "PAGE_USER \<equiv> 0x4"
abbreviation PAGE_HUGE :: u64 where "PAGE_HUGE \<equiv> 0x80"
abbreviation PAGE_GLOBAL :: u64 where "PAGE_GLOBAL \<equiv> 0x100"
abbreviation KERNEL_VIRTUAL_BASE :: u64 where "KERNEL_VIRTUAL_BASE \<equiv> 0xFFFFFFFF80000000"

definition PML4_INDEX :: "u64 \<Rightarrow> u64" where "PML4_INDEX v = (drop_bit 39 v AND 0x1FF)"
definition PDPT_INDEX :: "u64 \<Rightarrow> u64" where "PDPT_INDEX v = (drop_bit 30 v AND 0x1FF)"
definition PD_INDEX :: "u64 \<Rightarrow> u64" where "PD_INDEX v = (drop_bit 21 v AND 0x1FF)"

text \<open>\<^verbatim>\<open>t[i]\<close> for a table \<^verbatim>\<open>uint64_t* t\<close>, and the table an entry points to.\<close>

definition entry :: "memory_bytes \<Rightarrow> u64 \<Rightarrow> u64 \<Rightarrow> u64" where
  "entry m t i = read_u64 m (t + 8 * i)"

definition set_entry :: "u64 \<Rightarrow> u64 \<Rightarrow> u64 \<Rightarrow> 'a machine_scheme \<Rightarrow> 'a machine_scheme" where
  "set_entry t i v s = s\<lparr>mem := write_u64 (mem s) (t + 8 * i) v\<rparr>"

definition present :: "u64 \<Rightarrow> bool" where
  "present e \<longleftrightarrow> e AND PAGE_PRESENT \<noteq> 0"

definition table_of :: "u64 \<Rightarrow> u64" where
  "table_of e = (e AND NOT 0xFFF)"

definition zero_table :: "u64 \<Rightarrow> 'a machine_scheme \<Rightarrow> 'a machine_scheme" where
  "zero_table t s = fold (\<lambda>i s. set_entry t (of_nat i) 0 s) [0..<PAGE_TABLE_ENTRIES] s"

definition get_current_pml4 :: "'a machine_scheme \<Rightarrow> u64" where
  "get_current_pml4 s = (cr3 s AND NOT 0xFFF)"

definition copy_boot_mappings :: "u64 \<Rightarrow> 'a machine_scheme \<Rightarrow> 'a machine_scheme" where
  "copy_boot_mappings new_pml4 s =
     (let boot_pml4 = get_current_pml4 s;
          copy = (\<lambda>i s. if present (entry (mem s) boot_pml4 i)
                        then set_entry new_pml4 i (entry (mem s) boot_pml4 i) s else s);
          s = copy 0 s
      in fold (\<lambda>i. copy (of_nat i)) [1..<PAGE_TABLE_ENTRIES] s)"

text \<open>
  The block that both \<open>setup_kernel_mappings\<close> and \<open>map_page\<close> repeat: when \<^verbatim>\<open>table[i]\<close> is
  not present, allocate a page, clear it and enter it with the given flags. \<open>False\<close> when
  the allocation fails, after the message; the caller returns then.
\<close>

definition ensure_table :: "u64 \<Rightarrow> u64 \<Rightarrow> u64 \<Rightarrow> string \<Rightarrow> 'a memory_scheme \<Rightarrow> (bool \<times> 'a memory_scheme) option" where
  "ensure_table table i flags msg s =
     (if \<not> present (entry (mem s) table i) then
        (let (page, s) = get_physical_page s
         in if page = 0 then do { s \<leftarrow> DEBUGER LIGHT_RED msg [] s; Some (False, s) }
            else Some (True, set_entry table i (page OR flags) (zero_table page s)))
      else Some (True, s))"

text \<open>The loop over the kernel's 2 MiB pages; it runs once, for \<open>i = 0\<close>.\<close>

function kernel_map_loop :: "u64 \<Rightarrow> u64 \<Rightarrow> 'a memory_scheme \<Rightarrow> 'a memory_scheme option" where
  "kernel_map_loop pdpt i s =
     (if i < 0x200000 then
        (let virtual_addr = KERNEL_VIRTUAL_BASE + i;
             pdpt_index = PDPT_INDEX virtual_addr;
             pd_index = PD_INDEX virtual_addr
         in do { (ok, s) \<leftarrow> ensure_table pdpt pdpt_index (PAGE_PRESENT OR PAGE_WRITABLE) ''Failed to allocate PD!'' s;
                 if \<not> ok then Some s
                 else (let pd = table_of (entry (mem s) pdpt pdpt_index)
                       in kernel_map_loop pdpt (i + 0x200000)
                            (set_entry pd pd_index
                              (i OR PAGE_PRESENT OR PAGE_WRITABLE OR PAGE_HUGE OR PAGE_GLOBAL) s)) })
      else Some s)"
  by pat_completeness auto
termination
proof (relation "measure (\<lambda>(pdpt, i, s). 0x200000 - unat i)")
  fix i :: u64
  assume "i < 0x200000"
  then have "unat i < 0x200000" by (simp add: word_less_nat_alt)
  then have "unat (i + 0x200000) = unat i + 0x200000" by (simp add: unat_word_ariths)
  then show "((pdpt, i + 0x200000, s'), pdpt, i, s) \<in> measure (\<lambda>(pdpt, i, s). 0x200000 - unat i)"
    for pdpt :: u64 and s s' :: "'a memory_scheme"
    using \<open>unat i < 0x200000\<close> by simp
qed simp

declare kernel_map_loop.simps [simp del]

definition setup_kernel_mappings :: "u64 \<Rightarrow> 'a memory_scheme \<Rightarrow> 'a memory_scheme option" where
  "setup_kernel_mappings pml4 s =
     (let kernel_pml4_index = PML4_INDEX KERNEL_VIRTUAL_BASE
      in do { (ok, s) \<leftarrow> ensure_table pml4 kernel_pml4_index (PAGE_PRESENT OR PAGE_WRITABLE)
                          ''Failed to allocate kernel PDPT!'' s;
              if \<not> ok then Some s
              else (let pdpt = table_of (entry (mem s) pml4 kernel_pml4_index)
                    in kernel_map_loop pdpt 0 s) })"

definition Init_Paging :: "'a paging_scheme \<Rightarrow> 'a paging_scheme option" where
  "Init_Paging s =
     (let current_pml4 = get_current_pml4 s;
          finish = (\<lambda>s. do { s \<leftarrow> setup_kernel_mappings (kernel_pml4 s) s;
                             let s = (if kernel_pml4 s \<noteq> current_pml4 then s\<lparr>cr3 := kernel_pml4 s\<rparr> else s);
                             DEBUGER LIGHT_RED ''Paging initialization completed successfully'' [] s })
      in if current_pml4 \<ge> 0x100000 \<and> current_pml4 < 0x200000
         then finish (s\<lparr>kernel_pml4 := current_pml4\<rparr>)
         else (let (page, s) = get_physical_page s;
                   s = s\<lparr>kernel_pml4 := page\<rparr>
               in if kernel_pml4 s = 0 then DEBUGER LIGHT_RED ''Failed to allocate PML4!'' [] s
                  else finish (copy_boot_mappings (kernel_pml4 s) (zero_table (kernel_pml4 s) s))))"

definition map_page :: "u64 \<Rightarrow> u64 \<Rightarrow> u64 \<Rightarrow> 'a paging_scheme \<Rightarrow> 'a paging_scheme option" where
  "map_page virtual_addr physical_addr flags s =
     (if kernel_pml4 s = 0 then Some s
      else
        (let pml4_index = PML4_INDEX virtual_addr;
             pdpt_index = PDPT_INDEX virtual_addr;
             pd_index = PD_INDEX virtual_addr
         in do { (ok, s) \<leftarrow> ensure_table (kernel_pml4 s) pml4_index
                   (PAGE_PRESENT OR PAGE_WRITABLE OR PAGE_USER) ''Failed to allocate PDPT!'' s;
                 if \<not> ok then Some s
                 else (let pdpt = table_of (entry (mem s) (kernel_pml4 s) pml4_index)
                       in do { (ok, s) \<leftarrow> ensure_table pdpt pdpt_index
                                 (PAGE_PRESENT OR PAGE_WRITABLE OR PAGE_USER) ''Failed to allocate PD!'' s;
                               if \<not> ok then Some s
                               else (let pd = table_of (entry (mem s) pdpt pdpt_index)
                                     in Some (set_entry pd pd_index (physical_addr OR flags OR PAGE_HUGE) s)) }) }))"

text \<open>
  \<^verbatim>\<open>1 << 31\<close> has type \<^verbatim>\<open>int\<close> and is negative; converted to 64 bits it is sign-extended,
  so the last step sets the upper half of \<^verbatim>\<open>cr0\<close> as well.
\<close>

definition enable_paging :: "'a vga_scheme \<Rightarrow> 'a vga_scheme option" where
  "enable_paging s =
     (let s = s\<lparr>cr4 := cr4 s OR push_bit 5 1\<rparr>;
          efer = (rdmsr_rax 0xC0000080 s OR push_bit 8 1);
          s = wrmsr 0xC0000080 (efer AND 0xFFFFFFFF) (drop_bit 32 efer) s;
          s = s\<lparr>cr0 := cr0 s OR scast (push_bit 31 1 :: 32 word)\<rparr>
      in DEBUGER LIGHT_GREEN ''Paging verified and enabled'' [] s)"

definition get_kernel_page_table :: "'a paging_scheme \<Rightarrow> u64" where
  "get_kernel_page_table s = kernel_pml4 s"

definition get_physical_address :: "u64 \<Rightarrow> u64" where
  "get_physical_address virtual_addr =
     (if virtual_addr \<ge> KERNEL_VIRTUAL_BASE then virtual_addr - KERNEL_VIRTUAL_BASE else virtual_addr)"

text \<open>The translation of the processor, and the tables below a root as a function of their indices.\<close>

definition page_walk :: "memory_bytes \<Rightarrow> u64 \<Rightarrow> u64 \<Rightarrow> u64 option" where
  "page_walk m root v =
     (let frame = (\<lambda>e. e AND 0xFFFFFFFFFF000);
          e4 = entry m (frame root) (drop_bit 39 v AND 0x1FF)
      in if \<not> present e4 then None
         else let e3 = entry m (frame e4) (drop_bit 30 v AND 0x1FF)
         in if \<not> present e3 then None
         else if e3 AND PAGE_HUGE \<noteq> 0 then Some ((e3 AND 0xFFFFFC0000000) OR (v AND 0x3FFFFFFF))
         else let e2 = entry m (frame e3) (drop_bit 21 v AND 0x1FF)
         in if \<not> present e2 then None
         else if e2 AND PAGE_HUGE \<noteq> 0 then Some ((e2 AND 0xFFFFFFFE00000) OR (v AND 0x1FFFFF))
         else let e1 = entry m (frame e2) (drop_bit 12 v AND 0x1FF)
         in if \<not> present e1 then None
         else Some ((e1 AND 0xFFFFFFFFFF000) OR (v AND 0xFFF)))"

fun node :: "memory_bytes \<Rightarrow> u64 \<Rightarrow> u64 list \<Rightarrow> u64 option" where
  "node m t [] = Some t"
| "node m t (i # p) = (if present (entry m t i) then node m (table_of (entry m t i)) p else None)"

definition pd_slot :: "memory_bytes \<Rightarrow> u64 \<Rightarrow> u64 \<times> u64 \<times> u64 \<Rightarrow> u64" where
  "pd_slot m r = (\<lambda>(i, j, k). case node m r [i, j] of None \<Rightarrow> 0 | Some pd \<Rightarrow> entry m pd k)"

definition aligned :: "u64 \<Rightarrow> bool" where
  "aligned t \<longleftrightarrow> unat t mod 4096 = 0"

definition table_page :: "'a memory_scheme \<Rightarrow> u64 \<Rightarrow> bool" where
  "table_page s t \<longleftrightarrow> aligned t \<and> region t 4096 \<inter> (bitmap_area \<union> screen_bytes) = {} \<and> t \<notin> avail_pages s"

definition plain :: "u64 \<Rightarrow> bool" where
  "plain e \<longleftrightarrow> e < 2 ^ 52 \<and> e AND PAGE_HUGE = 0"

definition inner_path :: "u64 list \<Rightarrow> bool" where
  "inner_path p \<longleftrightarrow> length p \<le> 2 \<and> (\<forall>i \<in> set p. i < 512)"

text \<open>
  The tables below root \<open>r\<close> form a tree: every table is a page of its own, outside the
  allocator's free pages, the bitmap and the screen, and no table is reached by two paths.
\<close>

definition tree_ok :: "u64 \<Rightarrow> 'a memory_scheme \<Rightarrow> bool" where
  "tree_ok r s \<longleftrightarrow>
     (\<forall>p t. inner_path p \<longrightarrow> node (mem s) r p = Some t \<longrightarrow>
        table_page s t
        \<and> (\<forall>q. inner_path q \<longrightarrow> node (mem s) r q = Some t \<longrightarrow> q = p)
        \<and> (length p < 2 \<longrightarrow> (\<forall>i<512. present (entry (mem s) t i) \<longrightarrow> plain (entry (mem s) t i))))"

text \<open>
  An entry of a page directory that is not a 2 MiB page refers to a page table (the boot
  loader's tables have one); no such table is one of the tables of the tree.
\<close>

definition pt_link :: "u64 \<Rightarrow> bool" where
  "pt_link e \<longleftrightarrow> present e \<and> e AND PAGE_HUGE = 0"

definition index_ok :: "u64 \<times> u64 \<times> u64 \<Rightarrow> bool" where
  "index_ok = (\<lambda>(i, j, k). i < 512 \<and> j < 512 \<and> k < 512)"

definition leaves_ok :: "u64 \<Rightarrow> 'a memory_scheme \<Rightarrow> bool" where
  "leaves_ok r s \<longleftrightarrow>
     (\<forall>y. index_ok y \<longrightarrow> pt_link (pd_slot (mem s) r y) \<longrightarrow>
        (let e = pd_slot (mem s) r y
         in e < 2 ^ 52 \<and> table_page s (table_of e)
            \<and> (\<forall>p. inner_path p \<longrightarrow> node (mem s) r p \<noteq> Some (table_of e))))"

definition tables_ok :: "u64 \<Rightarrow> 'a memory_scheme \<Rightarrow> bool" where
  "tables_ok r s \<longleftrightarrow> tree_ok r s \<and> leaves_ok r s"

definition keeps_pt :: "u64 \<Rightarrow> 'a memory_scheme \<Rightarrow> 'b memory_scheme \<Rightarrow> bool" where
  "keeps_pt r s s' \<longleftrightarrow>
     (\<forall>y l. index_ok y \<longrightarrow> l < 512 \<longrightarrow> pt_link (pd_slot (mem s) r y) \<longrightarrow>
        entry (mem s') (table_of (pd_slot (mem s) r y)) l = entry (mem s) (table_of (pd_slot (mem s) r y)) l)"

subsection \<open>Entries of aligned tables\<close>

lemma aligned_iff: "aligned t \<longleftrightarrow> (\<forall>n<12. \<not> bit t n)"
proof -
  have "aligned t \<longleftrightarrow> take_bit 12 t = 0"
    by (simp add: aligned_def word_unat_eq_iff take_bit_eq_mod unat_mod_distrib)
  also have "\<dots> \<longleftrightarrow> (\<forall>n<12. \<not> bit t n)"
    by (auto simp: bit_eq_iff bit_simps)
  finally show ?thesis .
qed

lemma table_of_mask: "table_of e = (e AND NOT (mask 12))"
  by (simp add: table_of_def mask_eq_exp_minus_1)

lemma aligned_table_of [simp]: "aligned (table_of e)"
  by (simp add: aligned_iff table_of_mask bit_simps)

lemma less_bits: "(f :: u64) < 2 ^ k \<Longrightarrow> bit f n \<Longrightarrow> n < k"
  by (metis bit_take_bit_iff less_mask_eq take_bit_eq_mask)

lemma take_bit_less:
  assumes "take_bit 52 (w :: u64) = w"
  shows "w < 2 ^ 52"
proof -
  have "unat w = take_bit 52 (unat w)" using assms by (metis unsigned_take_bit_eq)
  also have "\<dots> < 2 ^ 52" by (rule take_bit_nat_less_exp)
  finally show ?thesis by (simp add: word_less_nat_alt)
qed

lemma table_of_new:
  assumes "aligned q" "f < 0x1000"
  shows "table_of (q OR f) = q"
proof (rule bit_word_eqI)
  fix n :: nat
  have "bit f n \<Longrightarrow> n < 12" using less_bits [of f 12 n] assms(2) by simp
  then show "bit (table_of (q OR f)) n \<longleftrightarrow> bit q n" if "n < LENGTH(64)"
    using that assms(1) by (auto simp: table_of_mask bit_simps aligned_iff not_less [symmetric])
qed

lemma unat_slot:
  assumes "aligned t" "i < 512"
  shows "unat (t + 8 * i) = unat t + 8 * unat i" "unat t + 4096 \<le> 2 ^ 64" "unat i < 512"
proof -
  obtain k where k: "unat t = 4096 * k" using assms(1) by (auto simp: aligned_def)
  have "unat t < 2 ^ 64" using unsigned_less [of t, where ?'a = nat] by simp
  then have "k < 2 ^ 52" by (simp add: k)
  then show le: "unat t + 4096 \<le> 2 ^ 64" by (simp add: k)
  show i: "unat i < 512" using assms(2) by (simp add: word_less_nat_alt)
  have "unat (8 * i) = 8 * unat i" using i by (simp add: unat_word_ariths)
  then show "unat (t + 8 * i) = unat t + 8 * unat i" using le i by (simp add: unat_word_ariths)
qed

lemma slot_region: "aligned t \<Longrightarrow> i < 512 \<Longrightarrow> region (t + 8 * i) 8 \<subseteq> region t 4096"
  using unat_slot [of t i] by (auto simp: region_iff)

lemma tables_disjoint:
  assumes "aligned t" "aligned u" "t \<noteq> u"
  shows "region t 4096 \<inter> region u 4096 = {}"
proof -
  obtain k where k: "unat t = 4096 * k" using assms(1) by (auto simp: aligned_def)
  obtain l where l: "unat u = 4096 * l" using assms(2) by (auto simp: aligned_def)
  have "k \<noteq> l" using assms(3) k l by (auto simp: word_unat_eq_iff)
  then show ?thesis
    using unat_slot(2) [OF assms(1), of 0] unat_slot(2) [OF assms(2), of 0]
    by (auto simp: region_iff k l)
qed

lemma slots_disjoint:
  assumes "aligned t" "i < 512" "j < 512" "i \<noteq> j"
  shows "region (t + 8 * i) 8 \<inter> region (t + 8 * j) 8 = {}"
proof -
  have "unat i \<noteq> unat j" using assms(4) by (simp add: word_unat_eq_iff)
  then show ?thesis
    using unat_slot [OF assms(1,2)] unat_slot [OF assms(1,3)] by (auto simp: region_iff)
qed

lemma entry_agree:
  "agree_off R m m' \<Longrightarrow> aligned t \<Longrightarrow> i < 512 \<Longrightarrow> region t 4096 \<inter> R = {} \<Longrightarrow> entry m' t i = entry m t i"
  unfolding entry_def using slot_region by (intro read_u64_agree) blast+

lemma set_entry_agree: "agree_off (region (t + 8 * i) 8) (mem s) (mem (set_entry t i v s))"
  by (simp add: set_entry_def agree_off_def write_u64_off)

lemma entry_set_entry:
  assumes "aligned t" "aligned u" "i < 512" "j < 512"
  shows "entry (mem (set_entry t i v s)) u j = (if u = t \<and> j = i then v else entry (mem s) u j)"
proof (cases "u = t \<and> j = i")
  case True
  then show ?thesis by (simp add: entry_def set_entry_def)
next
  case False
  have "region (u + 8 * j) 8 \<inter> region (t + 8 * i) 8 = {}"
  proof (cases "u = t")
    case True
    then show ?thesis using slots_disjoint [of t j i] False assms by simp
  next
    case False
    then show ?thesis
      using tables_disjoint [OF assms(2,1)] slot_region [OF assms(1,3)] slot_region [OF assms(2,4)] by blast
  qed
  then show ?thesis
    unfolding entry_def using False read_u64_agree [OF set_entry_agree] by auto
qed

lemma zero_table_form: "zero_table t s = s\<lparr>mem := mem (zero_table t s)\<rparr>"
  unfolding zero_table_def by (rule fold_mem_only [unfolded mem_only_def]) (simp add: set_entry_def)

lemma entry_zero_table:
  assumes "aligned t" "aligned u" "j < 512"
  shows "entry (mem (zero_table t s)) u j = (if u = t then 0 else entry (mem s) u j)"
proof -
  have "entry (mem (fold (\<lambda>i s. set_entry t (of_nat i) 0 s) [0..<n] s)) u j
      = (if u = t \<and> unat j < n then 0 else entry (mem s) u j)" if "n \<le> 512" for n
    using that
  proof (induction n)
    case (Suc n)
    have n: "unat (of_nat n :: u64) = n" using Suc.prems by (simp add: unat_of_nat)
    have "(of_nat n :: u64) < 512" using Suc.prems by (simp add: word_less_nat_alt n)
    moreover have "j = of_nat n \<longleftrightarrow> unat j = n" by (simp add: word_unat_eq_iff n)
    ultimately show ?case using Suc by (auto simp: entry_set_entry [OF assms(1,2) _ assms(3)])
  qed simp
  from this [of 512] show ?thesis using unat_slot(3) [OF assms(2,3)] by (simp add: zero_table_def)
qed

lemma zero_table_agree:
  assumes "aligned t"
  shows "agree_off (region t 4096) (mem s) (mem (zero_table t s))"
  unfolding zero_table_def
proof (rule fold_rel [where R = "\<lambda>s s'. agree_off (region t 4096) (mem s) (mem s')"])
  fix i :: nat and s :: "'a machine_scheme"
  assume "i \<in> set [0..<512]"
  then have "(of_nat i :: u64) < 512" by (simp add: word_less_nat_alt unat_of_nat)
  then show "agree_off (region t 4096) (mem s) (mem (set_entry t (of_nat i) 0 s))"
    using agree_off_mono [OF set_entry_agree slot_region [OF assms]] by blast
qed (auto intro: agree_off_trans)

subsection \<open>The tree of tables\<close>

lemma node_snoc:
  "node m r (p @ [i]) =
     (case node m r p of None \<Rightarrow> None | Some t \<Rightarrow> if present (entry m t i) then Some (table_of (entry m t i)) else None)"
  by (induction m r p rule: node.induct) auto

text \<open>
  Entering a cleared table \<open>q\<close> at index \<open>i\<close> of the table at path \<open>p\<close> adds exactly the path
  \<open>p @ [i]\<close>.
\<close>

lemma node_new_table:
  assumes tree: "\<And>p' q' u. inner_path p' \<Longrightarrow> inner_path q' \<Longrightarrow> node m r p' = Some u \<Longrightarrow> node m r q' = Some u \<Longrightarrow> p' = q'"
    and p: "node m r p = Some t" "inner_path p" "\<not> present (entry m t i)"
    and v: "present v" "table_of v = q"
    and upd: "\<And>p' u j. inner_path p' \<Longrightarrow> node m r p' = Some u \<Longrightarrow> j < 512 \<Longrightarrow>
      entry m' u j = (if u = t \<and> j = i then v else entry m u j)"
    and zero: "\<And>j. j < 512 \<Longrightarrow> entry m' q j = 0"
    and "inner_path p'"
  shows "node m' r p' = (if p' = p @ [i] then Some q else node m r p')"
  using \<open>inner_path p'\<close>
proof (induction p' rule: rev_induct)
  case (snoc j p')
  then have ip: "inner_path p'" and j: "j < 512" by (auto simp: inner_path_def)
  have old: "node m r (p @ [i]) = None" using p by (simp add: node_snoc)
  show ?case
  proof (cases "p' = p @ [i]")
    case True
    have "node m' r p' = Some q" using True snoc.IH [OF ip] by (simp only: if_P)
    then have "node m' r (p' @ [j]) = None" unfolding node_snoc using zero [OF j] by (simp add: present_def)
    moreover have "node m r (p' @ [j]) = None" using old True by (subst node_snoc) simp
    ultimately show ?thesis using True by simp
  next
    case False
    then have same: "node m' r p' = node m r p'" using snoc.IH [OF ip] by simp
    show ?thesis
    proof (cases "node m r p'")
      case None
      with same p(1) show ?thesis by (auto simp: node_snoc)
    next
      case (Some u)
      have "u = t \<longleftrightarrow> p' = p" using tree [OF ip p(2) Some] p(1) Some by auto
      with same Some upd [OF ip Some j] v old p show ?thesis by (auto simp: node_snoc)
    qed
  qed
qed (auto simp: p)

text \<open>Changing an entry of a page directory leaves the inner nodes alone.\<close>

lemma node_same:
  assumes "\<And>p' u j. inner_path p' \<Longrightarrow> length p' < 2 \<Longrightarrow> node m r p' = Some u \<Longrightarrow> j < 512 \<Longrightarrow> entry m' u j = entry m u j"
    and "inner_path p"
  shows "node m' r p = node m r p"
  using assms(2)
proof (induction p rule: rev_induct)
  case (snoc j p)
  then have "inner_path p" "j < 512" "length p < 2" by (auto simp: inner_path_def)
  with snoc.IH assms(1) [of p _ j] show ?case by (auto simp: node_snoc split: option.splits)
qed simp

lemma inner_path_simps [simp]:
  "inner_path []" "inner_path [i] \<longleftrightarrow> i < 512" "inner_path [i, j] \<longleftrightarrow> i < 512 \<and> j < 512"
  by (auto simp: inner_path_def)

lemma tree_okD:
  assumes "tree_ok r s" "inner_path p" "node (mem s) r p = Some t"
  shows "table_page s t" "aligned t" "\<And>q. inner_path q \<Longrightarrow> node (mem s) r q = Some t \<Longrightarrow> q = p"
    "\<And>i. length p < 2 \<Longrightarrow> i < 512 \<Longrightarrow> present (entry (mem s) t i) \<Longrightarrow> plain (entry (mem s) t i)"
  using assms by (auto simp: tree_ok_def table_page_def)

lemma tree_ok_root: "tree_ok r s \<Longrightarrow> table_page s r"
  using tree_okD(1) [of r s "[]"] by simp

text \<open>A change of memory off the tables keeps the tree.\<close>

lemma tree_ok_cong:
  assumes "tree_ok r s"
    and "\<And>p t i. inner_path p \<Longrightarrow> node (mem s) r p = Some t \<Longrightarrow> i < 512 \<Longrightarrow> entry (mem s') t i = entry (mem s) t i"
    and "avail_pages s' \<subseteq> avail_pages s"
  shows "tree_ok r s'" "i < 512 \<Longrightarrow> j < 512 \<Longrightarrow> k < 512 \<Longrightarrow> pd_slot (mem s') r (i, j, k) = pd_slot (mem s) r (i, j, k)"
proof -
  have n: "node (mem s') r p = node (mem s) r p" if "inner_path p" for p
    using that assms(2) by (intro node_same) auto
  have "table_page s' t" if "table_page s t" for t using that assms(3) by (auto simp: table_page_def)
  with tree_okD [OF assms(1)] assms(2) n show "tree_ok r s'" unfolding tree_ok_def by auto
  show "pd_slot (mem s') r (i, j, k) = pd_slot (mem s) r (i, j, k)" if "i < 512" "j < 512" "k < 512"
    using that n [of "[i, j]"] assms(2) [of "[i, j]"] unfolding pd_slot_def prod.case
    by (cases "node (mem s) r [i, j]") simp_all
qed

lemma screen_only_avail: "screen_only s t \<Longrightarrow> alloc_ok s \<Longrightarrow> avail_pages t = avail_pages s"
  using screen_only_alloc_ok by (auto simp: avail_pages_def)

lemma screen_only_node:
  assumes "screen_only s t" "tree_ok r s" "inner_path p"
  shows "node (mem t) r p = node (mem s) r p"
proof (rule node_same [OF _ assms(3)])
  fix p' u j assume "inner_path p'" "node (mem s) r p' = Some u" "j < (512 :: u64)"
  then show "entry (mem t) u j = entry (mem s) u j"
    using tree_okD(1) [OF assms(2), of p' u]
    by (intro entry_agree [OF screen_only_mem [OF assms(1)]]) (auto simp: table_page_def)
qed

lemma screen_only_tables:
  assumes "screen_only s t" "alloc_ok s" "tree_ok r s"
  shows "tree_ok r t" "i < 512 \<Longrightarrow> j < 512 \<Longrightarrow> k < 512 \<Longrightarrow> pd_slot (mem t) r (i, j, k) = pd_slot (mem s) r (i, j, k)"
proof -
  have *: "entry (mem t) u j = entry (mem s) u j"
    if "inner_path p" "node (mem s) r p = Some u" "j < 512" for p u j
    using tree_okD(1) [OF assms(3) that(1,2)] that(3)
    by (intro entry_agree [OF screen_only_mem [OF assms(1)]]) (auto simp: table_page_def)
  have "avail_pages t \<subseteq> avail_pages s" using screen_only_avail [OF assms(1,2)] by simp
  note cong = tree_ok_cong [OF assms(3) _ this]
  show "tree_ok r t" by (rule cong(1)) (rule *)
  show "i < 512 \<Longrightarrow> j < 512 \<Longrightarrow> k < 512 \<Longrightarrow> pd_slot (mem t) r (i, j, k) = pd_slot (mem s) r (i, j, k)"
    by (rule cong(2)) (rule *)
qed

subsection \<open>Adding a table\<close>

lemma avail_page_table:
  assumes "alloc_ok s" "q \<in> avail_pages s"
  shows "aligned q" "region q 4096 \<inter> (bitmap_area \<union> screen_bytes) = {}"
proof -
  have b: "alloc_bounds s" using assms(1) by (simp add: alloc_ok_def)
  obtain i where i: "q = page_addr i" "i < total_pages s" using assms(2) by (auto simp: avail_pages_def free_pages_def)
  show "aligned q" using page_addr_bounds(1) [OF b i(2)] by (simp add: aligned_def i(1))
  show "region q 4096 \<inter> (bitmap_area \<union> screen_bytes) = {}" using page_disjoint [OF b i(2)] by (auto simp: i(1))
qed

lemma present_or: "f AND PAGE_PRESENT \<noteq> 0 \<Longrightarrow> present (q OR f)"
  by (auto simp: present_def bit_eq_iff bit_simps)

text \<open>The memory after a free page \<open>q\<close> was taken, cleared, and entered at \<open>t[i]\<close>.\<close>

lemma new_table_entries:
  assumes ok: "alloc_ok s" and ne: "avail_pages s \<noteq> {}" and get: "get_physical_page s = (q, s1)"
    and t: "table_page s t" "i < 512"
    and u: "table_page s u" "j < 512"
  shows "entry (mem (set_entry t i v (zero_table q s1))) u j = (if u = t \<and> j = i then v else entry (mem s) u j)"
    and "entry (mem (set_entry t i v (zero_table q s1))) q j = 0"
proof -
  note some = get_physical_page_some [OF ok ne get]
  note q = avail_page_table [OF ok some(1)]
  have al: "aligned t" "aligned u" using t u by (auto simp: table_page_def)
  have neq: "u \<noteq> q" "t \<noteq> q" using t u some(1) by (auto simp: table_page_def)
  have "entry (mem s1) u j = entry (mem s) u j"
    using u tables_disjoint [OF al(2) q(1) neq(1)]
    by (intro entry_agree [OF some(7)]) (auto simp: table_page_def)
  then show "entry (mem (set_entry t i v (zero_table q s1))) u j = (if u = t \<and> j = i then v else entry (mem s) u j)"
    using neq by (simp add: entry_set_entry [OF al t(2) u(2)] entry_zero_table [OF q(1) al(2) u(2)])
  show "entry (mem (set_entry t i v (zero_table q s1))) q j = 0"
    using neq by (simp add: entry_set_entry [OF al(1) q(1) t(2) u(2)] entry_zero_table [OF q(1) q(1) u(2)])
qed

lemma set_entry_form: "set_entry t i v s = s\<lparr>mem := mem (set_entry t i v s)\<rparr>"
  by (simp add: set_entry_def)

text \<open>Writing to a table page does not disturb the allocator.\<close>

lemma alloc_ok_write:
  assumes "alloc_ok s" "s' = s\<lparr>mem := mem s'\<rparr>" "agree_off R (mem s) (mem s')" "R \<inter> bitmap_area = {}"
  shows "alloc_ok s'" "avail_pages s' = avail_pages s"
proof -
  have b: "alloc_bounds s" using assms(1) by (simp add: alloc_ok_def)
  have eqs: "memory_map s' = memory_map s" "total_pages s' = total_pages s" "used_pages s' = used_pages s"
    "memory_start s' = memory_start s" "memory_end s' = memory_end s"
    by (subst assms(2), simp)+
  have f: "free_pages s' = free_pages s"
    by (rule free_pages_agree [OF b _ _ assms(3,4)]) (simp_all add: eqs)
  with assms(1) b eqs show "alloc_ok s'" by (simp add: alloc_ok_def alloc_bounds_cong [of s' s])
  show "avail_pages s' = avail_pages s" by (simp add: avail_pages_def f)
qed

lemma new_table_state:
  fixes v :: u64
  assumes ok: "alloc_ok s" and ne: "avail_pages s \<noteq> {}" and get: "get_physical_page s = (q, s1)"
    and t: "table_page s t" "i < 512"
  defines "s' \<equiv> set_entry t i v (zero_table q s1)"
  shows "alloc_ok s'" "avail_pages s' = avail_pages s - {q}" "mm_only s s'" "crtc_regs s' = crtc_regs s"
proof -
  note some = get_physical_page_some [OF ok ne get]
  note q = avail_page_table [OF ok some(1)]
  have al: "aligned t" using t by (simp add: table_page_def)
  have z: "alloc_ok (zero_table q s1)" "avail_pages (zero_table q s1) = avail_pages s1"
    using alloc_ok_write [OF some(5) zero_table_form zero_table_agree [OF q(1)]] q(2) by auto
  have "region (t + 8 * i) 8 \<inter> bitmap_area = {}"
    using slot_region [OF al t(2)] t(1) by (auto simp: table_page_def)
  from alloc_ok_write [OF z(1) set_entry_form set_entry_agree this] z some(4)
  show "alloc_ok s'" "avail_pages s' = avail_pages s - {q}" by (simp_all add: s'_def)
  have eq: "s' = s\<lparr>mem := mem s', used_pages := used_pages s + 1\<rparr>"
    unfolding s'_def by (subst set_entry_form, subst zero_table_form, subst some(8)) simp
  show "mm_only s s'"
    by (rule mm_onlyI [where m = "mem s'" and u = "used_pages s + 1" and i = "crtc_index s" and r = "crtc_regs s"])
       (subst eq, simp)
  show "crtc_regs s' = crtc_regs s" by (subst eq) simp
qed

lemma huge_bit: "bit PAGE_HUGE n \<longleftrightarrow> n = 7"
proof -
  have "PAGE_HUGE = push_bit 7 1" by simp
  then show ?thesis by (simp only: bit_push_bit_iff bit_1_iff) auto
qed

lemma avail_page_small:
  assumes "alloc_ok s" "q \<in> avail_pages s"
  shows "q < 2 ^ 52"
proof -
  have b: "alloc_bounds s" using assms(1) by (simp add: alloc_ok_def)
  obtain i where i: "q = page_addr i" "i < total_pages s" using assms(2) by (auto simp: avail_pages_def free_pages_def)
  show ?thesis
    using page_addr_bounds(3) [OF b i(2)] alloc_bounds_total(3) [OF b] by (simp add: i(1) word_less_nat_alt)
qed

lemma plain_new:
  assumes "alloc_ok s" "q \<in> avail_pages s" "f < 0x1000" "f AND PAGE_HUGE = 0"
  shows "plain (q OR f)"
proof -
  have b: "alloc_bounds s" using assms(1) by (simp add: alloc_ok_def)
  have al: "aligned q" using avail_page_table [OF assms(1,2)] by simp
  have "q < 2 ^ 52" by (rule avail_page_small [OF assms(1,2)])
  then have "bit q n \<Longrightarrow> n < 52" for n by (rule less_bits)
  moreover have f: "bit f n \<Longrightarrow> n < 12" for n using less_bits [of f 12 n] assms(3) by simp
  ultimately have "take_bit 52 (q OR f) = q OR f"
    by (intro bit_word_eqI) (fastforce simp: bit_simps)
  then have "q OR f < 2 ^ 52" by (rule take_bit_less)
  moreover have "(q OR f) AND PAGE_HUGE = 0"
  proof -
    have "\<not> bit q 7" using al by (simp add: aligned_iff)
    then have "(q OR f) AND PAGE_HUGE = f AND PAGE_HUGE"
      by (intro bit_word_eqI) (simp only: bit_or_iff bit_and_iff huge_bit, blast)
    with assms(4) show ?thesis by simp
  qed
  ultimately show ?thesis by (simp add: plain_def)
qed

lemma new_table_tree:
  assumes ok: "alloc_ok s" and ne: "avail_pages s \<noteq> {}" and get: "get_physical_page s = (q, s1)"
    and tree: "tree_ok r s" and p: "inner_path (p @ [i])" "node (mem s) r p = Some t" "\<not> present (entry (mem s) t i)"
    and f: "f AND PAGE_PRESENT \<noteq> 0" "f < 0x1000" "f AND PAGE_HUGE = 0"
  defines "s' \<equiv> set_entry t i (q OR f) (zero_table q s1)"
  shows "inner_path p' \<Longrightarrow> node (mem s') r p' = (if p' = p @ [i] then Some q else node (mem s) r p')"
    and "tree_ok r s'"
    and "k < 512 \<Longrightarrow> l < 512 \<Longrightarrow> n < 512 \<Longrightarrow> pd_slot (mem s') r (k, l, n) = pd_slot (mem s) r (k, l, n)"
proof -
  have ip: "inner_path p" and i: "i < 512" and len: "length p < 2" using p(1) by (auto simp: inner_path_def)
  note some = get_physical_page_some [OF ok ne get]
  note q = avail_page_table [OF ok some(1)]
  have tp: "table_page s u" if "inner_path p'" "node (mem s) r p' = Some u" for p' u
    using tree_okD(1) [OF tree that] .
  note ent = new_table_entries [OF ok ne get tp [OF ip p(2)] i, of _ _ "q OR f", folded s'_def]
  have upd: "entry (mem s') u j = (if u = t \<and> j = i then q OR f else entry (mem s) u j)"
    if "inner_path p'" "node (mem s) r p' = Some u" "j < 512" for p' u j
    using ent(1) tp that by blast
  have zero: "entry (mem s') q j = 0" if "j < 512" for j using ent(2) tp [OF ip p(2)] that by blast
  have v: "present (q OR f)" "table_of (q OR f) = q" using present_or [OF f(1)] table_of_new [OF q(1) f(2)] by auto
  show n: "node (mem s') r p' = (if p' = p @ [i] then Some q else node (mem s) r p')" if "inner_path p'" for p'
    using that by (rule node_new_table [OF _ p(2) ip p(3) v upd zero, rotated -1]) (use tree_okD(3) [OF tree] in blast)
  have old: "node (mem s) r (p @ [i]) = None" using p by (simp add: node_snoc)
  have fresh: "node (mem s) r p' \<noteq> Some q" if "inner_path p'" for p'
    using tp [OF that] some(1) by (auto simp: table_page_def)
  note st = new_table_state [OF ok ne get tp [OF ip p(2)] i, of "q OR f", folded s'_def]
  show "tree_ok r s'"
    unfolding tree_ok_def
  proof (intro allI impI conjI)
    fix p' u assume p': "inner_path p'" "node (mem s') r p' = Some u"
    show "table_page s' u"
      using p' n [OF p'(1)] tp [OF p'(1)] q st(2) by (auto simp: table_page_def split: if_splits)
    show "q' = p'" if "inner_path q'" "node (mem s') r q' = Some u" for q'
      using that p' n [OF p'(1)] n [OF that(1)] fresh tree_okD(3) [OF tree] by (auto split: if_splits)
    fix j :: u64 assume j: "length p' < 2" "j < 512" "present (entry (mem s') u j)"
    show "plain (entry (mem s') u j)"
    proof (cases "p' = p @ [i]")
      case True
      then have "u = q" using p' n [OF p'(1)] by simp
      with j zero show ?thesis by (simp add: present_def)
    next
      case False
      then have u: "node (mem s) r p' = Some u" using p' n [OF p'(1)] by simp
      show ?thesis
        using j upd [OF p'(1) u j(2)] plain_new [OF ok some(1) f(2,3)] tree_okD(4) [OF tree p'(1) u j(1,2)]
        by (auto split: if_splits)
    qed
  qed
  show "pd_slot (mem s') r (k, l, n) = pd_slot (mem s) r (k, l, n)" if b: "k < 512" "l < 512" "n < 512" for k l n
  proof (cases "[k, l] = p @ [i]")
    case True
    have "node (mem s) r [k, l] = None" using old True by (simp only:)
    moreover have "node (mem s') r [k, l] = Some q" unfolding True using n [OF p(1)] by simp
    ultimately show ?thesis using b zero by (simp add: pd_slot_def del: node.simps)
  next
    case False
    then have "node (mem s') r [k, l] = node (mem s) r [k, l]"
      using b n [of "[k, l]", unfolded if_not_P [OF False]] by simp
    moreover have "entry (mem s') u n = entry (mem s) u n" if u: "node (mem s) r [k, l] = Some u" for u
      using upd [OF _ u b(3)] b tree_okD(3) [OF tree ip p(2), of "[k, l]"] u len by auto
    ultimately show ?thesis using b by (simp add: pd_slot_def del: node.simps split: option.splits)
  qed
qed

lemma leaves_okD:
  assumes "leaves_ok r s" "index_ok y" "pt_link (pd_slot (mem s) r y)"
  shows "pd_slot (mem s) r y < 2 ^ 52" "table_page s (table_of (pd_slot (mem s) r y))"
    "\<And>p. inner_path p \<Longrightarrow> node (mem s) r p \<noteq> Some (table_of (pd_slot (mem s) r y))"
  using assms unfolding leaves_ok_def Let_def by blast+

lemma leaves_ok_transfer:
  assumes "leaves_ok r s" "\<And>y. index_ok y \<Longrightarrow> pt_link (pd_slot (mem s') r' y) \<Longrightarrow> pd_slot (mem s') r' y = pd_slot (mem s) r y"
    and "avail_pages s' \<subseteq> avail_pages s"
    and "\<And>p t. inner_path p \<Longrightarrow> node (mem s') r' p = Some t \<Longrightarrow> t \<in> avail_pages s \<or> (\<exists>q. inner_path q \<and> node (mem s) r q = Some t)"
  shows "leaves_ok r' s'"
  unfolding leaves_ok_def Let_def
proof (intro allI impI conjI)
  fix y assume y: "index_ok y" and l': "pt_link (pd_slot (mem s') r' y)"
  have eq: "pd_slot (mem s') r' y = pd_slot (mem s) r y" using assms(2) y l' .
  have l: "pt_link (pd_slot (mem s) r y)" using l' eq by simp
  note d = leaves_okD [OF assms(1) y l]
  show "pd_slot (mem s') r' y < 2 ^ 52" using d(1) eq by simp
  show "table_page s' (table_of (pd_slot (mem s') r' y))" using d(2) assms(3) eq by (auto simp: table_page_def)
  show "node (mem s') r' p \<noteq> Some (table_of (pd_slot (mem s') r' y))" if "inner_path p" for p
  proof
    assume "node (mem s') r' p = Some (table_of (pd_slot (mem s') r' y))"
    from assms(4) [OF that this] show False using d(2,3) eq by (auto simp: table_page_def)
  qed
qed

lemma screen_only_leaves:
  assumes "screen_only s t" "alloc_ok s" "tables_ok r s"
  shows "tables_ok r t" "keeps_pt r s t"
proof -
  have tr: "tree_ok r s" and lv: "leaves_ok r s" using assms(3) by (simp_all add: tables_ok_def)
  have "pd_slot (mem t) r y = pd_slot (mem s) r y" if "index_ok y" for y
    using that screen_only_tables(2) [OF assms(1,2) tr] by (auto simp: index_ok_def)
  then have "leaves_ok r t"
    using screen_only_avail [OF assms(1,2)] screen_only_node [OF assms(1) tr]
    by (intro leaves_ok_transfer [OF lv]) auto
  then show "tables_ok r t" using screen_only_tables(1) [OF assms(1,2) tr] by (simp add: tables_ok_def)
  show "keeps_pt r s t"
    unfolding keeps_pt_def
  proof (intro allI impI)
    fix y l assume a: "index_ok y" "l < (512 :: u64)" "pt_link (pd_slot (mem s) r y)"
    show "entry (mem t) (table_of (pd_slot (mem s) r y)) l = entry (mem s) (table_of (pd_slot (mem s) r y)) l"
      using leaves_okD(2) [OF lv a(1,3)] a(2)
      by (intro entry_agree [OF screen_only_mem [OF assms(1)]]) (auto simp: table_page_def)
  qed
qed

lemma keeps_pt_refl [simp]: "keeps_pt r s s"
  by (simp add: keeps_pt_def)

lemma keeps_pt_trans:
  assumes "keeps_pt r s t" "keeps_pt r t u" "\<And>y. index_ok y \<Longrightarrow> pd_slot (mem t) r y = pd_slot (mem s) r y"
  shows "keeps_pt r s u"
  using assms by (auto simp: keeps_pt_def)

lemma new_table_leaves:
  assumes ok: "alloc_ok s" and ne: "avail_pages s \<noteq> {}" and get: "get_physical_page s = (q, s1)"
    and tab: "tables_ok r s" and p: "inner_path (p @ [i])" "node (mem s) r p = Some t" "\<not> present (entry (mem s) t i)"
    and f: "f AND PAGE_PRESENT \<noteq> 0" "f < 0x1000" "f AND PAGE_HUGE = 0"
  defines "s' \<equiv> set_entry t i (q OR f) (zero_table q s1)"
  shows "tables_ok r s'" "keeps_pt r s s'"
proof -
  have tree: "tree_ok r s" and lv: "leaves_ok r s" using tab by (simp_all add: tables_ok_def)
  have ip: "inner_path p" and i: "i < 512" using p(1) by (auto simp: inner_path_def)
  note nt = new_table_tree [OF ok ne get tree p f, folded s'_def]
  note some = get_physical_page_some [OF ok ne get]
  have tp: "table_page s t" by (rule tree_okD(1) [OF tree ip p(2)])
  have av: "avail_pages s' \<subseteq> avail_pages s"
    using new_table_state(2) [OF ok ne get tp i, where v = "q OR f"] by (auto simp: s'_def)
  have "leaves_ok r s'"
  proof (rule leaves_ok_transfer [OF lv _ av])
    show "pd_slot (mem s') r y = pd_slot (mem s) r y" if "index_ok y" for y
      using that nt(3) by (auto simp: index_ok_def)
    show "u \<in> avail_pages s \<or> (\<exists>p. inner_path p \<and> node (mem s) r p = Some u)"
      if "inner_path p'" "node (mem s') r p' = Some u" for p' u
      using that nt(1) [OF that(1)] some(1) by (auto split: if_splits)
  qed
  with nt(2) show "tables_ok r s'" by (simp add: tables_ok_def)
  show "keeps_pt r s s'"
    unfolding keeps_pt_def s'_def
  proof (intro allI impI)
    fix y l assume a: "index_ok y" "l < (512 :: u64)" "pt_link (pd_slot (mem s) r y)"
    note d = leaves_okD [OF lv a(1,3)]
    have "table_of (pd_slot (mem s) r y) \<noteq> t" using d(3) [OF ip] p(2) by auto
    with new_table_entries(1) [OF ok ne get tp i d(2) a(2)]
    show "entry (mem (set_entry t i (q OR f) (zero_table q s1))) (table_of (pd_slot (mem s) r y)) l =
        entry (mem s) (table_of (pd_slot (mem s) r y)) l"
      by simp
  qed
qed

lemma cursor_ok_regs: "crtc_regs t = crtc_regs s \<Longrightarrow> cursor_ok t = cursor_ok s"
  by (simp add: cursor_ok_def cursor_def)

text \<open>
  The outcome of \<open>ensure_table\<close> at the table of path \<open>p\<close>: the tree and the mappings are
  kept, and unless no page was left the entry is present afterwards.
\<close>

definition ensured :: "u64 \<Rightarrow> u64 list \<Rightarrow> u64 \<Rightarrow> bool \<Rightarrow> 'a memory_scheme \<Rightarrow> 'a memory_scheme \<Rightarrow> bool" where
  "ensured r p i ok s s' \<longleftrightarrow>
     alloc_ok s' \<and> cursor_ok s' \<and> tables_ok r s' \<and> mm_only s s' \<and> keeps_pt r s s'
     \<and> (\<forall>q u. inner_path q \<longrightarrow> node (mem s) r q = Some u \<longrightarrow> node (mem s') r q = Some u)
     \<and> (\<forall>k<512. \<forall>l<512. \<forall>n<512. pd_slot (mem s') r (k, l, n) = pd_slot (mem s) r (k, l, n))
     \<and> card (avail_pages s) \<le> card (avail_pages s') + 1
     \<and> (if ok then node (mem s') r (p @ [i]) \<noteq> None else avail_pages s = {})"

lemma ensure_table_ok:
  assumes ok: "alloc_ok s" "cursor_ok s" "tables_ok r s"
    and p: "inner_path (p @ [i])" "node (mem s) r p = Some t"
    and f: "f AND PAGE_PRESENT \<noteq> 0" "f < 0x1000" "f AND PAGE_HUGE = 0" and msg: "fmt_ok msg []"
  shows "\<exists>b s'. ensure_table t i f msg s = Some (b, s') \<and> ensured r p i b s s'"
proof (cases "present (entry (mem s) t i)")
  case True
  then have "ensure_table t i f msg s = Some (True, s) \<and> ensured r p i True s s"
    using ok p by (simp add: ensure_table_def ensured_def node_snoc)
  then show ?thesis by blast
next
  case absent: False
  have tr: "tree_ok r s" using ok(3) by (simp add: tables_ok_def)
  obtain q s1 where get: "get_physical_page s = (q, s1)" by (rule prod.exhaust)
  show ?thesis
  proof (cases "avail_pages s = {}")
    case True
    then have g: "q = 0" "s1 = s" using pa.alloc_none [OF ok(1)] get by simp_all
    obtain s' where s': "DEBUGER LIGHT_RED msg [] s = Some s'" "cursor_ok s'" "screen_only s s'"
      using DEBUGER_ok [OF msg ok(2)] by blast
    note st = screen_only_tables(2) [OF s'(3) ok(1) tr] screen_only_leaves [OF s'(3) ok(1,3)] screen_only_alloc_ok [OF s'(3) ok(1)]
      screen_only_avail [OF s'(3) ok(1)] screen_only_mm_only [OF s'(3)]
    have "node (mem s') r q' = node (mem s) r q'" if "inner_path q'" for q'
      using that by (rule screen_only_node [OF s'(3) tr])
    with absent get g s' st True have "ensure_table t i f msg s = Some (False, s') \<and> ensured r p i False s s'"
      by (simp add: ensure_table_def ensured_def)
    then show ?thesis by blast
  next
    case ne: False
    let ?s' = "set_entry t i (q OR f) (zero_table q s1)"
    have q0: "q \<noteq> 0" and qa: "q \<in> avail_pages s" using get_physical_page_some [OF ok(1) ne get] by auto
    have i: "i < 512" and ip: "inner_path p" using p(1) by (auto simp: inner_path_def)
    note tree = new_table_tree(1,3) [OF ok(1) ne get tr p absent f] new_table_leaves [OF ok(1) ne get ok(3) p absent f]
    note st = new_table_state [OF ok(1) ne get tree_okD(1) [OF tr ip p(2)] i, of "q OR f"]
    have "node (mem s) r (p @ [i]) = None" using p(2) absent by (simp add: node_snoc)
    then have "ensured r p i True s ?s'"
      unfolding ensured_def using tree st p(1) ok(2) cursor_ok_regs [OF st(4)] qa by auto
    moreover have "ensure_table t i f msg s = Some (True, ?s')"
      using absent get q0 by (simp add: ensure_table_def)
    ultimately show ?thesis by blast
  qed
qed

subsection \<open>Mapping a page\<close>

lemma index_less: "x AND 0x1FF < (512 :: u64)"
proof -
  have "x AND 0x1FF = take_bit 9 x" by (simp add: take_bit_eq_mask mask_eq_exp_minus_1)
  then have "unat (x AND 0x1FF) < 512" by (simp add: take_bit_eq_mod unat_mod_distrib)
  then show ?thesis by (simp add: word_less_nat_alt)
qed

lemma index_bounds [simp]: "PML4_INDEX v < 512" "PDPT_INDEX v < 512" "PD_INDEX v < 512"
  by (simp_all add: PML4_INDEX_def PDPT_INDEX_def PD_INDEX_def index_less)

definition indices :: "u64 \<Rightarrow> u64 \<times> u64 \<times> u64" where
  "indices v = (PML4_INDEX v, PDPT_INDEX v, PD_INDEX v)"

lemma index_ok_indices [simp]: "index_ok (indices v)"
  by (simp add: index_ok_def indices_def)

lemma pd_write_tree:
  fixes v :: u64
  assumes ok: "alloc_ok s" "tree_ok r s" and ix: "i < 512" "j < 512" "k < 512"
    and pd: "node (mem s) r [i, j] = Some pd"
  defines "s' \<equiv> set_entry pd k v s"
  shows "alloc_ok s'" "tree_ok r s'" "mm_only s s'" "avail_pages s' = avail_pages s"
    and "index_ok x \<Longrightarrow> pd_slot (mem s') r x = (if x = (i, j, k) then v else pd_slot (mem s) r x)"
proof -
  have ip: "inner_path [i, j]" using ix by simp
  have tp: "table_page s u" if "inner_path p'" "node (mem s) r p' = Some u" for p' u
    using tree_okD(1) [OF ok(2) that] .
  have al: "aligned u" if "inner_path p'" "node (mem s) r p' = Some u" for p' u
    using tp [OF that] by (simp add: table_page_def)
  have "region (pd + 8 * k) 8 \<inter> bitmap_area = {}"
    using slot_region [OF al [OF ip pd] ix(3)] tp [OF ip pd] by (auto simp: table_page_def)
  from alloc_ok_write [OF ok(1) set_entry_form set_entry_agree this]
  show st: "alloc_ok s'" "avail_pages s' = avail_pages s" by (simp_all add: s'_def)
  show "mm_only s s'"
    by (rule mm_onlyI [where m = "mem s'" and u = "used_pages s" and i = "crtc_index s" and r = "crtc_regs s"])
       (simp add: s'_def set_entry_def)
  have upd: "entry (mem s') u l = (if u = pd \<and> l = k then v else entry (mem s) u l)"
    if "inner_path p'" "node (mem s) r p' = Some u" "l < 512" for p' u l
    unfolding s'_def by (rule entry_set_entry [OF al [OF ip pd] al [OF that(1,2)] ix(3) that(3)])
  have uniq: "u = pd \<longleftrightarrow> p' = [i, j]" if "inner_path p'" "node (mem s) r p' = Some u" for p' u
    using tree_okD(3) [OF ok(2) ip pd that(1)] that pd by auto
  have n: "node (mem s') r p = node (mem s) r p" if "inner_path p" for p
    by (rule node_same [OF _ that]) (use upd uniq in fastforce)
  show "tree_ok r s'"
    unfolding tree_ok_def
  proof (intro allI impI conjI)
    fix p' u assume p': "inner_path p'" "node (mem s') r p' = Some u"
    then have u: "node (mem s) r p' = Some u" using n by simp
    show "table_page s' u" using tp [OF p'(1) u] st(2) by (simp add: table_page_def)
    show "q' = p'" if "inner_path q'" "node (mem s') r q' = Some u" for q'
      using that n tree_okD(3) [OF ok(2) p'(1) u] by simp
    fix l :: u64 assume l: "length p' < 2" "l < 512" "present (entry (mem s') u l)"
    with upd [OF p'(1) u l(2)] uniq [OF p'(1) u] tree_okD(4) [OF ok(2) p'(1) u]
    show "plain (entry (mem s') u l)" by (auto split: if_splits)
  qed
  show "pd_slot (mem s') r x = (if x = (i, j, k) then v else pd_slot (mem s) r x)" if "index_ok x"
  proof -
    obtain a b c where x: "x = (a, b, c)" by (rule prod_cases3)
    with that have b: "a < 512" "b < 512" "c < 512" by (auto simp: index_ok_def)
    have na: "node (mem s') r [a, b] = node (mem s) r [a, b]" by (rule n) (simp add: b)
    show ?thesis
    proof (cases "node (mem s) r [a, b]")
      case None
      then show ?thesis using na pd x by (auto simp: pd_slot_def simp del: node.simps)
    next
      case (Some u)
      then show ?thesis
        using na upd [OF _ Some b(3)] uniq [OF _ Some] b x by (auto simp: pd_slot_def simp del: node.simps)
    qed
  qed
qed

lemma pd_write:
  fixes v :: u64
  assumes ok: "alloc_ok s" "tables_ok r s" and ix: "i < 512" "j < 512" "k < 512"
    and pd: "node (mem s) r [i, j] = Some pd" and v: "v AND PAGE_HUGE \<noteq> 0"
  defines "s' \<equiv> set_entry pd k v s"
  shows "tables_ok r s'" "keeps_pt r s s'"
proof -
  have tree: "tree_ok r s" and lv: "leaves_ok r s" using ok(2) by (simp_all add: tables_ok_def)
  note w = pd_write_tree [OF ok(1) tree ix pd, where v = v, folded s'_def]
  have ip: "inner_path [i, j]" using ix by simp
  have al: "aligned u" if "inner_path p'" "node (mem s) r p' = Some u" for p' u
    using tree_okD(2) [OF tree that] .
  have "node (mem s') r p = node (mem s) r p" if "inner_path p" for p
  proof (rule node_same [OF _ that])
    fix p' u l assume p': "inner_path p'" "length p' < 2" "node (mem s) r p' = Some u" "l < (512 :: u64)"
    have "u \<noteq> pd" using tree_okD(3) [OF tree ip pd p'(1)] p'(2,3) by auto
    then show "entry (mem s') u l = entry (mem s) u l"
      unfolding s'_def using entry_set_entry [OF al [OF ip pd] al [OF p'(1,3)] ix(3) p'(4)] by simp
  qed
  then have "leaves_ok r s'"
    using w(5) v w(4) by (intro leaves_ok_transfer [OF lv]) (auto simp: pt_link_def split: if_splits)
  with w(2) show "tables_ok r s'" by (simp add: tables_ok_def)
  show "keeps_pt r s s'"
    unfolding keeps_pt_def s'_def
  proof (intro allI impI)
    fix y l assume a: "index_ok y" "l < (512 :: u64)" "pt_link (pd_slot (mem s) r y)"
    have "table_of (pd_slot (mem s) r y) \<noteq> pd" using leaves_okD(3) [OF lv a(1,3) ip] pd by auto
    then show "entry (mem (set_entry pd k v s)) (table_of (pd_slot (mem s) r y)) l =
        entry (mem s) (table_of (pd_slot (mem s) r y)) l"
      by (simp add: entry_set_entry [OF al [OF ip pd] aligned_table_of ix(3) a(2)])
  qed
qed

lemma ensuredD:
  assumes "ensured r p i b s s'"
  shows "alloc_ok s'" "cursor_ok s'" "tables_ok r s'" "mm_only s s'"
    "inner_path q \<Longrightarrow> node (mem s) r q = Some u \<Longrightarrow> node (mem s') r q = Some u"
    "index_ok x \<Longrightarrow> pd_slot (mem s') r x = pd_slot (mem s) r x"
    "card (avail_pages s) \<le> card (avail_pages s') + 1"
    "b \<Longrightarrow> node (mem s') r (p @ [i]) \<noteq> None" "\<not> b \<Longrightarrow> avail_pages s = {}" "keeps_pt r s s'"
  using assms by (auto simp: ensured_def index_ok_def split: if_splits)

lemma node_step: "node m r p = Some t \<Longrightarrow> node m r (p @ [i]) \<noteq> None \<Longrightarrow> node m r (p @ [i]) = Some (table_of (entry m t i))"
  by (auto simp: node_snoc split: if_splits)

text \<open>
  Mapping a page updates one entry of the page directories, or, when there is no page left
  for a missing table, changes no mapping.
\<close>

definition maps_to :: "u64 \<Rightarrow> u64 \<times> u64 \<times> u64 \<Rightarrow> u64 \<Rightarrow> 'a memory_scheme \<Rightarrow> 'a memory_scheme \<Rightarrow> bool" where
  "maps_to r x e s s' \<longleftrightarrow>
     alloc_ok s' \<and> cursor_ok s' \<and> tables_ok r s' \<and> mm_only s s' \<and> keeps_pt r s s' \<and> card (avail_pages s) \<le> card (avail_pages s') + 2
     \<and> ((\<forall>y. index_ok y \<longrightarrow> pd_slot (mem s') r y = (if y = x then e else pd_slot (mem s) r y))
        \<or> (\<forall>y. index_ok y \<longrightarrow> pd_slot (mem s') r y = pd_slot (mem s) r y) \<and> card (avail_pages s) < 2)"

lemma map_path:
  assumes ok: "alloc_ok s" "cursor_ok s" "tables_ok r s"
    and f: "f AND PAGE_PRESENT \<noteq> 0" "f < 0x1000" "f AND PAGE_HUGE = 0" and msg: "fmt_ok m1 []" "fmt_ok m2 []"
    and i: "PML4_INDEX v = i" and j: "PDPT_INDEX v = j" and k: "PD_INDEX v = k"
    and he: "e AND PAGE_HUGE \<noteq> 0"
  obtains b1 s1 where "ensure_table r i f m1 s = Some (b1, s1)" "mm_only s s1"
    "\<not> b1 \<longrightarrow> maps_to r (indices v) e s s1"
    "b1 \<longrightarrow> (\<exists>b2 s2. ensure_table (table_of (entry (mem s1) r i)) j f m2 s1 = Some (b2, s2)
       \<and> maps_to r (indices v) e s
           (if b2 then set_entry (table_of (entry (mem s2) (table_of (entry (mem s1) r i)) j)) k e s2 else s2))"
proof -
  have ix: "i < 512" "j < 512" "k < 512" and iv: "indices v = (i, j, k)"
    using index_bounds [of v] by (simp_all add: i j k indices_def)
  have root: "node (mem s) r [] = Some r" by simp
  obtain b1 s1 where e1: "ensure_table r i f m1 s = Some (b1, s1)" "ensured r [] i b1 s s1"
    using ensure_table_ok [OF ok _ root f msg(1), of i] ix(1) by auto
  note d1 = ensuredD [OF e1(2)]
  show ?thesis
  proof (rule that [OF e1(1) d1(4)]; rule impI)
    show "maps_to r (indices v) e s s1" if "\<not> b1"
      using d1 that by (simp add: maps_to_def)
    assume b1: "b1"
    let ?pdpt = "table_of (entry (mem s1) r i)"
    have pdpt: "node (mem s1) r [i] = Some ?pdpt"
      using node_step [of "mem s1" r "[]" r i] d1(8) [OF b1] by simp
    obtain b2 s2 where e2: "ensure_table ?pdpt j f m2 s1 = Some (b2, s2)" "ensured r [i] j b2 s1 s2"
      using ensure_table_ok [OF d1(1,2,3) _ pdpt f msg(2), of j] ix by auto
    note d2 = ensuredD [OF e2(2)]
    have mm: "mm_only s s2" using d1(4) d2(4) by (rule mm_only_trans)
    have same: "pd_slot (mem s2) r y = pd_slot (mem s) r y" if "index_ok y" for y using d1(6) d2(6) that by simp
    have pt: "keeps_pt r s s2" by (rule keeps_pt_trans [OF d1(10) d2(10) d1(6)])
    show "\<exists>b2 s2. ensure_table ?pdpt j f m2 s1 = Some (b2, s2)
       \<and> maps_to r (indices v) e s (if b2 then set_entry (table_of (entry (mem s2) ?pdpt j)) k e s2 else s2)"
    proof (cases b2)
      case False
      then have "card (avail_pages s) < 2" "card (avail_pages s) \<le> card (avail_pages s2) + 2" using d1(7) d2(7,9) by simp_all
      with d1 d2 mm pt have "maps_to r (indices v) e s s2" by (simp add: maps_to_def)
      with e2(1) False show ?thesis by auto
    next
      case True
      let ?pd = "table_of (entry (mem s2) ?pdpt j)"
      have "node (mem s2) r [i] = Some ?pdpt" using d2(5) [OF _ pdpt] ix by simp
      from node_step [OF this] d2(8) [OF True] have pd: "node (mem s2) r [i, j] = Some ?pd" by simp
      have tr: "tree_ok r s2" using d2(3) by (simp add: tables_ok_def)
      note w = pd_write_tree [OF d2(1) tr ix pd, where v = e]
      note w' = pd_write [OF d2(1,3) ix pd he]
      have "cursor_ok (set_entry ?pd k e s2)"
        using d2(2) by (simp add: cursor_ok_def cursor_def set_entry_def)
      moreover have "card (avail_pages s) \<le> card (avail_pages (set_entry ?pd k e s2)) + 2" using d1(7) d2(7) w(4) by simp
      ultimately have "maps_to r (indices v) e s (set_entry ?pd k e s2)"
        using w(1,5) w'(1) same mm_only_trans [OF mm w(3)] keeps_pt_trans [OF pt w'(2) same]
        by (simp add: maps_to_def iv)
      with e2(1) True show ?thesis by auto
    qed
  qed
qed

lemma mm_only_kernel_pml4: "mm_only s t \<Longrightarrow> kernel_pml4 t = kernel_pml4 s"
  by (elim mm_onlyE) simp

lemma user_flags: "(PAGE_PRESENT OR PAGE_WRITABLE OR PAGE_USER) AND PAGE_PRESENT \<noteq> 0"
  "PAGE_PRESENT OR PAGE_WRITABLE OR PAGE_USER < 0x1000" "(PAGE_PRESENT OR PAGE_WRITABLE OR PAGE_USER) AND PAGE_HUGE = 0"
  by simp_all

lemma or_huge: "(p OR f OR PAGE_HUGE) AND PAGE_HUGE \<noteq> 0"
proof
  assume "(p OR f OR PAGE_HUGE) AND PAGE_HUGE = 0"
  then have "\<not> bit ((p OR f OR PAGE_HUGE) AND PAGE_HUGE) 7" by simp
  then show False unfolding bit_and_iff bit_or_iff huge_bit by simp
qed

lemma huge_183: "(0x183 :: u64) AND PAGE_HUGE \<noteq> 0"
  by simp

lemma map_page_maps:
  assumes "alloc_ok s" "cursor_ok s" "tables_ok (kernel_pml4 s) s" "kernel_pml4 s \<noteq> 0"
  shows "\<exists>s'. map_page v p f s = Some s' \<and> maps_to (kernel_pml4 s) (indices v) (p OR f OR PAGE_HUGE) s s'"
proof -
  have msg: "fmt_ok ''Failed to allocate PDPT!'' []" "fmt_ok ''Failed to allocate PD!'' []" by simp_all
  obtain b1 s1 where p: "ensure_table (kernel_pml4 s) (PML4_INDEX v) (PAGE_PRESENT OR PAGE_WRITABLE OR PAGE_USER)
        ''Failed to allocate PDPT!'' s = Some (b1, s1)" "mm_only s s1"
      "\<not> b1 \<longrightarrow> maps_to (kernel_pml4 s) (indices v) (p OR f OR PAGE_HUGE) s s1"
      "b1 \<longrightarrow> (\<exists>b2 s2. ensure_table (table_of (entry (mem s1) (kernel_pml4 s) (PML4_INDEX v))) (PDPT_INDEX v)
          (PAGE_PRESENT OR PAGE_WRITABLE OR PAGE_USER) ''Failed to allocate PD!'' s1 = Some (b2, s2)
        \<and> maps_to (kernel_pml4 s) (indices v) (p OR f OR PAGE_HUGE) s
           (if b2 then set_entry (table_of (entry (mem s2) (table_of (entry (mem s1) (kernel_pml4 s) (PML4_INDEX v)))
              (PDPT_INDEX v))) (PD_INDEX v) (p OR f OR PAGE_HUGE) s2 else s2))"
    by (rule map_path [where v = v and e = "p OR f OR PAGE_HUGE", OF assms(1-3) user_flags msg refl refl refl or_huge])
       (rule that)
  show ?thesis
    using assms(4) p(1,3,4) mm_only_kernel_pml4 [OF p(2)]
    by (cases b1) (auto simp: map_page_def Let_def)
qed

subsection \<open>The processor's view\<close>

lemma frame_mask: "(0xFFFFFFFFFF000 :: u64) = mask 52 AND NOT (mask 12)"
  by (simp add: mask_eq_exp_minus_1)

lemma frame_plain:
  assumes "e < 2 ^ 52"
  shows "e AND 0xFFFFFFFFFF000 = table_of e"
  unfolding frame_mask table_of_mask
  by (rule bit_word_eqI) (use less_bits [OF assms] in \<open>auto simp: bit_simps\<close>)

lemma frame_aligned: "e < 2 ^ 52 \<Longrightarrow> aligned e \<Longrightarrow> e AND 0xFFFFFFFFFF000 = e"
  using table_of_new [of e 0] by (simp add: frame_plain)

text \<open>
  The processor's translation depends only on the entry of the page directory and, where
  that is not a 2 MiB page, on the page table it links.
\<close>

definition translate :: "memory_bytes \<Rightarrow> u64 \<Rightarrow> u64 \<Rightarrow> u64 option" where
  "translate m e v =
     (if \<not> present e then None
      else if e AND PAGE_HUGE \<noteq> 0 then Some ((e AND 0xFFFFFFFE00000) OR (v AND 0x1FFFFF))
      else let e1 = entry m (table_of e) (drop_bit 12 v AND 0x1FF)
      in if \<not> present e1 then None else Some ((e1 AND 0xFFFFFFFFFF000) OR (v AND 0xFFF)))"

lemma page_walk_translate:
  assumes ok: "tables_ok r s" "r < 2 ^ 52"
  shows "page_walk (mem s) r v = translate (mem s) (pd_slot (mem s) r (indices v)) v"
proof -
  let ?e4 = "entry (mem s) r (PML4_INDEX v)"
  let ?e3 = "entry (mem s) (table_of ?e4) (PDPT_INDEX v)"
  let ?e2 = "entry (mem s) (table_of ?e3) (PD_INDEX v)"
  note ix = PML4_INDEX_def [of v, symmetric] PDPT_INDEX_def [of v, symmetric] PD_INDEX_def [of v, symmetric]
  have tree: "tree_ok r s" and lv: "leaves_ok r s" using ok(1) by (simp_all add: tables_ok_def)
  have root: "r AND 0xFFFFFFFFFF000 = r"
    using tree_ok_root [OF tree] ok(2) by (intro frame_aligned) (simp_all add: table_page_def)
  have e4: "plain ?e4" if "present ?e4"
    using tree_okD(4) [OF tree, of "[]" r] that by simp
  have e3: "plain ?e3" if "present ?e4" "present ?e3"
    using tree_okD(4) [OF tree, of "[PML4_INDEX v]" "table_of ?e4"] that by simp
  have slot: "pd_slot (mem s) r (indices v) = (if present ?e4 \<and> present ?e3 then ?e2 else 0)"
    by (simp add: pd_slot_def indices_def)
  have e2: "?e2 < 2 ^ 52" if "present ?e4" "present ?e3" "present ?e2" "?e2 AND PAGE_HUGE = 0"
    using leaves_okD(1) [OF lv index_ok_indices, of v] slot that by (simp add: pt_link_def)
  show ?thesis
    unfolding page_walk_def Let_def ix root slot
    using e4 e3 e2
    by (cases "present ?e4"; cases "present ?e3"; cases "present ?e2")
       (simp_all add: plain_def frame_plain translate_def present_def)
qed

lemma translate_cong:
  "(pt_link e \<Longrightarrow> entry m' (table_of e) (drop_bit 12 v AND 0x1FF) = entry m (table_of e) (drop_bit 12 v AND 0x1FF))
    \<Longrightarrow> translate m' e v = translate m e v"
  by (auto simp: translate_def pt_link_def Let_def)

lemma translate_mapped:
  assumes "p < 2 ^ 52" "p AND 0x1FFFFF = 0" "f < 0x1000" "f AND PAGE_PRESENT \<noteq> 0"
  shows "translate m (p OR f OR PAGE_HUGE) v = Some (p OR (v AND 0x1FFFFF))"
proof -
  have k: "(0xFFFFFFFE00000 :: u64) = mask 52 AND NOT (mask 21)" "(0x1FFFFF :: u64) = mask 21"
    by (simp_all add: mask_eq_exp_minus_1)
  have p21: "\<not> bit p n" if "n < 21" for n
  proof
    assume "bit p n"
    with that have "bit (p AND mask 21) n" by (simp add: bit_simps)
    with assms(2) show False by (simp add: k(2))
  qed
  have f: "bit f n \<Longrightarrow> n < 12" for n using less_bits [of f 12 n] assms(3) by simp
  have "(p OR f OR PAGE_HUGE) AND 0xFFFFFFFE00000 = p"
    unfolding k(1)
  proof (rule bit_word_eqI)
    fix n assume n: "n < LENGTH(64)"
    have "bit p n \<Longrightarrow> n < 52" "n < 21 \<Longrightarrow> \<not> bit p n" "bit f n \<Longrightarrow> n < 21"
      using less_bits [OF assms(1), of n] p21 [of n] f [of n] by auto
    with n show "bit ((p OR f OR PAGE_HUGE) AND (mask 52 AND NOT (mask 21))) n = bit p n"
      unfolding bit_and_iff bit_or_iff bit_not_iff bit_mask_iff huge_bit by auto
  qed
  moreover have "present (p OR f OR PAGE_HUGE)"
    using assms(4) by (auto simp: present_def bit_eq_iff bit_and_iff bit_or_iff)
  ultimately show ?thesis using or_huge [of p f] by (simp add: translate_def)
qed

subsection \<open>The kernel's own tables\<close>

lemma kernel_map_loop_once:
  "kernel_map_loop pdpt 0 s =
     do { (ok, s) \<leftarrow> ensure_table pdpt (PDPT_INDEX KERNEL_VIRTUAL_BASE) (PAGE_PRESENT OR PAGE_WRITABLE)
            ''Failed to allocate PD!'' s;
          Some (if ok then set_entry (table_of (entry (mem s) pdpt (PDPT_INDEX KERNEL_VIRTUAL_BASE)))
                  (PD_INDEX KERNEL_VIRTUAL_BASE) 0x183 s else s) }"
proof -
  have stop: "kernel_map_loop pdpt 0x200000 s = Some s" for s :: "'a memory_scheme"
    by (subst kernel_map_loop.simps) simp
  show ?thesis
    by (subst kernel_map_loop.simps) (auto simp: Let_def stop cong: if_cong intro!: Option.bind_cong)
qed

lemma kernel_flags: "(PAGE_PRESENT OR PAGE_WRITABLE) AND PAGE_PRESENT \<noteq> 0"
  "PAGE_PRESENT OR PAGE_WRITABLE < 0x1000" "(PAGE_PRESENT OR PAGE_WRITABLE) AND PAGE_HUGE = 0"
  by simp_all

lemma setup_kernel_mappings_maps:
  assumes "alloc_ok s" "cursor_ok s" "tables_ok r s"
  shows "\<exists>s'. setup_kernel_mappings r s = Some s' \<and> maps_to r (indices KERNEL_VIRTUAL_BASE) 0x183 s s'"
proof -
  let ?i = "PML4_INDEX KERNEL_VIRTUAL_BASE" and ?j = "PDPT_INDEX KERNEL_VIRTUAL_BASE" and ?k = "PD_INDEX KERNEL_VIRTUAL_BASE"
  have msg: "fmt_ok ''Failed to allocate kernel PDPT!'' []" "fmt_ok ''Failed to allocate PD!'' []" by simp_all
  obtain b1 s1 where p: "ensure_table r ?i (PAGE_PRESENT OR PAGE_WRITABLE) ''Failed to allocate kernel PDPT!'' s = Some (b1, s1)" "mm_only s s1"
      "\<not> b1 \<longrightarrow> maps_to r (indices KERNEL_VIRTUAL_BASE) 0x183 s s1"
      "b1 \<longrightarrow> (\<exists>b2 s2. ensure_table (table_of (entry (mem s1) r ?i)) ?j
          (PAGE_PRESENT OR PAGE_WRITABLE) ''Failed to allocate PD!'' s1 = Some (b2, s2)
        \<and> maps_to r (indices KERNEL_VIRTUAL_BASE) 0x183 s
           (if b2 then set_entry (table_of (entry (mem s2) (table_of (entry (mem s1) r ?i)) ?j)) ?k 0x183 s2 else s2))"
    by (rule map_path [where v = KERNEL_VIRTUAL_BASE and e = "0x183", OF assms kernel_flags msg refl refl refl huge_183])
       (rule that)
  show ?thesis
    using p by (cases b1) (auto simp: setup_kernel_mappings_def kernel_map_loop_once Let_def)
qed

lemma get_current_pml4_aligned [simp]: "aligned (get_current_pml4 s)"
  using aligned_table_of [of "cr3 s"] by (simp add: get_current_pml4_def table_of_def)

lemma copy_boot_entries:
  assumes "aligned q" "get_current_pml4 s \<noteq> q"
  shows "aligned u \<Longrightarrow> j < 512 \<Longrightarrow> entry (mem (copy_boot_mappings q s)) u j =
      (if u = q \<and> present (entry (mem s) (get_current_pml4 s) j) then entry (mem s) (get_current_pml4 s) j
       else entry (mem s) u j)"
    and "copy_boot_mappings q s = s\<lparr>mem := mem (copy_boot_mappings q s)\<rparr>"
    and "agree_off (region q 4096) (mem s) (mem (copy_boot_mappings q s))"
proof -
  define b where "b = get_current_pml4 s"
  define copy where "copy = (\<lambda>i (s :: 'a machine_scheme). if present (entry (mem s) b i) then set_entry q i (entry (mem s) b i) s else s)"
  define g where "g n = fold (\<lambda>i. copy (of_nat i)) [0..<n] s" for n
  have eq: "copy_boot_mappings q s = g 512"
  proof -
    have "(0::nat) < 512" by simp
    from upt_conv_Cons [OF this] have "g 512 = fold (\<lambda>i. copy (of_nat i)) [Suc 0..<512] (copy (of_nat 0) s)"
      by (simp only: g_def fold_simps)
    then show ?thesis
      unfolding semiring_1_class.of_nat_0 by (simp only: copy_boot_mappings_def Let_def copy_def b_def [symmetric] One_nat_def)
  qed
  have ent: "entry (mem (g n)) w l = (if w = q \<and> unat l < n \<and> present (entry (mem s) b l)
      then entry (mem s) b l else entry (mem s) w l)" if "n \<le> 512" "aligned w" "l < 512" for n w l
    using that
  proof (induction n arbitrary: w l)
    case (Suc n)
    have n: "unat (of_nat n :: u64) = n" using Suc.prems by (simp add: unat_of_nat)
    have n5: "(of_nat n :: u64) < 512" using Suc.prems by (simp add: word_less_nat_alt n)
    have l: "l = of_nat n \<longleftrightarrow> unat l = n" by (simp add: word_unat_eq_iff n)
    have step: "g (Suc n) = copy (of_nat n) (g n)" by (simp add: g_def)
    have bn: "entry (mem (g n)) b (of_nat n) = entry (mem s) b (of_nat n)"
      using Suc.IH [of b "of_nat n"] Suc.prems n5 assms(2) by (simp add: b_def)
    show ?case
      using Suc.IH [of w l] Suc.prems l
      by (auto simp: step copy_def bn entry_set_entry [OF assms(1) _ n5])
  qed (simp add: g_def)
  show "entry (mem (copy_boot_mappings q s)) u j =
      (if u = q \<and> present (entry (mem s) (get_current_pml4 s) j) then entry (mem s) (get_current_pml4 s) j
       else entry (mem s) u j)" if "aligned u" "j < 512"
    using ent [of 512 u j] that unat_slot(3) [OF that] by (simp add: eq b_def)
  show "copy_boot_mappings q s = s\<lparr>mem := mem (copy_boot_mappings q s)\<rparr>"
    unfolding eq g_def by (rule fold_mem_only [unfolded mem_only_def]) (simp add: copy_def set_entry_def)
  show "agree_off (region q 4096) (mem s) (mem (copy_boot_mappings q s))"
    unfolding eq g_def
  proof (rule fold_rel [where R = "\<lambda>s s'. agree_off (region q 4096) (mem s) (mem s')"])
    fix i :: nat and s :: "'a machine_scheme"
    assume "i \<in> set [0..<512]"
    then have "(of_nat i :: u64) < 512" by (simp add: word_less_nat_alt unat_of_nat)
    then show "agree_off (region q 4096) (mem s) (mem (copy (of_nat i) s))"
      using agree_off_mono [OF set_entry_agree slot_region [OF assms(1)]] by (auto simp: copy_def)
  qed (auto intro: agree_off_trans)
qed

text \<open>The copy of a root represents the same mappings.\<close>

lemma copied_root_tree:
  assumes tree: "tree_ok b s" and q: "q \<in> avail_pages s" "aligned q" "table_page s' q"
    and av: "avail_pages s' \<subseteq> avail_pages s"
    and root: "\<And>j. j < 512 \<Longrightarrow> entry (mem s') q j = (if present (entry (mem s) b j) then entry (mem s) b j else 0)"
    and rest: "\<And>p t j. inner_path p \<Longrightarrow> node (mem s) b p = Some t \<Longrightarrow> j < 512 \<Longrightarrow> entry (mem s') t j = entry (mem s) t j"
  shows "tree_ok q s'" "index_ok x \<Longrightarrow> pd_slot (mem s') q x = pd_slot (mem s) b x"
    and "inner_path p' \<Longrightarrow> node (mem s') q p' = (if p' = [] then Some q else node (mem s) b p')"
proof -
  have n: "node (mem s') q (i # p) = node (mem s) b (i # p)" if "inner_path (i # p)" for i p
    using that
  proof (induction p rule: rev_induct)
    case Nil
    then have "i < 512" by simp
    then show ?case using root [of i] by (auto simp: present_def)
  next
    case (snoc j p)
    then have "inner_path (i # p)" and "j < 512" by (auto simp: inner_path_def)
    with snoc.IH rest [of "i # p" _ j] have "node (mem s') q ((i # p) @ [j]) = node (mem s) b ((i # p) @ [j])"
      unfolding node_snoc by (auto split: option.splits)
    then show ?case by simp
  qed
  have fresh: "node (mem s) b p \<noteq> Some q" if "inner_path p" for p
    using tree_okD(1) [OF tree that] q(1) by (auto simp: table_page_def)
  show node: "node (mem s') q p = (if p = [] then Some q else node (mem s) b p)" if "inner_path p" for p
    using that n by (cases p) auto
  show "tree_ok q s'"
    unfolding tree_ok_def
  proof (intro allI impI conjI)
    fix p u assume p: "inner_path p" "node (mem s') q p = Some u"
    show "table_page s' u"
      using p node [OF p(1)] q(3) tree_okD(1) [OF tree p(1)] av by (auto simp: table_page_def split: if_splits)
    show "p' = p" if "inner_path p'" "node (mem s') q p' = Some u" for p'
      using that p node [OF p(1)] node [OF that(1)] fresh tree_okD(3) [OF tree] by (auto split: if_splits)
    fix i :: u64 assume i: "length p < 2" "i < 512" "present (entry (mem s') u i)"
    show "plain (entry (mem s') u i)"
    proof (cases "p = []")
      case True
      then have "u = q" using p(2) by simp
      with i root [OF i(2)] tree_okD(4) [OF tree, of "[]" b i] show ?thesis
        by (auto simp: present_def split: if_splits)
    next
      case False
      then have u: "node (mem s) b p = Some u" using p node [OF p(1)] by simp
      with i rest [OF p(1) u i(2)] tree_okD(4) [OF tree p(1) u i(1,2)] show ?thesis by simp
    qed
  qed
  show "pd_slot (mem s') q x = pd_slot (mem s) b x" if "index_ok x"
  proof -
    obtain k l m where x: "x = (k, l, m)" by (rule prod_cases3)
    with that have ix: "k < 512" "l < 512" "m < 512" by (auto simp: index_ok_def)
    have "node (mem s') q [k, l] = node (mem s) b [k, l]" by (rule n) (simp add: ix)
    with rest [of "[k, l]" _ m] ix x show ?thesis
      by (auto simp: pd_slot_def simp del: node.simps split: option.splits)
  qed
qed

lemma copied_root:
  assumes tab: "tables_ok b s" and q: "q \<in> avail_pages s" "aligned q" "table_page s' q"
    and av: "avail_pages s' \<subseteq> avail_pages s"
    and root: "\<And>j. j < 512 \<Longrightarrow> entry (mem s') q j = (if present (entry (mem s) b j) then entry (mem s) b j else 0)"
    and rest: "\<And>u j. table_page s u \<Longrightarrow> j < 512 \<Longrightarrow> entry (mem s') u j = entry (mem s) u j"
  shows "tables_ok q s'" "index_ok x \<Longrightarrow> pd_slot (mem s') q x = pd_slot (mem s) b x" "keeps_pt b s s'"
proof -
  have tree: "tree_ok b s" and lv: "leaves_ok b s" using tab by (simp_all add: tables_ok_def)
  have node_rest: "entry (mem s') u j = entry (mem s) u j" if "inner_path p" "node (mem s) b p = Some u" "j < 512" for p u j
    using rest [OF tree_okD(1) [OF tree that(1,2)] that(3)] .
  have cr: "tree_ok q s'" "\<And>x. index_ok x \<Longrightarrow> pd_slot (mem s') q x = pd_slot (mem s) b x"
    "\<And>p. inner_path p \<Longrightarrow> node (mem s') q p = (if p = [] then Some q else node (mem s) b p)"
    by (rule copied_root_tree [OF tree q av root node_rest]; assumption)+
  show slot: "index_ok x \<Longrightarrow> pd_slot (mem s') q x = pd_slot (mem s) b x" for x by (rule cr(2))
  have "leaves_ok q s'"
  proof (rule leaves_ok_transfer [OF lv slot av])
    show "u \<in> avail_pages s \<or> (\<exists>p. inner_path p \<and> node (mem s) b p = Some u)"
      if "inner_path p" "node (mem s') q p = Some u" for p u
      using that cr(3) [OF that(1)] q(1) by (auto split: if_splits)
  qed
  with cr(1) show "tables_ok q s'" by (simp add: tables_ok_def)
  show "keeps_pt b s s'" using rest leaves_okD(2) [OF lv] by (simp add: keeps_pt_def)
qed

text \<open>The allocator and the tables depend on memory and the allocator's variables only.\<close>

lemma alloc_view:
  assumes "mem t = mem s" "memory_map t = memory_map s" "total_pages t = total_pages s"
    "used_pages t = used_pages s" "memory_start t = memory_start s" "memory_end t = memory_end s"
  shows "alloc_ok t = alloc_ok s" "avail_pages t = avail_pages s" "tables_ok r t = tables_ok r s"
proof -
  have "page_free t = page_free s" by (simp add: fun_eq_iff page_free_def map_byte_def assms)
  then have f: "free_pages t = free_pages s" by (simp add: free_pages_def assms)
  then show "alloc_ok t = alloc_ok s" by (simp add: alloc_ok_def alloc_bounds_def assms)
  show "avail_pages t = avail_pages s" by (simp add: avail_pages_def f)
  then show "tables_ok r t = tables_ok r s"
    by (simp add: tables_ok_def tree_ok_def leaves_ok_def table_page_def assms)
qed

lemma aligned_and [simp]: "aligned r \<Longrightarrow> r AND - 0x1000 = r"
  using table_of_new [of r 0] by (simp add: table_of_def)

lemma mm_only_cr3: "mm_only s t \<Longrightarrow> cr3 t = cr3 s"
  by (elim mm_onlyE) simp

lemma mm_only_rest: "mm_only s t \<Longrightarrow> regs t = regs s \<and> paging.more t = paging.more s"
  by (elim mm_onlyE) simp

text \<open>Both ways to choose the root end alike, with \<open>current\<close> the root at the start.\<close>

definition finish_paging :: "u64 \<Rightarrow> 'a paging_scheme \<Rightarrow> 'a paging_scheme option" where
  "finish_paging current_pml4 s =
     do { s \<leftarrow> setup_kernel_mappings (kernel_pml4 s) s;
          let s = (if kernel_pml4 s \<noteq> current_pml4 then s\<lparr>cr3 := kernel_pml4 s\<rparr> else s);
          DEBUGER LIGHT_RED ''Paging initialization completed successfully'' [] s }"

definition paged :: "memory_bytes \<Rightarrow> (u64 \<times> u64 \<times> u64 \<Rightarrow> u64) \<Rightarrow> 'a paging_scheme \<Rightarrow> bool" where
  "paged m slots s \<longleftrightarrow>
     alloc_ok s \<and> cursor_ok s \<and> tables_ok (kernel_pml4 s) s \<and> get_current_pml4 s = kernel_pml4 s
     \<and> (\<forall>y. index_ok y \<longrightarrow> pd_slot (mem s) (kernel_pml4 s) y = slots y)
     \<and> (\<forall>y l. index_ok y \<longrightarrow> l < 512 \<longrightarrow> pt_link (slots y) \<longrightarrow>
          entry (mem s) (table_of (slots y)) l = entry m (table_of (slots y)) l)"

lemma finish_paging_result:
  assumes ok: "alloc_ok s" "cursor_ok s" "tables_ok (kernel_pml4 s) s" and two: "2 \<le> card (avail_pages s)"
    and cur: "get_current_pml4 s = current"
  shows "\<exists>s'. finish_paging current s = Some s' \<and> kernel_pml4 s' = kernel_pml4 s \<and> regs s' = regs s \<and> paging.more s' = paging.more s
    \<and> paged (mem s) ((pd_slot (mem s) (kernel_pml4 s))(indices KERNEL_VIRTUAL_BASE := 0x183)) s'"
proof -
  let ?r = "kernel_pml4 s"
  obtain s1 where s1: "setup_kernel_mappings ?r s = Some s1" "maps_to ?r (indices KERNEL_VIRTUAL_BASE) 0x183 s s1"
    using setup_kernel_mappings_maps [OF ok] by blast
  have d: "alloc_ok s1" "cursor_ok s1" "tables_ok ?r s1" "mm_only s s1" "keeps_pt ?r s s1"
    using s1(2) by (auto simp: maps_to_def)
  have slot: "\<And>y. index_ok y \<Longrightarrow> pd_slot (mem s1) ?r y = (if y = indices KERNEL_VIRTUAL_BASE then 0x183 else pd_slot (mem s) ?r y)"
    using s1(2) two leD unfolding maps_to_def by blast
  note k = mm_only_kernel_pml4 [OF d(4)] mm_only_cr3 [OF d(4)]
  let ?s2 = "if kernel_pml4 s1 \<noteq> current then s1\<lparr>cr3 := kernel_pml4 s1\<rparr> else s1"
  have al: "aligned ?r" using tree_ok_root [of ?r s] ok(3) by (simp add: table_page_def tables_ok_def)
  have v: "alloc_ok ?s2" "tables_ok ?r ?s2" "cursor_ok ?s2" "mem ?s2 = mem s1" "kernel_pml4 ?s2 = ?r" "get_current_pml4 ?s2 = ?r"
    using d k al cur alloc_view [of "s1\<lparr>cr3 := kernel_pml4 s1\<rparr>" s1]
    by (auto simp: cursor_ok_def cursor_def get_current_pml4_def)
  have fmt: "fmt_ok ''Paging initialization completed successfully'' []" by simp
  obtain s' where s': "DEBUGER LIGHT_RED ''Paging initialization completed successfully'' [] ?s2 = Some s'"
    "cursor_ok s'" "screen_only ?s2 s'"
    using DEBUGER_ok [OF fmt v(3)] by blast
  note mm = screen_only_mm_only [OF s'(3)]
  have "finish_paging current s = Some s'" using s1(1) s'(1) by (simp add: finish_paging_def Let_def)
  moreover have "regs s' = regs s \<and> paging.more s' = paging.more s"
    using mm_only_rest [OF d(4)] mm_only_rest [OF mm] by auto
  moreover have k': "kernel_pml4 s' = ?r" "get_current_pml4 s' = ?r"
    using mm_only_kernel_pml4 [OF mm] mm_only_cr3 [OF mm] v(5,6) by (simp_all add: get_current_pml4_def)
  moreover have "paged (mem s) ((pd_slot (mem s) ?r)(indices KERNEL_VIRTUAL_BASE := 0x183)) s'"
  proof -
    note lv = screen_only_leaves [OF s'(3) v(1,2)]
    have tr: "tree_ok ?r ?s2" using v(2) by (simp add: tables_ok_def)
    have sl: "pd_slot (mem s') ?r y = ((pd_slot (mem s) ?r)(indices KERNEL_VIRTUAL_BASE := 0x183)) y" if "index_ok y" for y
      using screen_only_tables(2) [OF s'(3) v(1) tr] slot [OF that] that v(4)
      by (cases y) (auto simp: index_ok_def)
    have pt: "entry (mem s') (table_of e) l = entry (mem s) (table_of e) l"
      if "index_ok y" "l < 512" "pt_link e" "e = ((pd_slot (mem s) ?r)(indices KERNEL_VIRTUAL_BASE := 0x183)) y" for y l e
    proof -
      have ny: "y \<noteq> indices KERNEL_VIRTUAL_BASE" using that(3,4) by (auto simp: pt_link_def)
      then have e: "e = pd_slot (mem s) ?r y" "e = pd_slot (mem ?s2) ?r y"
        using that(4) slot [OF that(1)] v(4) by simp_all
      have "entry (mem s') (table_of e) l = entry (mem ?s2) (table_of e) l"
        using lv(2) that(1-3) e(2) unfolding keeps_pt_def by metis
      also have "\<dots> = entry (mem s) (table_of e) l"
        using d(5) that(1-3) e(1) v(4) unfolding keeps_pt_def by metis
      finally show ?thesis .
    qed
    show ?thesis
      unfolding paged_def k' using s'(2) screen_only_alloc_ok [OF s'(3) v(1)] lv(1) sl pt by blast
  qed
  ultimately show ?thesis by blast
qed

lemma Init_Paging_finish:
  "Init_Paging s =
     (if get_current_pml4 s \<ge> 0x100000 \<and> get_current_pml4 s < 0x200000
      then finish_paging (get_current_pml4 s) (s\<lparr>kernel_pml4 := get_current_pml4 s\<rparr>)
      else (let (page, t) = get_physical_page s;
                t = t\<lparr>kernel_pml4 := page\<rparr>
            in if page = 0 then DEBUGER LIGHT_RED ''Failed to allocate PML4!'' [] t
               else finish_paging (get_current_pml4 s) (copy_boot_mappings page (zero_table page t))))"
  unfolding Init_Paging_def finish_paging_def Let_def by (simp add: case_prod_beta)

lemma Init_Paging_result:
  assumes ok: "alloc_ok s" "cursor_ok s" "tables_ok (get_current_pml4 s) s" and three: "3 \<le> card (avail_pages s)"
  shows "\<exists>s'. Init_Paging s = Some s' \<and> kernel_pml4 s' \<noteq> 0 \<and> kernel_pml4 s' < 2 ^ 52
    \<and> regs s' = regs s \<and> paging.more s' = paging.more s
    \<and> paged (mem s) ((pd_slot (mem s) (get_current_pml4 s))(indices KERNEL_VIRTUAL_BASE := 0x183)) s'"
proof (cases "get_current_pml4 s \<ge> 0x100000 \<and> get_current_pml4 s < 0x200000")
  case True
  let ?t = "s\<lparr>kernel_pml4 := get_current_pml4 s\<rparr>"
  have v: "alloc_ok ?t" "avail_pages ?t = avail_pages s" "tables_ok (get_current_pml4 s) ?t"
    using ok alloc_view [of ?t s] by auto
  have c: "cursor_ok ?t" "get_current_pml4 ?t = get_current_pml4 s"
    using ok(2) by (auto simp: cursor_ok_def cursor_def get_current_pml4_def)
  show ?thesis
    using finish_paging_result [of ?t "get_current_pml4 s"] v c three True
    by (auto simp: Init_Paging_finish word_le_nat_alt word_less_nat_alt)
next
  case False
  let ?b = "get_current_pml4 s"
  obtain q s1 where get: "get_physical_page s = (q, s1)" by (rule prod.exhaust)
  have ne: "avail_pages s \<noteq> {}" using three by auto
  note some = get_physical_page_some [OF ok(1) ne get]
  note al = avail_page_table [OF ok(1) some(1)]
  define t1 where "t1 = s1\<lparr>kernel_pml4 := q\<rparr>"
  define t2 where "t2 = zero_table q t1"
  define t3 where "t3 = copy_boot_mappings q t2"
  have t1: "alloc_ok t1" "avail_pages t1 = avail_pages s - {q}" "mem t1 = mem s1"
    using some(4,5) alloc_view [of t1 s1] by (simp_all add: t1_def)
  have t2: "alloc_ok t2" "avail_pages t2 = avail_pages s - {q}" "t2 = t1\<lparr>mem := mem t2\<rparr>"
    using alloc_ok_write [OF t1(1) zero_table_form zero_table_agree [OF al(1)]] al(2) t1(2) zero_table_form [of q t1]
    by (auto simp: t2_def)
  have cur2: "get_current_pml4 t2 = ?b"
    unfolding get_current_pml4_def by (subst t2(3), subst t1_def, subst some(8)) simp
  have tb: "table_page s ?b" using tree_ok_root [of ?b s] ok(3) by (simp add: tables_ok_def)
  have bq: "?b \<noteq> q" using tb some(1) by (auto simp: table_page_def)
  note cp = copy_boot_entries [OF al(1) bq [folded cur2], folded t3_def]
  have t3: "alloc_ok t3" "avail_pages t3 = avail_pages s - {q}" "t3 = t2\<lparr>mem := mem t3\<rparr>"
    using alloc_ok_write [OF t2(1) cp(2) cp(3)] al t2(2) cp(2) by auto
  have st: "kernel_pml4 t3 = q" "cursor_ok t3" "get_current_pml4 t3 = ?b" "regs t3 = regs s" "paging.more t3 = paging.more s"
  proof -
    have eq: "t3 = s\<lparr>mem := mem t3, used_pages := used_pages s + 1, kernel_pml4 := q\<rparr>"
      by (subst t3(3), subst t2(3), subst t1_def, subst some(8)) simp
    show "kernel_pml4 t3 = q" "cursor_ok t3" "get_current_pml4 t3 = ?b" "regs t3 = regs s" "paging.more t3 = paging.more s"
      using ok(2) by (subst eq, simp add: cursor_ok_def cursor_def get_current_pml4_def)+
  qed
  have old: "entry (mem s1) u j = entry (mem s) u j" if "table_page s u" "j < 512" for u j
    using that tables_disjoint [OF _ al(1), of u] some(1)
    by (intro entry_agree [OF some(7)]) (auto simp: table_page_def)
  have uq: "u \<noteq> q" "aligned u" if "table_page s u" for u
    using that some(1) by (auto simp: table_page_def)
  have ent2: "entry (mem t2) u j = (if u = q then 0 else entry (mem s1) u j)" if "aligned u" "j < 512" for u j
    using entry_zero_table [OF al(1) that, of t1] by (simp add: t2_def t1(3))
  have root: "entry (mem t3) q j = (if present (entry (mem s) ?b j) then entry (mem s) ?b j else 0)" if "j < 512" for j
    using that cp(1) [OF al(1) that] bq al(1) ent2 old [OF tb that] by (simp add: cur2)
  have rest: "entry (mem t3) u j = entry (mem s) u j" if "table_page s u" "j < 512" for u j
    using cp(1) [OF uq(2) [OF that(1)] that(2)] uq [OF that(1)] ent2 [OF uq(2) [OF that(1)] that(2)] old [OF that]
    by (simp add: cur2)
  have tq: "table_page t3 q" using al t3(2) by (simp add: table_page_def)
  have av: "avail_pages t3 \<subseteq> avail_pages s" using t3(2) by auto
  have cr: "tables_ok q t3" "\<And>x. index_ok x \<Longrightarrow> pd_slot (mem t3) q x = pd_slot (mem s) ?b x" "keeps_pt ?b s t3"
    by (rule copied_root [OF ok(3) some(1) al(1) tq av root rest]; assumption)+
  have two: "2 \<le> card (avail_pages t3)" using three some(1) t3(2) by simp
  have "tables_ok (kernel_pml4 t3) t3" using cr(1) st(1) by simp
  from finish_paging_result [OF t3(1) st(2) this two st(3)] obtain s' where
    s': "finish_paging ?b t3 = Some s'" "kernel_pml4 s' = q" "regs s' = regs s" "paging.more s' = paging.more s"
      "paged (mem t3) ((pd_slot (mem t3) q)(indices KERNEL_VIRTUAL_BASE := 0x183)) s'"
    using st(1,4,5) by auto
  have "Init_Paging s = Some s'"
    using False get some(2) s'(1) by (auto simp: Init_Paging_finish t1_def t2_def t3_def)
  moreover have "paged (mem s) ((pd_slot (mem s) ?b)(indices KERNEL_VIRTUAL_BASE := 0x183)) s'"
  proof -
    have "((pd_slot (mem t3) q)(indices KERNEL_VIRTUAL_BASE := 0x183)) y
        = ((pd_slot (mem s) ?b)(indices KERNEL_VIRTUAL_BASE := 0x183)) y" if "index_ok y" for y
      using cr(2) [OF that] by simp
    moreover have "entry (mem t3) (table_of e) l = entry (mem s) (table_of e) l"
      if "index_ok y" "l < 512" "pt_link e" "e = ((pd_slot (mem s) ?b)(indices KERNEL_VIRTUAL_BASE := 0x183)) y" for y l e
    proof -
      have "e = pd_slot (mem s) ?b y" using that(3,4) by (auto simp: pt_link_def split: if_splits)
      with cr(3) that(1-3) show ?thesis unfolding keeps_pt_def by metis
    qed
    ultimately show ?thesis using s'(5) unfolding paged_def by metis
  qed
  moreover have "q < 2 ^ 52" by (rule avail_page_small [OF ok(1) some(1)])
  ultimately show ?thesis using s'(2-4) some(2) by blast
qed

text \<open>The translations after a change of the mappings.\<close>

lemma page_walk_same:
  assumes "tables_ok r s" "tables_ok r' s'" "r < 2 ^ 52" "r' < 2 ^ 52"
    and "pd_slot (mem s') r' (indices w) = pd_slot (mem s) r (indices w)"
    and "\<And>l. l < 512 \<Longrightarrow> pt_link (pd_slot (mem s) r (indices w)) \<Longrightarrow>
      entry (mem s') (table_of (pd_slot (mem s) r (indices w))) l = entry (mem s) (table_of (pd_slot (mem s) r (indices w))) l"
  shows "page_walk (mem s') r' w = page_walk (mem s) r w"
  unfolding page_walk_translate [OF assms(1,3)] page_walk_translate [OF assms(2,4)] assms(5)
  using assms(6) [OF index_less] by (intro translate_cong) auto

lemma kernel_window:
  assumes "KERNEL_VIRTUAL_BASE \<le> w" "w < KERNEL_VIRTUAL_BASE + 0x200000"
  shows "indices w = indices KERNEL_VIRTUAL_BASE" "get_physical_address w = w AND 0x1FFFFF"
proof -
  define d where "d = w - KERNEL_VIRTUAL_BASE"
  have w: "w = KERNEL_VIRTUAL_BASE + d" by (simp add: d_def)
  have "unat d < 2 ^ 21"
    using assms by (simp add: d_def unat_sub word_le_nat_alt word_less_nat_alt)
  then have dl: "d < 2 ^ 21" by (simp add: word_less_nat_alt)
  have kb: "bit KERNEL_VIRTUAL_BASE n \<longleftrightarrow> 31 \<le> n \<and> n < 64" for n
  proof -
    have "KERNEL_VIRTUAL_BASE = NOT (mask 31)" by (simp add: mask_eq_exp_minus_1)
    then show ?thesis by (simp only: bit_not_iff bit_mask_iff) auto
  qed
  have bd: "bit d n \<Longrightarrow> n < 21" for n by (rule less_bits [OF dl])
  have "KERNEL_VIRTUAL_BASE AND d = 0"
  proof (rule bit_word_eqI)
    show "bit (KERNEL_VIRTUAL_BASE AND d) n = bit 0 n" for n
      unfolding bit_and_iff kb using bd [of n] by auto
  qed
  from disjunctive_add_eq_or [OF this] have wo: "w = KERNEL_VIRTUAL_BASE OR d" unfolding w .
  have b: "bit w n \<longleftrightarrow> (31 \<le> n \<and> n < 64) \<or> bit d n" for n unfolding wo bit_or_iff kb ..
  have sh: "drop_bit k w = drop_bit k KERNEL_VIRTUAL_BASE" if "21 \<le> k" for k
  proof (rule bit_word_eqI)
    show "bit (drop_bit k w) n = bit (drop_bit k KERNEL_VIRTUAL_BASE) n" for n
      unfolding bit_drop_bit_eq o_def b kb using bd [of "k + n"] that by auto
  qed
  then show "indices w = indices KERNEL_VIRTUAL_BASE"
    by (simp add: indices_def PML4_INDEX_def PDPT_INDEX_def PD_INDEX_def)
  have m: "(0x1FFFFF :: u64) = mask 21" by (simp add: mask_eq_exp_minus_1)
  have "w AND 0x1FFFFF = d"
  proof (rule bit_word_eqI)
    show "bit (w AND 0x1FFFFF) n = bit d n" if "n < LENGTH(64)" for n
      unfolding m bit_and_iff bit_mask_iff b using bd [of n] that by auto
  qed
  then show "get_physical_address w = w AND 0x1FFFFF" using assms by (simp add: get_physical_address_def d_def)
qed

end
