(* ===== verification/Paging_Properties.thy ===== *)
theory Paging_Properties
  imports Paging Memory_Properties
begin

text \<open>
  What the paging code promises, stated with the processor's own translation
  \<open>page_walk\<close>. The witnesses run after \<open>Init_Memory\<close>, with a cleared root table at
  \<^verbatim>\<open>0x1000\<close>, the boot loader's address for it.
\<close>

definition paging_statics :: "'a \<Rightarrow> 'a paging_scheme" where
  "paging_statics x = memory_statics (paging_ext 0 x)"

definition booted_paging :: "'a \<Rightarrow> 'a paging_scheme" where
  "booted_paging x = (booted_memory (paging_ext 0x1000 x))\<lparr>cr3 := 0x1000\<rparr>"

lemma booted_paging_simps [simp]:
  "kernel_pml4 (booted_paging x) = 0x1000" "get_current_pml4 (booted_paging x) = 0x1000"
  "alloc_ok (booted_paging x)" "cursor_ok (booted_paging x)"
  "avail_pages (booted_paging x) = page_addr ` {i. i < 0x1FF00}"
proof -
  let ?s = "booted_memory (paging_ext 0x1000 x)"
  show "kernel_pml4 (booted_paging x) = 0x1000"
    by (simp add: booted_paging_def booted_memory_def fresh_bitmap_def Let_def memory_statics_def vga_statics_def cleared_def)
  show "get_current_pml4 (booted_paging x) = 0x1000" by (simp add: booted_paging_def get_current_pml4_def)
  have v: "alloc_ok (booted_paging x) = alloc_ok ?s" "avail_pages (booted_paging x) = avail_pages ?s"
    by (rule alloc_view; simp add: booted_paging_def)+
  show "alloc_ok (booted_paging x)" by (simp add: v)
  show "avail_pages (booted_paging x) = page_addr ` {i. i < 0x1FF00}" unfolding v by (simp add: avail_pages_def)
  have "crtc_regs (booted_paging x) = crtc_regs ?s" by (simp add: booted_paging_def)
  from cursor_ok_regs [OF this] show "cursor_ok (booted_paging x)" by simp
qed

lemma tables_ok_empty:
  assumes "table_page s r" "\<And>i. i < 512 \<Longrightarrow> entry (mem s) r i = 0"
  shows "tables_ok r s"
proof -
  have n: "node (mem s) r p = (if p = [] then Some r else None)" if "inner_path p" for p
    using that assms(2) by (cases p) (auto simp: inner_path_def present_def)
  have "node (mem s) r [i, j] = None" if "i < 512" "j < 512" for i j using that n [of "[i, j]"] by simp
  then have "pd_slot (mem s) r y = 0" if "index_ok y" for y
    using that by (cases y) (simp add: pd_slot_def index_ok_def del: node.simps)
  then have "leaves_ok r s" by (simp add: leaves_ok_def pt_link_def present_def Let_def)
  moreover have "tree_ok r s"
    unfolding tree_ok_def using n assms by (auto simp: present_def split: if_splits)
  ultimately show ?thesis by (simp add: tables_ok_def)
qed

lemma booted_paging_tables: "tables_ok 0x1000 (booted_paging x)"
proof (rule tables_ok_empty)
  have b: "alloc_bounds (booted_paging x)" using booted_paging_simps(3) [of x] by (simp add: alloc_ok_def)
  have "0x1000 \<notin> avail_pages (booted_paging x)"
  proof
    assume "0x1000 \<in> avail_pages (booted_paging x)"
    then obtain i where "0x1000 = page_addr i" "i < total_pages (booted_paging x)"
      by (auto simp: avail_pages_def free_pages_def)
    with page_addr_bounds(2) [OF b, of i] show False by simp
  qed
  then show "table_page (booted_paging x) 0x1000"
    by (auto simp: table_page_def aligned_def region_iff bitmap_area_iff screen_bytes_iff)
  have ag: "agree_off (bitmap_area \<union> screen_bytes) (\<lambda>_. 0) (mem (booted_paging x))"
    using fresh_bitmap_agree [of "memory_statics (paging_ext 0x1000 x)"]
    by (simp add: booted_paging_def booted_memory_def)
  fix i :: u64 assume i: "i < 512"
  have "entry (mem (booted_paging x)) 0x1000 i = entry (\<lambda>_. 0) 0x1000 i"
    by (rule entry_agree [OF ag _ i]) (auto simp: aligned_def region_iff bitmap_area_iff screen_bytes_iff)
  then show "entry (mem (booted_paging x)) 0x1000 i = 0"
    by (simp add: entry_def read_u64_def read_u32_def read_u16_def)
qed

lemma booted_paging_card: "card (avail_pages (booted_paging x)) = 0x1FF00"
proof -
  have b: "alloc_bounds (booted_paging x)" using booted_paging_simps(3) [of x] by (simp add: alloc_ok_def)
  have t: "total_pages (booted_paging x) = 0x1FF00" by (simp add: booted_paging_def)
  have "inj_on page_addr {i. i < 0x1FF00}" using page_addr_inject [OF b] t by (auto simp: inj_on_def)
  then have "card (page_addr ` {i. i < 0x1FF00}) = card {i :: u64. i < 0x1FF00}" by (rule card_image)
  then show ?thesis by (simp add: card_word_less)
qed

lemma map_page_walk:
  assumes "alloc_ok s" "cursor_ok s" "kernel_pml4 s = r" "r \<noteq> 0" "r < 2 ^ 52" "tables_ok r s"
    and "p < 2 ^ 52" "p AND 0x1FFFFF = 0" "f < 0x1000" "f AND PAGE_PRESENT \<noteq> 0"
  shows "\<exists>s'. map_page v p f s = Some s' \<and> alloc_ok s' \<and> tables_ok r s' \<and> kernel_pml4 s' = r \<and> cursor_ok s' \<and> mm_only s s'
    \<and> card (avail_pages s) \<le> card (avail_pages s') + 2
    \<and> ((\<forall>w. page_walk (mem s') r w =
            (if indices w = indices v then Some (p OR (w AND 0x1FFFFF)) else page_walk (mem s) r w))
       \<or> card (avail_pages s) < 2 \<and> (\<forall>w. page_walk (mem s') r w = page_walk (mem s) r w))"
proof -
  let ?e = "p OR f OR PAGE_HUGE"
  obtain s' where s': "map_page v p f s = Some s'" "maps_to r (indices v) ?e s s'"
    using map_page_maps [of s v p f] assms(1-6) by auto
  have ok: "alloc_ok s'" "tables_ok r s'" "mm_only s s'" "keeps_pt r s s'" "cursor_ok s'"
    "card (avail_pages s) \<le> card (avail_pages s') + 2"
    using s'(2) by (simp_all add: maps_to_def)
  have same: "page_walk (mem s') r w = page_walk (mem s) r w"
    if "pd_slot (mem s') r (indices w) = pd_slot (mem s) r (indices w)" for w
    using ok(4) index_ok_indices [of w] unfolding keeps_pt_def
    by (intro page_walk_same [OF assms(6) ok(2) assms(5,5) that]) blast
  have new: "page_walk (mem s') r w = Some (p OR (w AND 0x1FFFFF))" if "pd_slot (mem s') r (indices w) = ?e" for w
    by (simp add: page_walk_translate [OF ok(2) assms(5)] that translate_mapped [OF assms(7-10)])
  have "kernel_pml4 s' = r" using mm_only_kernel_pml4 [OF ok(3)] assms(3) by simp
  moreover have "(\<forall>w. page_walk (mem s') r w =
            (if indices w = indices v then Some (p OR (w AND 0x1FFFFF)) else page_walk (mem s) r w))
       \<or> card (avail_pages s) < 2 \<and> (\<forall>w. page_walk (mem s') r w = page_walk (mem s) r w)"
    using s'(2) same new unfolding maps_to_def by (metis index_ok_indices)
  ultimately show ?thesis using s'(1) ok by blast
qed

text \<open>
  C10: \<open>map_page\<close> with a table root, a 2 MiB aligned physical address and flags that
  include the present bit: the processor then translates every address of the 2 MiB page
  around the virtual address to the physical page, and every other address as before; the
  tables stay a tree, the allocator stays consistent, and at most two pages are taken. Only
  when fewer than two pages were free may the call leave all translations unchanged instead.
\<close>

theorem map_page_translates:
  assumes "alloc_ok s" "cursor_ok s" "kernel_pml4 s = r" "r \<noteq> 0" "r < 2 ^ 52" "tables_ok r s"
    and "p < 2 ^ 52" "p AND 0x1FFFFF = 0" "f < 0x1000" "f AND PAGE_PRESENT \<noteq> 0"
  shows "\<exists>s'. map_page v p f s = Some s' \<and> alloc_ok s' \<and> tables_ok r s' \<and> kernel_pml4 s' = r
    \<and> card (avail_pages s) \<le> card (avail_pages s') + 2
    \<and> ((\<forall>w. page_walk (mem s') r w =
            (if indices w = indices v then Some (p OR (w AND 0x1FFFFF)) else page_walk (mem s) r w))
       \<or> card (avail_pages s) < 2 \<and> (\<forall>w. page_walk (mem s') r w = page_walk (mem s) r w))"
  using map_page_walk [OF assms] by blast

theorem map_page_translates_witness:
  "\<exists>s'. map_page 0x40000000 0x600000 3 (booted_paging ()) = Some s'
    \<and> page_walk (mem s') 0x1000 0x40000123 = Some 0x600123"
proof -
  have "\<exists>s'. map_page 0x40000000 0x600000 3 (booted_paging ()) = Some s' \<and> alloc_ok s' \<and> tables_ok 0x1000 s'
    \<and> kernel_pml4 s' = 0x1000 \<and> card (avail_pages (booted_paging ())) \<le> card (avail_pages s') + 2
    \<and> ((\<forall>w. page_walk (mem s') 0x1000 w =
            (if indices w = indices 0x40000000 then Some (0x600000 OR (w AND 0x1FFFFF))
             else page_walk (mem (booted_paging ())) 0x1000 w))
       \<or> card (avail_pages (booted_paging ())) < 2
         \<and> (\<forall>w. page_walk (mem s') 0x1000 w = page_walk (mem (booted_paging ())) 0x1000 w))"
    by (rule map_page_translates) (simp_all add: booted_paging_tables)
  moreover have "indices 0x40000123 = indices 0x40000000"
    by (simp add: indices_def PML4_INDEX_def PDPT_INDEX_def PD_INDEX_def)
  ultimately show ?thesis unfolding booted_paging_card by auto
qed

lemma Init_Paging_walk:
  assumes "alloc_ok s" "cursor_ok s" "tables_ok (get_current_pml4 s) s" "get_current_pml4 s < 2 ^ 52"
    and "3 \<le> card (avail_pages s)"
  shows "\<exists>s'. Init_Paging s = Some s' \<and> alloc_ok s' \<and> cursor_ok s' \<and> tables_ok (kernel_pml4 s') s'
    \<and> kernel_pml4 s' \<noteq> 0 \<and> get_current_pml4 s' = kernel_pml4 s'
    \<and> (\<forall>w. indices w \<noteq> indices KERNEL_VIRTUAL_BASE \<longrightarrow>
          page_walk (mem s') (kernel_pml4 s') w = page_walk (mem s) (get_current_pml4 s) w)
    \<and> (\<forall>w. KERNEL_VIRTUAL_BASE \<le> w \<and> w < KERNEL_VIRTUAL_BASE + 0x200000 \<longrightarrow>
          page_walk (mem s') (kernel_pml4 s') w = Some (get_physical_address w))"
proof -
  let ?b = "get_current_pml4 s"
  let ?f = "(pd_slot (mem s) ?b)(indices KERNEL_VIRTUAL_BASE := 0x183)"
  obtain s' where s': "Init_Paging s = Some s'" "kernel_pml4 s' \<noteq> 0" "kernel_pml4 s' < 2 ^ 52" "paged (mem s) ?f s'"
    using Init_Paging_result [OF assms(1-3,5)] by blast
  have ok: "alloc_ok s'" "cursor_ok s'" "tables_ok (kernel_pml4 s') s'" "get_current_pml4 s' = kernel_pml4 s'"
    and sl: "\<And>y. index_ok y \<Longrightarrow> pd_slot (mem s') (kernel_pml4 s') y = ?f y"
    and pt: "\<And>y l. index_ok y \<Longrightarrow> l < 512 \<Longrightarrow> pt_link (?f y) \<Longrightarrow>
      entry (mem s') (table_of (?f y)) l = entry (mem s) (table_of (?f y)) l"
    using s'(4) unfolding paged_def by blast+
  have "page_walk (mem s') (kernel_pml4 s') w = page_walk (mem s) ?b w"
    if "indices w \<noteq> indices KERNEL_VIRTUAL_BASE" for w
    using that sl [of "indices w"] pt [of "indices w"]
    by (intro page_walk_same [OF assms(3) ok(3) assms(4) s'(3)]) auto
  moreover have "page_walk (mem s') (kernel_pml4 s') w = Some (get_physical_address w)"
    if "KERNEL_VIRTUAL_BASE \<le> w" "w < KERNEL_VIRTUAL_BASE + 0x200000" for w
    unfolding page_walk_translate [OF ok(3) s'(3)] kernel_window(1) [OF that] sl [OF index_ok_indices]
    using kernel_window(2) [OF that] by (simp add: translate_def present_def)
  ultimately show ?thesis using s'(1,2) ok by blast
qed

text \<open>
  C19: \<open>Init_Paging\<close>, from well-formed tables at the current root and with three free
  pages: the new root is in \<^verbatim>\<open>cr3\<close> and in \<^verbatim>\<open>kernel_pml4\<close>, the first 2 MiB of physical
  memory appear at the kernel's virtual base exactly as \<open>get_physical_address\<close> says,
  and every other translation is the one of the boot loader's tables.
\<close>

theorem Init_Paging_correct:
  assumes "alloc_ok s" "cursor_ok s" "tables_ok (get_current_pml4 s) s" "get_current_pml4 s < 2 ^ 52"
    and "3 \<le> card (avail_pages s)"
  shows "\<exists>s'. Init_Paging s = Some s' \<and> alloc_ok s' \<and> cursor_ok s' \<and> tables_ok (kernel_pml4 s') s'
    \<and> kernel_pml4 s' \<noteq> 0 \<and> get_current_pml4 s' = kernel_pml4 s'
    \<and> (\<forall>w. indices w \<noteq> indices KERNEL_VIRTUAL_BASE \<longrightarrow>
          page_walk (mem s') (kernel_pml4 s') w = page_walk (mem s) (get_current_pml4 s) w)
    \<and> (\<forall>w. KERNEL_VIRTUAL_BASE \<le> w \<and> w < KERNEL_VIRTUAL_BASE + 0x200000 \<longrightarrow>
          page_walk (mem s') (kernel_pml4 s') w = Some (get_physical_address w))"
  by (rule Init_Paging_walk [OF assms])

theorem Init_Paging_correct_witness:
  "\<exists>s'. Init_Paging (booted_paging ()) = Some s'
    \<and> page_walk (mem s') (kernel_pml4 s') 0xFFFFFFFF80010000 = Some 0x10000"
proof -
  let ?s = "booted_paging ()"
  have "3 \<le> card (avail_pages ?s)" unfolding booted_paging_card by simp
  moreover have "tables_ok (get_current_pml4 ?s) ?s" by (simp add: booted_paging_tables)
  ultimately show ?thesis
    using Init_Paging_correct [of ?s] by (auto simp: get_physical_address_def)
qed

text \<open>
  \<open>enable_paging\<close> returns with the PAE, LME and PG bits set, but it also sets every
  bit of the upper half of \<^verbatim>\<open>cr0\<close> (the constant \<^verbatim>\<open>1 << 31\<close> is sign-extended), which
  the processor reserves, and clears the upper half of \<^verbatim>\<open>EFER\<close>.
\<close>

lemma enable_paging_bits:
  assumes "cursor_ok s"
  shows "\<exists>s'. enable_paging s = Some s' \<and> bit (cr4 s') 5 \<and> bit (msr s' 0xC0000080) 8 \<and> bit (cr0 s') 31
    \<and> (\<forall>n. 32 \<le> n \<and> n < 64 \<longrightarrow> bit (cr0 s') n) \<and> drop_bit 32 (msr s' 0xC0000080) = 0"
proof -
  define efer where "efer = (rdmsr_rax 0xC0000080 (s\<lparr>cr4 := cr4 s OR push_bit 5 1\<rparr>) OR push_bit 8 1)"
  define t where "t = (wrmsr 0xC0000080 (efer AND 0xFFFFFFFF) (drop_bit 32 efer) (s\<lparr>cr4 := cr4 s OR push_bit 5 1\<rparr>))
    \<lparr>cr0 := cr0 s OR scast (push_bit 31 1 :: 32 word)\<rparr>"
  have eq: "enable_paging s = DEBUGER LIGHT_GREEN ''Paging verified and enabled'' [] t"
    by (simp add: enable_paging_def Let_def t_def efer_def wrmsr_def rdmsr_rax_def)
  have m32: "(0xFFFFFFFF :: u64) = mask 32" by (simp add: mask_eq_exp_minus_1)
  have be: "bit efer n \<longleftrightarrow> n < 32 \<and> (bit (msr s 0xC0000080) n \<or> n = 8)" for n
    unfolding efer_def rdmsr_rax_def m32 bit_or_iff bit_and_iff bit_mask_iff bit_push_bit_iff bit_1_iff by auto
  have c0: "bit (cr0 t) n \<longleftrightarrow> bit (cr0 s) n \<or> (31 \<le> n \<and> n < 64)" for n
  proof -
    have "(scast (push_bit 31 1 :: 32 word) :: u64) = NOT (mask 31)" by (simp add: mask_eq_exp_minus_1)
    then have "cr0 t = cr0 s OR NOT (mask 31)" by (simp add: t_def)
    then show ?thesis by (simp only: bit_or_iff bit_not_iff bit_mask_iff) auto
  qed
  have ms: "msr t 0xC0000080 = efer"
  proof (rule bit_word_eqI)
    show "bit (msr t 0xC0000080) n = bit efer n" if "n < LENGTH(64)" for n
      using be [of n] be [of "32 + (n - 32)"]
      by (auto simp: t_def wrmsr_def m32 bit_simps)
  qed
  have cr4: "bit (cr4 t) 5" by (simp add: t_def wrmsr_def bit_or_iff bit_push_bit_iff)
  have cur: "cursor_ok t" using assms by (simp add: t_def wrmsr_def cursor_ok_def cursor_def)
  have fmt: "fmt_ok ''Paging verified and enabled'' []" by simp
  obtain s' where s': "DEBUGER LIGHT_GREEN ''Paging verified and enabled'' [] t = Some s'" "screen_only t s'"
    using DEBUGER_ok [OF fmt cur] by blast
  from s'(2) have "cr0 s' = cr0 t" "cr4 s' = cr4 t" "msr s' = msr t" by (auto elim!: screen_onlyE)
  moreover have "drop_bit 32 efer = 0" by (rule bit_word_eqI) (simp add: bit_drop_bit_eq be)
  ultimately show ?thesis using s'(1) eq cr4 c0 ms be by auto
qed

subsection \<open>Writes off the tables\<close>

text \<open>The bytes of the tables below a root: as long as they stay, so do all translations.\<close>

definition table_bytes :: "u64 \<Rightarrow> memory_bytes \<Rightarrow> u64 set" where
  "table_bytes r m = {x. \<exists>p t. inner_path p \<and> node m r p = Some t \<and> x \<in> region t 4096}
     \<union> {x. \<exists>y. index_ok y \<and> pt_link (pd_slot m r y) \<and> x \<in> region (table_of (pd_slot m r y)) 4096}"

lemma table_bytes_entry:
  assumes "tables_ok r s" "\<forall>x \<in> table_bytes r (mem s). m x = mem s x" "i < 512"
  shows "inner_path p \<Longrightarrow> node (mem s) r p = Some t \<Longrightarrow> entry m t i = entry (mem s) t i"
    and "index_ok y \<Longrightarrow> pt_link (pd_slot (mem s) r y) \<Longrightarrow>
      entry m (table_of (pd_slot (mem s) r y)) i = entry (mem s) (table_of (pd_slot (mem s) r y)) i"
proof -
  have e: "entry m t i = entry (mem s) t i" if "aligned t" "region t 4096 \<subseteq> table_bytes r (mem s)" for t
    unfolding entry_def using slot_region [OF that(1) assms(3)] that(2) assms(2) by (intro read_u64_cong) blast
  show "entry m t i = entry (mem s) t i" if "inner_path p" "node (mem s) r p = Some t"
    using that tree_okD(1) [of r s p t] assms(1) by (intro e) (auto simp: table_bytes_def tables_ok_def table_page_def)
  show "entry m (table_of (pd_slot (mem s) r y)) i = entry (mem s) (table_of (pd_slot (mem s) r y)) i"
    if "index_ok y" "pt_link (pd_slot (mem s) r y)"
    using that unfolding table_bytes_def by (intro e [unfolded table_bytes_def] aligned_table_of) blast
qed

lemma tables_same:
  fixes s t :: "'a memory_scheme"
  assumes "tables_ok r s" "\<forall>x \<in> table_bytes r (mem s). mem t x = mem s x" "avail_pages t \<subseteq> avail_pages s"
  shows "tables_ok r t" "r < 2 ^ 52 \<Longrightarrow> page_walk (mem t) r v = page_walk (mem s) r v"
proof -
  have tr: "tree_ok r s" and lv: "leaves_ok r s" using assms(1) by (simp_all add: tables_ok_def)
  note e = table_bytes_entry [OF assms(1,2)]
  have n: "node (mem t) r p = node (mem s) r p" if "inner_path p" for p
    using that e(1) by (intro node_same) auto
  note c = tree_ok_cong [OF tr e(1) assms(3)]
  have sl: "pd_slot (mem t) r y = pd_slot (mem s) r y" if "index_ok y" for y
    using that c(2) by (auto simp: index_ok_def)
  have "leaves_ok r t" using sl n assms(3) by (intro leaves_ok_transfer [OF lv]) auto
  then show ok: "tables_ok r t" using c(1) by (simp add: tables_ok_def)
  show "page_walk (mem t) r v = page_walk (mem s) r v" if "r < 2 ^ 52"
    using page_walk_same [OF assms(1) ok that that] sl e(2) by simp
qed

lemma tables_off:
  assumes "alloc_ok s" "tables_ok r s"
  shows "table_bytes r (mem s) \<inter> (bitmap_area \<union> screen_bytes \<union> (\<Union>p \<in> avail_pages s. region p 4096)) = {}"
proof -
  have "region t 4096 \<inter> (bitmap_area \<union> screen_bytes \<union> (\<Union>p \<in> avail_pages s. region p 4096)) = {}" if "table_page s t" for t
  proof -
    have "region t 4096 \<inter> region p 4096 = {}" if "p \<in> avail_pages s" for p
      using tables_disjoint [of t p] avail_page_table(1) [OF assms(1) that] \<open>table_page s t\<close> that by (auto simp: table_page_def)
    then show ?thesis using that by (auto simp: table_page_def)
  qed
  then show ?thesis
    using tree_okD(1) [of r s] leaves_okD(2) [of r s] assms(2) unfolding tables_ok_def table_bytes_def by blast
qed

end
