(* ===== verification/Idt.thy ===== *)
theory Idt
  imports Paging
begin

text \<open>
  The interrupt descriptor table, \<^verbatim>\<open>kernel/idt.c\<close> and \<^verbatim>\<open>include/idt.h\<close>. The table is a
  list of 256 entries with the fields of the packed structure; its address, which the
  linker chooses, is a parameter. \<open>gate_offset\<close> is the address the processor jumps to.
\<close>

subsection \<open>Model\<close>

record IDTEntry =
  offset_low :: u16
  selector :: u16
  ist :: u8
  type_attr :: u8
  offset_mid :: u16
  offset_high :: u32
  zero :: u32

abbreviation IDT_ENTRIES :: nat where "IDT_ENTRIES \<equiv> 256"
abbreviation IDT_TYPE_INTERRUPT :: u8 where "IDT_TYPE_INTERRUPT \<equiv> 0x8E"

text \<open>\<^verbatim>\<open>sizeof(IDTEntry)\<close>: the structure is packed.\<close>

definition sizeof_IDTEntry :: nat where
  "sizeof_IDTEntry = 2 + 2 + 1 + 1 + 2 + 4 + 4"

record IDTPointer =
  limit :: u16
  base :: u64

record idt_state = paging +
  idt :: "IDTEntry list"
  idt_ptr :: IDTPointer

definition idt_set_entry :: "u8 \<Rightarrow> u64 \<Rightarrow> u16 \<Rightarrow> u8 \<Rightarrow> 'a idt_state_scheme \<Rightarrow> 'a idt_state_scheme" where
  "idt_set_entry index offset sel ta s =
     s\<lparr>idt := (idt s)[unat index :=
       (idt s ! unat index)
         \<lparr>offset_low := ucast (offset AND 0xFFFF), selector := sel, ist := 0, type_attr := ta,
          offset_mid := ucast (drop_bit 16 offset AND 0xFFFF),
          offset_high := ucast (drop_bit 32 offset AND 0xFFFFFFFF), zero := 0\<rparr>]\<rparr>"

definition Init_IDT :: "u64 \<Rightarrow> 'a idt_state_scheme \<Rightarrow> 'a idt_state_scheme option" where
  "Init_IDT idt_addr s =
     (let s = s\<lparr>idt_ptr := \<lparr>limit = of_nat (IDT_ENTRIES * sizeof_IDTEntry) - 1, base = idt_addr\<rparr>\<rparr>;
          s = fold (\<lambda>i. idt_set_entry (of_nat i) 0 0 0) [0..<IDT_ENTRIES] s;
          s = s\<lparr>idtr := (limit (idt_ptr s), base (idt_ptr s))\<rparr>
      in DEBUGER LIGHT_RED ''IDT initialized at: 0x%x'' [VInt idt_addr] s)"

subsection \<open>The processor's reading of a gate\<close>

definition gate_offset :: "IDTEntry \<Rightarrow> u64" where
  "gate_offset e = (ucast (offset_low e) OR push_bit 16 (ucast (offset_mid e)) OR push_bit 32 (ucast (offset_high e)))"

definition gate :: "u64 \<Rightarrow> u16 \<Rightarrow> u8 \<Rightarrow> IDTEntry" where
  "gate offset sel ta =
     \<lparr>offset_low = ucast (offset AND 0xFFFF), selector = sel, ist = 0, type_attr = ta,
      offset_mid = ucast (drop_bit 16 offset AND 0xFFFF),
      offset_high = ucast (drop_bit 32 offset AND 0xFFFFFFFF), zero = 0\<rparr>"

lemma IDTEntry_update_all:
  "e\<lparr>offset_low := a, selector := b, ist := c, type_attr := d, offset_mid := f, offset_high := g, zero := h\<rparr> =
      \<lparr>offset_low = a, selector = b, ist = c, type_attr = d, offset_mid = f, offset_high = g, zero = h\<rparr>"
  for e :: IDTEntry by (cases e) simp

lemma idt_set_entry_eq:
  "idt_set_entry i offset sel ta s = s\<lparr>idt := (idt s)[unat i := gate offset sel ta]\<rparr>"
  unfolding idt_set_entry_def gate_def IDTEntry_update_all ..

lemma gate_offset_gate: "gate_offset (gate offset sel ta) = offset"
proof (rule bit_word_eqI)
  fix n assume n: "n < LENGTH(64)"
  have m: "(0xFFFF :: u64) = mask 16" "(0xFFFFFFFF :: u64) = mask 32" by (simp_all add: mask_eq_exp_minus_1)
  show "bit (gate_offset (gate offset sel ta)) n = bit offset n"
    using n by (cases "n < 16"; cases "n < 32") (auto simp: gate_offset_def gate_def m bit_simps)
qed

lemma gate_fields [simp]:
  "selector (gate off sel ta) = sel" "type_attr (gate off sel ta) = ta" "ist (gate off sel ta) = 0"
  by (simp_all add: gate_def)

text \<open>A run of calls of \<open>idt_set_entry\<close> at consecutive vectors.\<close>

lemma idt_set_run:
  assumes "a + n \<le> 256" "length (idt s) = 256"
  shows "fold (\<lambda>i. idt_set_entry (of_nat (a + i)) (f i) sel ta) [0..<n] s =
    s\<lparr>idt := map (\<lambda>v. if a \<le> v \<and> v < a + n then gate (f (v - a)) sel ta else idt s ! v) [0..<256]\<rparr>"
  using assms(1)
proof (induction n)
  case 0
  have "map (\<lambda>v. if a \<le> v \<and> v < a + 0 then gate (f (v - a)) sel ta else idt s ! v) [0..<256] = idt s"
    using assms(2) by (intro nth_equalityI) auto
  then show ?case by simp
next
  case (Suc n)
  have i: "unat (of_nat (a + n) :: u8) = a + n" using Suc.prems by (simp add: unat_of_nat del: of_nat_add)
  have "(map (\<lambda>v. if a \<le> v \<and> v < a + n then gate (f (v - a)) sel ta else idt s ! v) [0..<256])
      [a + n := gate (f n) sel ta]
    = map (\<lambda>v. if a \<le> v \<and> v < a + Suc n then gate (f (v - a)) sel ta else idt s ! v) [0..<256]"
    using Suc.prems by (intro nth_equalityI) (auto simp: nth_list_update)
  then show ?case using Suc i by (simp add: idt_set_entry_eq del: of_nat_add)
qed

lemma idt_cleared:
  assumes "length (idt s) = 256"
  shows "fold (\<lambda>i. idt_set_entry (of_nat i) 0 0 0) [0..<256] s = s\<lparr>idt := replicate 256 (gate 0 0 0)\<rparr>"
proof -
  have "map (\<lambda>v. if v < 256 then gate 0 0 0 else idt s ! v) [0..<256] = replicate 256 (gate 0 0 0)"
    by (intro nth_equalityI) auto
  with idt_set_run [of 0 256 s "\<lambda>_. 0" 0 0] assms show ?thesis by simp
qed

lemma cursor_ok_idt [simp]:
  "cursor_ok (s\<lparr>idt := t\<rparr>) = cursor_ok s" "cursor_ok (s\<lparr>idt_ptr := p\<rparr>) = cursor_ok s"
  "cursor_ok (s\<lparr>idtr := r\<rparr>) = cursor_ok s"
  by (simp_all add: cursor_ok_def cursor_def)

text \<open>
  \<open>Init_IDT\<close> clears all 256 gates and loads the table's address and its limit 4095.
\<close>

lemma Init_IDT_result:
  assumes "cursor_ok s" "length (idt s) = 256"
  shows "\<exists>s'. Init_IDT addr s = Some s' \<and> cursor_ok s'
    \<and> screen_only (s\<lparr>idt_ptr := \<lparr>limit = 4095, base = addr\<rparr>, idt := replicate 256 (gate 0 0 0), idtr := (4095, addr)\<rparr>) s'"
proof -
  let ?t = "s\<lparr>idt_ptr := \<lparr>limit = 4095, base = addr\<rparr>, idt := replicate 256 (gate 0 0 0), idtr := (4095, addr)\<rparr>"
  let ?p = "s\<lparr>idt_ptr := \<lparr>limit = 4095, base = addr\<rparr>\<rparr>"
  have lim: "of_nat (IDT_ENTRIES * sizeof_IDTEntry) - 1 = (4095 :: u16)" by (simp add: sizeof_IDTEntry_def)
  have "fold (\<lambda>i. idt_set_entry (of_nat i) 0 0 0) [0..<256] ?p = ?p\<lparr>idt := replicate 256 (gate 0 0 0)\<rparr>"
    by (rule idt_cleared) (simp add: assms(2))
  then have eq: "Init_IDT addr s = DEBUGER LIGHT_RED ''IDT initialized at: 0x%x'' [VInt addr] ?t"
    unfolding Init_IDT_def Let_def lim by simp
  have fmt: "fmt_ok ''IDT initialized at: 0x%x'' [VInt addr]" by simp
  have "cursor_ok ?t" using assms(1) by simp
  then show ?thesis unfolding eq by (rule DEBUGER_ok [OF fmt])
qed

end
