(* ===== verification/Isr.thy ===== *)
theory Isr
  imports Idt
begin

text \<open>
  Exceptions, \<^verbatim>\<open>kernel/isr.c\<close>, \<^verbatim>\<open>include/isr.h\<close> and the entry stubs of
  \<^verbatim>\<open>kernel/isr_.asm\<close> and \<^verbatim>\<open>kernel/irq_.asm\<close>. The handler reads the interrupt frame
  through its pointer each time, as the code does. The addresses of the 32 assembly entry
  points are a parameter. The stubs are modelled instruction by instruction around an
  arbitrary C handler.
\<close>

subsection \<open>Model of the handler\<close>

record InterruptFrame =
  f_r15 :: u64  f_r14 :: u64  f_r13 :: u64  f_r12 :: u64
  f_r11 :: u64  f_r10 :: u64  f_r9 :: u64  f_r8 :: u64
  f_rdi :: u64  f_rsi :: u64  f_rbp :: u64  f_rdx :: u64  f_rcx :: u64  f_rbx :: u64  f_rax :: u64
  interrupt_number :: u64  error_code :: u64
  f_rip :: u64  f_cs :: u64  f_rflags :: u64  f_rsp :: u64  f_ss :: u64

text \<open>\<^verbatim>\<open>*frame\<close>: 22 eight-byte fields in the order of the structure.\<close>

definition read_frame :: "memory_bytes \<Rightarrow> u64 \<Rightarrow> InterruptFrame" where
  "read_frame m a =
     (let w = (\<lambda>k. read_u64 m (a + 8 * k))
      in \<lparr>f_r15 = w 0, f_r14 = w 1, f_r13 = w 2, f_r12 = w 3, f_r11 = w 4, f_r10 = w 5, f_r9 = w 6, f_r8 = w 7,
          f_rdi = w 8, f_rsi = w 9, f_rbp = w 10, f_rdx = w 11, f_rcx = w 12, f_rbx = w 13, f_rax = w 14,
          interrupt_number = w 15, error_code = w 16,
          f_rip = w 17, f_cs = w 18, f_rflags = w 19, f_rsp = w 20, f_ss = w 21\<rparr>)"

definition exception_messages :: "string list" where
  "exception_messages =
     [''Division By Zero'', ''Debug'', ''Non Maskable Interrupt'', ''Breakpoint'', ''Into Detected Overflow'',
      ''Out of Bounds'', ''Invalid Opcode'', ''No Coprocessor'', ''Double Fault'', ''Coprocessor Segment Overrun'',
      ''Bad TSS'', ''Segment Not Present'', ''Stack Fault'', ''General Protection Fault'', ''Page Fault'',
      ''Unknown Interrupt'', ''Coprocessor Fault'', ''Alignment Check'', ''Machine Check'',
      ''Reserved'', ''Reserved'', ''Reserved'', ''Reserved'', ''Reserved'', ''Reserved'', ''Reserved'',
      ''Reserved'', ''Reserved'', ''Reserved'', ''Reserved'', ''Reserved'', ''Reserved'']"

definition exception_message :: "u64 \<Rightarrow> string option" where
  "exception_message n =
     (if unat n < length exception_messages then Some (exception_messages ! unat n) else None)"

definition isr_handler :: "u64 \<Rightarrow> 'a vga_scheme \<Rightarrow> 'a vga_scheme option" where
  "isr_handler frame s =
     do { s \<leftarrow> kprintf (CHR 0x0A # ''=== EXCEPTION ==='' @ [CHR 0x0A]) [] s;
          message \<leftarrow> exception_message (interrupt_number (read_frame (mem s) frame));
          s \<leftarrow> kprintf (''Exception: %s'' @ [CHR 0x0A]) [VStr (lit message)] s;
          s \<leftarrow> kprintf (''Error Code: 0x%x'' @ [CHR 0x0A]) [VInt (error_code (read_frame (mem s) frame))] s;
          s \<leftarrow> kprintf (''RIP: 0x%x'' @ [CHR 0x0A]) [VInt (f_rip (read_frame (mem s) frame))] s;
          s \<leftarrow> kprintf (''CS: 0x%x'' @ [CHR 0x0A]) [VInt (f_cs (read_frame (mem s) frame))] s;
          s \<leftarrow> kprintf (''RFLAGS: 0x%x'' @ [CHR 0x0A]) [VInt (f_rflags (read_frame (mem s) frame))] s;
          s \<leftarrow> kprintf (''================'' @ [CHR 0x0A]) [] s;
          let number = interrupt_number (read_frame (mem s) frame);
          if number = 8 \<or> number = 13 \<or> number = 14 then
            do { let fault_address = cr2 s;
                 s \<leftarrow> kprintf (''Page Fault at address: 0x%x'' @ [CHR 0x0A]) [VInt fault_address] s;
                 s \<leftarrow> kprintf (''Error Code: 0x%x'' @ [CHR 0x0A]) [VInt (error_code (read_frame (mem s) frame))] s;
                 if error_code (read_frame (mem s) frame) AND 0x1 \<noteq> 0
                 then kprintf (''Cause: Page protection violation'' @ [CHR 0x0A]) [] s
                 else kprintf (''Cause: Page not present'' @ [CHR 0x0A]) [] s }
          else Some s }"

definition Init_ISR :: "(nat \<Rightarrow> u64) \<Rightarrow> 'a idt_state_scheme \<Rightarrow> 'a idt_state_scheme option" where
  "Init_ISR isr s =
     (let s = fold (\<lambda>i. idt_set_entry (of_nat i) (isr i) 0x08 0x8E) [0..<32] s
      in DEBUGER LIGHT_RED ''ISR initialized - %d exception handlers registered'' [VInt 32] s)"

subsection \<open>Model of the entry stubs\<close>

definition set_reg :: "reg \<Rightarrow> u64 \<Rightarrow> 'a machine_scheme \<Rightarrow> 'a machine_scheme" where
  "set_reg r v s = s\<lparr>regs := (regs s)(r := v)\<rparr>"

definition set_seg :: "sreg \<Rightarrow> u16 \<Rightarrow> 'a machine_scheme \<Rightarrow> 'a machine_scheme" where
  "set_seg r v s = s\<lparr>segs := (segs s)(r := v)\<rparr>"

definition push_val :: "u64 \<Rightarrow> 'a machine_scheme \<Rightarrow> 'a machine_scheme" where
  "push_val v s =
     (let s = set_reg RSP (regs s RSP - 8) s in s\<lparr>mem := write_u64 (mem s) (regs s RSP) v\<rparr>)"

definition push_reg :: "reg \<Rightarrow> 'a machine_scheme \<Rightarrow> 'a machine_scheme" where
  "push_reg r s = push_val (regs s r) s"

definition pop_reg :: "reg \<Rightarrow> 'a machine_scheme \<Rightarrow> 'a machine_scheme" where
  "pop_reg r s = (let v = read_u64 (mem s) (regs s RSP) in set_reg r v (set_reg RSP (regs s RSP + 8) s))"

text \<open>The registers the stubs save, in the order of the push instructions.\<close>

definition saved_regs :: "reg list" where
  "saved_regs = [RAX, RBX, RCX, RDX, RBP, RSI, RDI, R8, R9, R10, R11, R12, R13, R14, R15]"

text \<open>
  \<open>iretq\<close> loads \<^verbatim>\<open>rip\<close>, \<^verbatim>\<open>cs\<close>, \<^verbatim>\<open>rflags\<close>, \<^verbatim>\<open>rsp\<close> and \<^verbatim>\<open>ss\<close> from the five words the
  processor pushed; of the words for the selectors it takes the lower sixteen bits.
\<close>

definition iretq :: "'a machine_scheme \<Rightarrow> 'a machine_scheme" where
  "iretq s =
     (let m = mem s; sp = regs s RSP
      in set_seg SS (ucast (read_u64 m (sp + 32))) (set_reg RSP (read_u64 m (sp + 24)) (set_reg RFLAGS (read_u64 m (sp + 16))
           (set_seg CS (ucast (read_u64 m (sp + 8))) (set_reg RIP (read_u64 m sp) s)))))"

definition common_stub :: "(u64 \<Rightarrow> 'a machine_scheme \<Rightarrow> 'a machine_scheme option) \<Rightarrow> 'a machine_scheme
    \<Rightarrow> 'a machine_scheme option" where
  "common_stub handler s =
     do { let s = fold push_reg saved_regs s;
          let s = set_reg RDI (regs s RSP) s;
          s \<leftarrow> handler (regs s RDI) s;
          let s = fold pop_reg (rev saved_regs) s;
          let s = set_reg RSP (regs s RSP + 16) s;
          Some (iretq s) }"

text \<open>\<open>isr8\<close>, \<open>isr10\<close> to \<open>isr14\<close> and \<open>isr17\<close> find an error code already pushed.\<close>

definition has_error_code :: "nat \<Rightarrow> bool" where
  "has_error_code n \<longleftrightarrow> n \<in> {8, 10, 11, 12, 13, 14, 17}"

definition isr_stub :: "nat \<Rightarrow> (u64 \<Rightarrow> 'a machine_scheme \<Rightarrow> 'a machine_scheme option) \<Rightarrow> 'a machine_scheme
    \<Rightarrow> 'a machine_scheme option" where
  "isr_stub n handler s =
     (let s = (if has_error_code n then s else push_val 0 s)
      in common_stub handler (push_val (of_nat n) s))"

definition irq_stub :: "nat \<Rightarrow> (u64 \<Rightarrow> 'a machine_scheme \<Rightarrow> 'a machine_scheme option) \<Rightarrow> 'a machine_scheme
    \<Rightarrow> 'a machine_scheme option" where
  "irq_stub n handler s = common_stub handler (push_val (of_nat n + 32) (push_val 0 s))"

subsection \<open>The handler\<close>

definition fmt_plain :: "string \<Rightarrow> bool" where
  "fmt_plain fmt \<longleftrightarrow> CHR ''%'' \<notin> set fmt \<and> CHR 0x00 \<notin> set fmt"

lemma fmt_plain_simps [simp]:
  "fmt_plain []" "fmt_plain (c # fmt) \<longleftrightarrow> c \<noteq> CHR ''%'' \<and> c \<noteq> CHR 0x00 \<and> fmt_plain fmt"
  by (auto simp: fmt_plain_def)

lemma messages_printable:
  "msg \<in> set exception_messages \<Longrightarrow> fmt_ok (''Exception: %s'' @ [CHR 0x0A]) [VStr (lit msg)]
    \<and> render (bytes_of (''Exception: %s'' @ [CHR 0x0A])) [VStr (lit msg)] = Some (bytes_of (''Exception: '' @ msg @ [CHR 0x0A]))"
  unfolding exception_messages_def
  by (auto simp: lit_def bytes_of_def text_of_def clear_line_seq_def)

lemma render_hex_line:
  "fmt_plain pre \<Longrightarrow> render (bytes_of (pre @ ''%x'' @ [CHR 0x0A])) [VInt x] = Some (bytes_of pre @ hexadecimal (unat x) @ [0x0A])"
  by (induction pre) (auto simp: bytes_of_def text_of_def of_char_codes)

lemma render_plain: "fmt_plain fmt \<Longrightarrow> render (bytes_of fmt) args = Some (bytes_of fmt)"
  by (induction fmt) (auto simp: bytes_of_def of_char_codes)

definition hex_line :: "string \<Rightarrow> u64 \<Rightarrow> u8 list" where
  "hex_line pre x = bytes_of pre @ hexadecimal (unat x) @ [0x0A]"

lemma kprintf_hex_line: "fmt_plain pre \<Longrightarrow> kprintf (pre @ ''%x'' @ [CHR 0x0A]) [VInt x] s = Some (fold VGA_Putc (hex_line pre x) s)"
  unfolding hex_line_def by (rule kprintf_render [OF render_hex_line])

lemma kprintf_plain: "fmt_plain fmt \<Longrightarrow> kprintf fmt args s = Some (fold VGA_Putc (bytes_of fmt) s)"
  by (rule kprintf_render [OF render_plain])

text \<open>The text the handler prints for a frame, with \<open>addr\<close> the faulting address.\<close>

definition exception_report :: "string \<Rightarrow> InterruptFrame \<Rightarrow> u64 \<Rightarrow> u8 list" where
  "exception_report message f addr =
     bytes_of (CHR 0x0A # ''=== EXCEPTION ==='' @ [CHR 0x0A])
     @ bytes_of (''Exception: '' @ message @ [CHR 0x0A])
     @ hex_line ''Error Code: 0x'' (error_code f) @ hex_line ''RIP: 0x'' (f_rip f)
     @ hex_line ''CS: 0x'' (f_cs f) @ hex_line ''RFLAGS: 0x'' (f_rflags f)
     @ bytes_of (''================'' @ [CHR 0x0A])
     @ (if interrupt_number f \<in> {8, 13, 14} then
          hex_line ''Page Fault at address: 0x'' addr @ hex_line ''Error Code: 0x'' (error_code f)
          @ bytes_of ((if error_code f AND 1 \<noteq> 0 then ''Cause: Page protection violation'' else ''Cause: Page not present'')
                      @ [CHR 0x0A])
        else [])"

lemma frame_word_region:
  assumes "unat d \<le> 168"
  shows "region (frame + d) 8 \<subseteq> region frame 176"
proof
  fix x assume "x \<in> region (frame + d) 8"
  then have "unat (x - (frame + d)) < 8" by (simp add: region_def)
  moreover have "x - frame = (x - (frame + d)) + d" by simp
  ultimately have "unat (x - frame) < 176" using assms by (simp only: unat_word_ariths(1)) simp
  then show "x \<in> region frame 176" by (simp add: region_def)
qed

lemma read_frame_agree:
  assumes "agree_off R m m'" "region frame 176 \<inter> R = {}"
  shows "read_frame m' frame = read_frame m frame"
proof -
  have w: "read_u64 m' (frame + d) = read_u64 m (frame + d)" if "unat d \<le> 168" for d
  proof (rule read_u64_agree [OF assms(1)])
    show "region (frame + d) 8 \<inter> R = {}" using frame_word_region [OF that, of frame] assms(2) by blast
  qed
  then show ?thesis
    unfolding read_frame_def Let_def using w [of 0] by simp
qed

lemma putcs_keep:
  assumes "cursor_ok s"
  shows "cr2 (fold VGA_Putc bs s) = cr2 s"
    and "region frame 176 \<inter> screen_bytes = {} \<Longrightarrow> read_frame (mem (fold VGA_Putc bs s)) frame = read_frame (mem s) frame"
proof -
  have so: "screen_only s (fold VGA_Putc bs s)" using putcs_ok [OF assms] by blast
  then show "cr2 (fold VGA_Putc bs s) = cr2 s" by (auto elim!: screen_onlyE)
  show "region frame 176 \<inter> screen_bytes = {} \<Longrightarrow> read_frame (mem (fold VGA_Putc bs s)) frame = read_frame (mem s) frame"
    by (rule read_frame_agree [OF screen_only_mem [OF so]])
qed

lemma isr_handler_report:
  assumes c: "cursor_ok s" and fr: "region frame 176 \<inter> screen_bytes = {}"
    and msg: "exception_message (interrupt_number (read_frame (mem s) frame)) = Some message"
  shows "isr_handler frame s = Some (fold VGA_Putc (exception_report message (read_frame (mem s) frame) (cr2 s)) s)"
proof -
  let ?f = "read_frame (mem s) frame"
  have in_list: "message \<in> set exception_messages"
    using msg by (auto simp: exception_message_def split: if_splits)
  have e: "kprintf (''Exception: %s'' @ [CHR 0x0A]) [VStr (lit message)] t =
      Some (fold VGA_Putc (bytes_of (''Exception: '' @ message @ [CHR 0x0A])) t)" for t :: "'a vga_scheme"
    using messages_printable [OF in_list] by (simp add: kprintf_render)
  have h: "kprintf (''Error Code: 0x%x'' @ [CHR 0x0A]) [VInt x] t = Some (fold VGA_Putc (hex_line ''Error Code: 0x'' x) t)"
    "kprintf (''RIP: 0x%x'' @ [CHR 0x0A]) [VInt x] t = Some (fold VGA_Putc (hex_line ''RIP: 0x'' x) t)"
    "kprintf (''CS: 0x%x'' @ [CHR 0x0A]) [VInt x] t = Some (fold VGA_Putc (hex_line ''CS: 0x'' x) t)"
    "kprintf (''RFLAGS: 0x%x'' @ [CHR 0x0A]) [VInt x] t = Some (fold VGA_Putc (hex_line ''RFLAGS: 0x'' x) t)"
    "kprintf (''Page Fault at address: 0x%x'' @ [CHR 0x0A]) [VInt x] t =
      Some (fold VGA_Putc (hex_line ''Page Fault at address: 0x'' x) t)" for x and t :: "'a vga_scheme"
    using kprintf_hex_line [of "''Error Code: 0x''"] kprintf_hex_line [of "''RIP: 0x''"]
      kprintf_hex_line [of "''CS: 0x''"] kprintf_hex_line [of "''RFLAGS: 0x''"]
      kprintf_hex_line [of "''Page Fault at address: 0x''"] by simp_all
  have p: "kprintf (CHR 0x0A # ''=== EXCEPTION ==='' @ [CHR 0x0A]) [] t =
      Some (fold VGA_Putc (bytes_of (CHR 0x0A # ''=== EXCEPTION ==='' @ [CHR 0x0A])) t)"
    "kprintf (''================'' @ [CHR 0x0A]) [] t = Some (fold VGA_Putc (bytes_of (''================'' @ [CHR 0x0A])) t)"
    "kprintf (''Cause: Page protection violation'' @ [CHR 0x0A]) [] t =
      Some (fold VGA_Putc (bytes_of (''Cause: Page protection violation'' @ [CHR 0x0A])) t)"
    "kprintf (''Cause: Page not present'' @ [CHR 0x0A]) [] t =
      Some (fold VGA_Putc (bytes_of (''Cause: Page not present'' @ [CHR 0x0A])) t)" for t :: "'a vga_scheme"
    by (rule kprintf_plain; simp)+
  note keep = putcs_keep(1) [OF c] putcs_keep(2) [OF c fr]
  have app: "fold VGA_Putc bs (fold VGA_Putc as s) = fold VGA_Putc (as @ bs) s" for as bs by simp
  show ?thesis
    unfolding isr_handler_def p e h bind.bind_lunit app keep msg Let_def
    by (simp only: p e h Option.bind.simps app keep msg exception_report_def append_assoc insert_iff empty_iff if_True if_False
        refl HOL.simp_thms split: if_split) auto
qed

subsection \<open>The entry stubs\<close>

lemma words_disjoint:
  assumes "8 \<le> unat (b - a)" "unat (b - a) + 8 \<le> 2 ^ 64"
  shows "region a 8 \<inter> region b 8 = {}"
proof -
  have "False" if "unat (x - a) < 8" "unat (x - b) < 8" for x
  proof -
    have "x - a = (x - b) + (b - a)" by simp
    then have "unat (x - a) = (unat (x - b) + unat (b - a)) mod 2 ^ 64" by (simp only: unat_word_ariths(1)) simp
    also have "\<dots> = unat (x - b) + unat (b - a)" using that assms by simp
    finally show False using that(1) assms(1) by simp
  qed
  then show ?thesis by (auto simp: region_def)
qed

lemma unat_of_nat_small: "k < 2 ^ 64 \<Longrightarrow> unat (of_nat k :: u64) = k"
  by (simp add: unat_of_nat)

lemma push_val_simps:
  "regs (push_val v s) = (regs s)(RSP := regs s RSP - 8)"
  "mem (push_val v s) = write_u64 (mem s) (regs s RSP - 8) v"
  by (simp_all add: push_val_def set_reg_def Let_def)

lemma push_fold:
  assumes "RSP \<notin> set rs" "length rs \<le> 1000"
  shows "regs (fold push_reg rs s) = (regs s)(RSP := regs s RSP - 8 * of_nat (length rs))"
    and "k < length rs \<Longrightarrow> read_u64 (mem (fold push_reg rs s)) (regs s RSP - 8 * of_nat (Suc k)) = regs s (rs ! k)"
    and "agree_off (region (regs s RSP - 8 * of_nat (length rs)) (8 * length rs)) (mem s) (mem (fold push_reg rs s))"
  using assms
proof (induction rs arbitrary: k rule: rev_induct)
  case Nil
  { case 1 show ?case by simp }
  { case 2 then show ?case by simp }
  { case 3 show ?case by simp }
next
  case (snoc r rs)
  let ?n = "length rs" and ?sp = "regs s RSP"
  let ?t = "fold push_reg rs s"
  have pre: "RSP \<notin> set rs" "?n \<le> 1000" "r \<noteq> RSP" if "RSP \<notin> set (rs @ [r])" "length (rs @ [r]) \<le> 1000" using that by auto
  { case 1
    then show ?case using snoc.IH(1) [OF pre(1,2)] by (auto simp: push_reg_def push_val_simps algebra_simps fun_eq_iff) }
  { case 2
    note p = pre [OF 2(2,3)]
    have sp: "regs ?t RSP = ?sp - 8 * of_nat ?n" and rr: "regs ?t r = regs s r" using snoc.IH(1) [OF p(1,2)] p(3) by simp_all
    have m: "mem (fold push_reg (rs @ [r]) s) = write_u64 (mem ?t) (?sp - 8 * of_nat (Suc ?n)) (regs s r)"
      by (simp add: push_reg_def push_val_simps sp rr algebra_simps)
    show ?case
    proof (cases "k = ?n")
      case True
      then show ?thesis by (simp only: m read_write_u64 nth_append_length)
    next
      case False
      with 2(1) have k: "k < ?n" by simp
      have d: "(?sp - 8 * of_nat (Suc k)) - (?sp - 8 * of_nat (Suc ?n)) = of_nat (8 * (?n - k))"
        using k by (simp add: of_nat_diff algebra_simps)
      have u: "unat ((?sp - 8 * of_nat (Suc k)) - (?sp - 8 * of_nat (Suc ?n))) = 8 * (?n - k)"
        unfolding d using p(2) by (intro unat_of_nat_small) simp
      have "region (?sp - 8 * of_nat (Suc ?n)) 8 \<inter> region (?sp - 8 * of_nat (Suc k)) 8 = {}"
        by (rule words_disjoint) (use u k p(2) in \<open>simp_all only: u, simp_all\<close>)
      then have "read_u64 (write_u64 (mem ?t) (?sp - 8 * of_nat (Suc ?n)) (regs s r)) (?sp - 8 * of_nat (Suc k))
          = read_u64 (mem ?t) (?sp - 8 * of_nat (Suc k))"
        by (intro read_u64_cong write_u64_off) blast
      then show ?thesis using snoc.IH(2) [OF k p(1,2)] k by (simp only: m nth_append if_True)
    qed }
  { case 3
    note p = pre [OF 3]
    have sp: "regs ?t RSP = ?sp - 8 * of_nat ?n" and rr: "regs ?t r = regs s r" using snoc.IH(1) [OF p(1,2)] p(3) by simp_all
    have m: "mem (fold push_reg (rs @ [r]) s) = write_u64 (mem ?t) (?sp - 8 * of_nat (Suc ?n)) (regs s r)"
      by (simp add: push_reg_def push_val_simps sp rr algebra_simps)
    have sub: "region (?sp - 8 * of_nat ?n) (8 * ?n) \<subseteq> region (?sp - 8 * of_nat (Suc ?n)) (8 * Suc ?n)"
    proof
      fix x assume "x \<in> region (?sp - 8 * of_nat ?n) (8 * ?n)"
      then have l: "unat (x - (?sp - 8 * of_nat ?n)) < 8 * ?n" by (simp add: region_def)
      have "x - (?sp - 8 * of_nat (Suc ?n)) = (x - (?sp - 8 * of_nat ?n)) + 8" by (simp add: algebra_simps)
      then have "unat (x - (?sp - 8 * of_nat (Suc ?n))) = unat (x - (?sp - 8 * of_nat ?n)) + 8"
        using l p(2) by (simp only: unat_word_ariths(1)) simp
      with l show "x \<in> region (?sp - 8 * of_nat (Suc ?n)) (8 * Suc ?n)" by (simp add: region_def)
    qed
    have "agree_off (region (?sp - 8 * of_nat (Suc ?n)) (8 * Suc ?n)) (mem ?t)
        (write_u64 (mem ?t) (?sp - 8 * of_nat (Suc ?n)) (regs s r))"
      by (auto simp: agree_off_def region_def intro!: write_u64_off)
    with agree_off_trans [OF agree_off_mono [OF snoc.IH(3) [OF p(1,2)] sub]] show ?case
      unfolding m length_append_singleton . }
qed

lemma push_form: "\<exists>m r. fold push_reg rs s = s\<lparr>mem := m, regs := r\<rparr>"
proof (induction rs rule: rev_induct)
  case Nil
  have "fold push_reg [] s = s\<lparr>mem := mem s, regs := regs s\<rparr>" by simp
  then show ?case by blast
next
  case (snoc r rs)
  then obtain m f where "fold push_reg rs s = s\<lparr>mem := m, regs := f\<rparr>" by blast
  then have "fold push_reg (rs @ [r]) s =
      s\<lparr>mem := write_u64 m (f RSP - 8) (f r), regs := f(RSP := f RSP - 8)\<rparr>"
    by (simp add: push_reg_def push_val_def set_reg_def Let_def)
  then show ?case by blast
qed

lemma pop_form: "fold pop_reg rs s = s\<lparr>regs := regs (fold pop_reg rs s)\<rparr>"
proof (induction rs rule: rev_induct)
  case (snoc r rs)
  then obtain f where "fold pop_reg rs s = s\<lparr>regs := f\<rparr>" by blast
  then have "\<exists>f. fold pop_reg (rs @ [r]) s = s\<lparr>regs := f\<rparr>" by (auto simp: pop_reg_def set_reg_def Let_def)
  then show ?case by auto
qed simp

lemma pop_fold:
  assumes "RSP \<notin> set rs" "distinct rs"
  shows "mem (fold pop_reg rs s) = mem s"
    and "regs (fold pop_reg rs s) RSP = regs s RSP + 8 * of_nat (length rs)"
    and "k < length rs \<Longrightarrow> regs (fold pop_reg rs s) (rs ! k) = read_u64 (mem s) (regs s RSP + 8 * of_nat k)"
    and "r \<notin> set rs \<Longrightarrow> r \<noteq> RSP \<Longrightarrow> regs (fold pop_reg rs s) r = regs s r"
  using assms
proof (induction rs arbitrary: k rule: rev_induct)
  case Nil
  { case 1 show ?case by simp }
  { case 2 show ?case by simp }
  { case 3 then show ?case by simp }
  { case 4 then show ?case by simp }
next
  case (snoc x rs)
  have step: "regs (fold pop_reg (rs @ [x]) s) =
      (regs (fold pop_reg rs s))(RSP := regs (fold pop_reg rs s) RSP + 8,
        x := read_u64 (mem (fold pop_reg rs s)) (regs (fold pop_reg rs s) RSP))"
    "mem (fold pop_reg (rs @ [x]) s) = mem (fold pop_reg rs s)"
    by (simp_all add: pop_reg_def set_reg_def Let_def)
  { case 1 then show ?case unfolding step using snoc.IH(1) by simp }
  { case 2 then show ?case unfolding step using snoc.IH(2) by (simp add: algebra_simps) }
  { case 3
    then have p: "RSP \<notin> set rs" "distinct rs" "x \<notin> set rs" "x \<noteq> RSP" by auto
    show ?case
    proof (cases "k = length rs")
      case True
      then show ?thesis unfolding step using snoc.IH(1,2) [OF p(1,2)] by simp
    next
      case False
      with 3(1) have k: "k < length rs" by simp
      then have "rs ! k \<in> set rs" by simp
      with p have "rs ! k \<noteq> x" "rs ! k \<noteq> RSP" by auto
      then show ?thesis unfolding step using snoc.IH(3) [OF k p(1,2)] k by (simp add: nth_append)
    qed }
  { case 4 then show ?case unfolding step using snoc.IH(4) by simp }
qed

text \<open>
  What a C handler must leave alone, where \<open>P\<close> holds of its argument and state: the stack
  pointer and the 22 words of the frame.
\<close>

definition frame_safe :: "(u64 \<Rightarrow> 'a machine_scheme \<Rightarrow> bool) \<Rightarrow> (u64 \<Rightarrow> 'a machine_scheme \<Rightarrow> 'a machine_scheme option) \<Rightarrow> bool" where
  "frame_safe P handler \<longleftrightarrow>
     (\<forall>frame s s'. P frame s \<longrightarrow> handler frame s = Some s' \<longrightarrow>
        regs s' RSP = regs s RSP \<and> (\<forall>x \<in> region frame 176. mem s' x = mem s x))"

lemma saved_regs_facts: "RSP \<notin> set saved_regs" "distinct saved_regs" "length saved_regs = 15" "length saved_regs \<le> 1000"
  by (simp_all add: saved_regs_def)

text \<open>
  The stub at stack pointer \<open>sp\<close>, which points to the interrupt number: the handler gets a
  frame with the interrupted registers in the fields the C structure gives them; after
  it, all registers have their old values, and execution goes on at the saved \<^verbatim>\<open>rip\<close>.
\<close>

lemma saved_reg_index:
  assumes "r \<in> set saved_regs"
  obtains k where "k < 15" "saved_regs ! k = r" "rev saved_regs ! (14 - k) = r"
proof -
  obtain k where k: "k < length saved_regs" "saved_regs ! k = r" using assms by (auto simp: in_set_conv_nth)
  then have "rev saved_regs ! (14 - k) = r" by (simp add: rev_nth saved_regs_facts)
  with k that show thesis by (simp add: saved_regs_facts)
qed

definition frame_of :: "'a machine_scheme \<Rightarrow> InterruptFrame" where
  "frame_of s =
     (let w = (\<lambda>k. read_u64 (mem s) (regs s RSP + 8 * k)); r = regs s
      in \<lparr>f_r15 = r R15, f_r14 = r R14, f_r13 = r R13, f_r12 = r R12, f_r11 = r R11, f_r10 = r R10, f_r9 = r R9, f_r8 = r R8,
          f_rdi = r RDI, f_rsi = r RSI, f_rbp = r RBP, f_rdx = r RDX, f_rcx = r RCX, f_rbx = r RBX, f_rax = r RAX,
          interrupt_number = w 0, error_code = w 1, f_rip = w 2, f_cs = w 3, f_rflags = w 4, f_rsp = w 5, f_ss = w 6\<rparr>)"

lemma above_stack:
  assumes "unat d \<le> 48"
  shows "read_u64 (mem (fold push_reg saved_regs s)) (regs s RSP + d) = read_u64 (mem s) (regs s RSP + d)"
proof (rule read_u64_agree [OF push_fold(3) [OF saved_regs_facts(1,4)]])
  let ?a = "regs s RSP - 8 * of_nat (length saved_regs)"
  have a: "?a = regs s RSP - 120" by (simp add: saved_regs_facts)
  have "False" if "unat (x - (regs s RSP + d)) < 8" "unat (x - ?a) < 120" for x
  proof -
    have "x - ?a = (x - (regs s RSP + d)) + (d + 120)" by (simp add: a)
    then have "unat (x - ?a) = unat (x - (regs s RSP + d)) + (unat d + 120)"
      using that(1) assms by (simp only: unat_word_ariths(1)) simp
    with that(2) show False by simp
  qed
  then show "region (regs s RSP + d) 8 \<inter> region ?a (8 * length saved_regs) = {}"
    by (auto simp: region_def saved_regs_facts)
qed

lemma saved_nth:
  "saved_regs ! 0 = RAX" "saved_regs ! Suc 0 = RBX" "saved_regs ! 2 = RCX" "saved_regs ! 3 = RDX"
  "saved_regs ! 4 = RBP" "saved_regs ! 5 = RSI" "saved_regs ! 6 = RDI" "saved_regs ! 7 = R8"
  "saved_regs ! 8 = R9" "saved_regs ! 9 = R10" "saved_regs ! 10 = R11" "saved_regs ! 11 = R12"
  "saved_regs ! 12 = R13" "saved_regs ! 13 = R14" "saved_regs ! 14 = R15"
  by (simp_all add: saved_regs_def)

lemma pushed_frame: "read_frame (mem (fold push_reg saved_regs s)) (regs s RSP - 120) = frame_of s"
proof -
  have pf: "read_u64 (mem (fold push_reg saved_regs s)) (regs s RSP - 8 * of_nat (Suc k)) = regs s (saved_regs ! k)"
    if "k < 15" for k
    using push_fold(2) [OF saved_regs_facts(1,4)] that by (simp only: saved_regs_facts)
  note facts = pf [of 0]
      pf [of 1]
      pf [of 2]
      pf [of 3]
      pf [of 4]
      pf [of 5]
      pf [of 6]
      pf [of 7]
      pf [of 8]
      pf [of 9]
      pf [of 10]
      pf [of 11]
      pf [of 12]
      pf [of 13]
      pf [of 14]
  have w: "read_u64 (mem (fold push_reg saved_regs s)) (regs s RSP + d) = read_u64 (mem s) (regs s RSP + d)" if "unat d \<le> 48" for d
    using above_stack [OF that] .
  have w': "read_u64 (mem (fold push_reg saved_regs s)) (d + regs s RSP) = read_u64 (mem s) (regs s RSP + d)" if "unat d \<le> 48" for d
    using w [OF that] by (simp add: add.commute)
  show ?thesis
    unfolding read_frame_def frame_of_def Let_def
    using facts w [of 0] by (simp add: saved_nth w w')
qed

lemma common_stub_restores:
  assumes safe: "frame_safe P handler"
    and pre: "P (regs s RSP - 120) (set_reg RDI (regs s RSP - 120) (fold push_reg saved_regs s))"
    and call: "handler (regs s RSP - 120) (set_reg RDI (regs s RSP - 120) (fold push_reg saved_regs s)) = Some t"
  shows "\<exists>s'. common_stub handler s = Some s'
    \<and> s' = t\<lparr>regs := regs s', segs := (segs t)(CS := ucast (f_cs (frame_of s)), SS := ucast (f_ss (frame_of s)))\<rparr>
    \<and> (\<forall>r \<in> set saved_regs. regs s' r = regs s r)
    \<and> regs s' RIP = f_rip (frame_of s) \<and> regs s' RFLAGS = f_rflags (frame_of s) \<and> regs s' RSP = f_rsp (frame_of s)"
proof -
  let ?sp = "regs s RSP"
  let ?p = "fold push_reg saved_regs s"
  have sp: "regs ?p RSP = ?sp - 120" using push_fold(1) [OF saved_regs_facts(1,4), of s] by (simp add: saved_regs_facts)
  have "regs t RSP = regs (set_reg RDI (?sp - 120) ?p) RSP
      \<and> (\<forall>x \<in> region (?sp - 120) 176. mem t x = mem (set_reg RDI (?sp - 120) ?p) x)"
    using safe pre call unfolding frame_safe_def by blast
  then have t: "regs t RSP = ?sp - 120" "\<And>x. x \<in> region (?sp - 120) 176 \<Longrightarrow> mem t x = mem ?p x"
    by (simp_all add: set_reg_def sp)
  have rd: "read_u64 (mem t) (?sp - 120 + d) = read_u64 (mem ?p) (?sp - 120 + d)" if "unat d \<le> 168" for d
    using frame_word_region [OF that, of "?sp - 120"] t(2) by (intro read_u64_cong) blast
  define u where "u = fold pop_reg (rev saved_regs) t"
  have rv: "RSP \<notin> set (rev saved_regs)" "distinct (rev saved_regs)" by (simp_all add: saved_regs_facts)
  note pop = pop_fold [OF rv, where s = t, folded u_def]
  have usp: "regs u RSP = ?sp" and um: "mem u = mem t"
    using pop(1,2) by (simp_all add: t(1) saved_regs_facts)
  have regs_u: "regs u r = regs s r" if r: "r \<in> set saved_regs" for r
  proof -
    obtain k where k: "k < 15" "saved_regs ! k = r" "rev saved_regs ! (14 - k) = r" using saved_reg_index [OF r] .
    have u14: "unat (8 * of_nat (14 - k) :: u64) = 8 * (14 - k)"
      using unat_of_nat_small [of "8 * (14 - k)"] by simp
    have "14 - k < length (rev saved_regs)" by (simp add: saved_regs_facts)
    from pop(3) [OF this] have "regs u r = read_u64 (mem t) (?sp - 120 + 8 * of_nat (14 - k))"
      using k(3) by (simp add: t(1))
    also have "\<dots> = read_u64 (mem ?p) (?sp - 120 + 8 * of_nat (14 - k))" by (rule rd) (simp add: u14)
    also have "?sp - 120 + 8 * of_nat (14 - k) = ?sp - 8 * of_nat (Suc k)" using k(1) by (simp add: of_nat_diff algebra_simps)
    also have "read_u64 (mem ?p) (?sp - 8 * of_nat (Suc k)) = regs s r"
      using push_fold(2) [OF saved_regs_facts(1,4), of k s] k by (simp only: saved_regs_facts)
    finally show ?thesis .
  qed
  have top: "read_u64 (mem t) (?sp + d) = read_u64 (mem s) (?sp + d)" if "unat d \<le> 48" for d
  proof -
    have "unat (d + 120) \<le> 168" using that by (simp add: unat_word_ariths)
    from rd [OF this] have "read_u64 (mem t) (?sp + d) = read_u64 (mem ?p) (?sp + d)" by (simp add: algebra_simps)
    with above_stack [OF that, of s] show ?thesis by simp
  qed
  have uf: "u = t\<lparr>regs := regs u\<rparr>" unfolding u_def by (rule pop_form)
  let ?s' = "iretq (set_reg RSP (regs u RSP + 16) u)"
  have "?s' = t\<lparr>regs := regs ?s', segs := segs ?s'\<rparr>"
    by (subst (1 2 3) uf) (simp add: iretq_def set_reg_def set_seg_def Let_def)
  moreover have "segs u = segs t" by (subst uf) simp
  then have "segs ?s' = (segs t)(CS := ucast (f_cs (frame_of s)), SS := ucast (f_ss (frame_of s)))"
    using top [of 24] top [of 48]
    by (simp add: iretq_def set_reg_def set_seg_def Let_def usp um frame_of_def add.commute [of _ "regs s RSP"])
  moreover
  have "common_stub handler s = Some ?s'"
    using call by (simp add: common_stub_def Let_def u_def set_reg_def sp)
  moreover have "RSP \<notin> set saved_regs" "RIP \<notin> set saved_regs" "RFLAGS \<notin> set saved_regs" by (simp_all add: saved_regs_def)
  ultimately show ?thesis
    using regs_u top [of 16] top [of 32] top [of 40]
    by (auto simp: iretq_def set_reg_def set_seg_def Let_def usp um frame_of_def add.commute [of _ "regs s RSP"])
qed

text \<open>
  The frame an entry stub builds for vector \<open>n\<close>: the interrupted registers, the number, the
  error code of the processor (0 where it pushes none), and the words the processor pushed.
\<close>

definition stack_word :: "'a machine_scheme \<Rightarrow> u64 \<Rightarrow> u64" where
  "stack_word s k = read_u64 (mem s) (regs s RSP + 8 * k)"

definition entry_frame :: "nat \<Rightarrow> 'a machine_scheme \<Rightarrow> InterruptFrame" where
  "entry_frame n s =
     (let d = (if has_error_code n then 1 else 0); r = regs s
      in \<lparr>f_r15 = r R15, f_r14 = r R14, f_r13 = r R13, f_r12 = r R12, f_r11 = r R11, f_r10 = r R10, f_r9 = r R9, f_r8 = r R8,
          f_rdi = r RDI, f_rsi = r RSI, f_rbp = r RBP, f_rdx = r RDX, f_rcx = r RCX, f_rbx = r RBX, f_rax = r RAX,
          interrupt_number = of_nat n, error_code = (if has_error_code n then stack_word s 0 else 0),
          f_rip = stack_word s d, f_cs = stack_word s (d + 1), f_rflags = stack_word s (d + 2),
          f_rsp = stack_word s (d + 3), f_ss = stack_word s (d + 4)\<rparr>)"

lemma push_val_above:
  assumes "unat k \<le> 8"
  shows "read_u64 (mem (push_val v s)) (regs s RSP + 8 * k) = stack_word s k"
proof -
  have u: "unat (8 * k) = 8 * unat k" using assms by (simp add: unat_word_ariths)
  have "unat (8 * k + 8) = 8 * unat k + 8" using assms by (simp only: unat_word_ariths(1) u) simp
  moreover have "(regs s RSP + 8 * k) - (regs s RSP - 8) = 8 * k + 8" by simp
  ultimately have "region (regs s RSP - 8) 8 \<inter> region (regs s RSP + 8 * k) 8 = {}"
    using assms by (intro words_disjoint) simp_all
  then show ?thesis
    unfolding push_val_simps stack_word_def by (intro read_u64_cong write_u64_off) blast
qed

lemma stack_word_push:
  "unat k \<le> 8 \<Longrightarrow> stack_word (push_val v s) (k + 1) = stack_word s k"
  using push_val_above [of k v s] by (simp add: stack_word_def push_val_simps distrib_left)

lemma stack_word_pushed:
  "stack_word (push_val v s) 0 = v" "stack_word (push_val v s) 1 = stack_word s 0"
  "stack_word (push_val v s) 2 = stack_word s 1" "stack_word (push_val v s) 3 = stack_word s 2"
  "stack_word (push_val v s) 4 = stack_word s 3" "stack_word (push_val v s) 5 = stack_word s 4"
  "stack_word (push_val v s) 6 = stack_word s 5"
  using stack_word_push [of 0 v s] stack_word_push [of 1 v s] stack_word_push [of 2 v s] stack_word_push [of 3 v s]
    stack_word_push [of 4 v s] stack_word_push [of 5 v s]
  by (simp_all add: stack_word_def push_val_simps)

definition stub_state :: "nat \<Rightarrow> 'a machine_scheme \<Rightarrow> 'a machine_scheme" where
  "stub_state n s = push_val (of_nat n) (if has_error_code n then s else push_val 0 s)"

lemma frame_of_words:
  "frame_of s =
     (let r = regs s
      in \<lparr>f_r15 = r R15, f_r14 = r R14, f_r13 = r R13, f_r12 = r R12, f_r11 = r R11, f_r10 = r R10, f_r9 = r R9, f_r8 = r R8,
          f_rdi = r RDI, f_rsi = r RSI, f_rbp = r RBP, f_rdx = r RDX, f_rcx = r RCX, f_rbx = r RBX, f_rax = r RAX,
          interrupt_number = stack_word s 0, error_code = stack_word s 1, f_rip = stack_word s 2, f_cs = stack_word s 3,
          f_rflags = stack_word s 4, f_rsp = stack_word s 5, f_ss = stack_word s 6\<rparr>)"
  by (simp add: frame_of_def stack_word_def Let_def)

lemma frame_of_stub: "frame_of (stub_state n s) = entry_frame n s"
  by (simp add: frame_of_words entry_frame_def stub_state_def push_val_simps stack_word_pushed Let_def)

text \<open>
  Entering vector \<open>n\<close> is transparent to the interrupted program: the handler \<open>f\<close> is called
  once, on a frame that describes the interruption; when it returns, every register has its
  old value and execution continues where, and with the flags and stack, the processor saved.
\<close>

definition resumed :: "nat \<Rightarrow> 'a machine_scheme \<Rightarrow> 'a machine_scheme \<Rightarrow> bool" where
  "resumed n s s' \<longleftrightarrow> (\<forall>r \<in> set saved_regs. regs s' r = regs s r) \<and> regs s' RIP = f_rip (entry_frame n s)
     \<and> regs s' RFLAGS = f_rflags (entry_frame n s) \<and> regs s' RSP = f_rsp (entry_frame n s)"

text \<open>The selectors after \<open>iretq\<close> from vector \<open>n\<close>, where the handler leaves \<open>g\<close>.\<close>

definition iret_segs :: "nat \<Rightarrow> 'a machine_scheme \<Rightarrow> (sreg \<Rightarrow> u16) \<Rightarrow> sreg \<Rightarrow> u16" where
  "iret_segs n s g = g(CS := ucast (f_cs (entry_frame n s)), SS := ucast (f_ss (entry_frame n s)))"

definition frame_addr :: "nat \<Rightarrow> 'a machine_scheme \<Rightarrow> u64" where
  "frame_addr n s = regs s RSP - (if has_error_code n then 128 else 136)"

lemma region_shift:
  assumes "unat d + k \<le> n" "n \<le> 1000"
  shows "region (a + d) k \<subseteq> region a n"
proof
  fix x assume "x \<in> region (a + d) k"
  then have l: "unat (x - (a + d)) < k" by (simp add: region_def)
  have "x - a = (x - (a + d)) + d" by simp
  then have "unat (x - a) = unat (x - (a + d)) + unat d"
    using l assms by (simp only: unat_word_ariths(1)) simp
  with l assms show "x \<in> region a n" by (simp add: region_def)
qed

lemma push_val_agree:
  "region (regs s RSP - 8) 8 \<subseteq> R \<Longrightarrow> agree_off R (mem s) (mem (push_val v s))"
  by (auto simp: agree_off_def push_val_simps intro!: write_u64_off)

lemma stub_agree: "agree_off (region (frame_addr n s) 176) (mem s) (mem (fold push_reg saved_regs (stub_state n s)))"
proof -
  let ?a = "frame_addr n s"
  have sub: "region (?a + d) k \<subseteq> region ?a 176" if "unat d + k \<le> 176" for d k
    using region_shift [OF that] by simp
  have sp: "regs (stub_state n s) RSP = ?a + 120" "regs s RSP = (if has_error_code n then ?a + 128 else ?a + 136)"
    by (simp_all add: frame_addr_def stub_state_def push_val_simps)
  have "agree_off (region ?a 176) (mem s) (mem (stub_state n s))"
  proof (cases "has_error_code n")
    case True
    then show ?thesis using sub [of 120 8] unfolding stub_state_def
      by (simp add: frame_addr_def) (rule push_val_agree)
  next
    case False
    then have "agree_off (region ?a 176) (mem s) (mem (push_val 0 s))" using sub [of 128 8]
      by (intro push_val_agree) (simp add: frame_addr_def)
    moreover have "agree_off (region ?a 176) (mem (push_val 0 s)) (mem (push_val (of_nat n) (push_val 0 s)))"
      using False sub [of 120 8] by (intro push_val_agree) (simp add: frame_addr_def push_val_simps)
    ultimately show ?thesis using False unfolding stub_state_def by (simp add: agree_off_trans)
  qed
  moreover have "agree_off (region ?a 176) (mem (stub_state n s)) (mem (fold push_reg saved_regs (stub_state n s)))"
    using push_fold(3) [OF saved_regs_facts(1,4), of "stub_state n s"] sub [of 0 120]
    by (auto simp: sp saved_regs_facts elim: agree_off_mono)
  ultimately show ?thesis by (rule agree_off_trans)
qed

lemma isr_stub_transparent:
  assumes "frame_safe P f" and pre: "\<And>m r. P (frame_addr n s) (s\<lparr>mem := m, regs := r\<rparr>)"
  shows "\<exists>m r. let u = s\<lparr>mem := m, regs := r\<rparr> in
    read_frame m (frame_addr n s) = entry_frame n s \<and> agree_off (region (frame_addr n s) 176) (mem s) m
    \<and> (case f (frame_addr n s) u of None \<Rightarrow> isr_stub n f s = None
       | Some t \<Rightarrow> \<exists>s'. isr_stub n f s = Some s' \<and> s' = t\<lparr>regs := regs s', segs := iret_segs n s (segs t)\<rparr> \<and> resumed n s s')"
proof -
  let ?p = "stub_state n s"
  let ?u = "set_reg RDI (regs ?p RSP - 120) (fold push_reg saved_regs ?p)"
  have a: "frame_addr n s = regs ?p RSP - 120"
    by (simp add: frame_addr_def stub_state_def push_val_simps)
  have sp: "regs (fold push_reg saved_regs ?p) RSP = regs ?p RSP - 120"
    using push_fold(1) [OF saved_regs_facts(1,4), of ?p] by (simp add: saved_regs_facts)
  have stub: "isr_stub n f s = common_stub f ?p" by (simp add: isr_stub_def stub_state_def Let_def)
  obtain m r where p: "fold push_reg saved_regs ?p = ?p\<lparr>mem := m, regs := r\<rparr>" using push_form by blast
  have "?p\<lparr>mem := m, regs := f\<rparr> = s\<lparr>mem := m, regs := f\<rparr>" for f
    by (simp add: stub_state_def push_val_def set_reg_def Let_def)
  with p have "?u = s\<lparr>mem := m, regs := r(RDI := regs ?p RSP - 120)\<rparr>" by (simp add: set_reg_def)
  then obtain m r where u: "?u = s\<lparr>mem := m, regs := r\<rparr>" by blast
  have "read_frame (mem ?u) (frame_addr n s) = entry_frame n s"
    using pushed_frame [of ?p] by (simp add: a set_reg_def frame_of_stub)
  then have fr: "read_frame m (frame_addr n s) = entry_frame n s" unfolding u by simp
  have "agree_off (region (frame_addr n s) 176) (mem s) (mem ?u)"
    using stub_agree [of n s] by (simp add: set_reg_def)
  then have ag: "agree_off (region (frame_addr n s) 176) (mem s) m" unfolding u by simp
  have pre': "P (regs ?p RSP - 120) ?u" using pre [where m = m and r = r] unfolding u [symmetric] a .
  have regs_p: "regs ?p r = regs s r" if "r \<noteq> RSP" for r using that by (simp add: stub_state_def push_val_simps)
  have "case f (frame_addr n s) ?u of None \<Rightarrow> isr_stub n f s = None
      | Some t \<Rightarrow> \<exists>s'. isr_stub n f s = Some s' \<and> s' = t\<lparr>regs := regs s', segs := iret_segs n s (segs t)\<rparr> \<and> resumed n s s'"
  proof (cases "f (frame_addr n s) ?u")
    case None
    then show ?thesis unfolding stub by (simp add: common_stub_def Let_def a sp set_reg_def)
  next
    case (Some t)
    then have "f (regs ?p RSP - 120) ?u = Some t" by (simp only: a)
    from common_stub_restores [OF assms(1) pre' this] obtain s' where s':
      "common_stub f ?p = Some s'"
      "s' = t\<lparr>regs := regs s', segs := (segs t)(CS := ucast (f_cs (frame_of ?p)), SS := ucast (f_ss (frame_of ?p)))\<rparr>"
      "\<forall>r \<in> set saved_regs. regs s' r = regs ?p r"
      "regs s' RIP = f_rip (frame_of ?p)" "regs s' RFLAGS = f_rflags (frame_of ?p)" "regs s' RSP = f_rsp (frame_of ?p)"
      by blast
    have "\<forall>r \<in> set saved_regs. regs s' r = regs s r" using s'(3) saved_regs_facts(1) regs_p by metis
    with s'(4-6) have "resumed n s s'" by (simp add: resumed_def frame_of_stub)
    with s'(1,2) show ?thesis unfolding stub Some option.case iret_segs_def frame_of_stub by blast
  qed
  with fr ag show ?thesis unfolding u Let_def by blast
qed

lemma irq_stub_isr: "irq_stub n = isr_stub (32 + n)"
proof -
  have "\<not> has_error_code (32 + n)" by (simp add: has_error_code_def)
  then show ?thesis by (simp add: fun_eq_iff irq_stub_def isr_stub_def add.commute)
qed

end
