(* ===== verification/Irq.thy ===== *)
theory Irq
  imports Isr
begin

text \<open>
  Hardware interrupts, \<^verbatim>\<open>kernel/irq.c\<close>. The table of handlers holds code addresses, null
  for none; calling the function at an address is a parameter. The interrupt controller is
  described by the sequence of port writes it receives (\<open>pic_write\<close>).
\<close>

subsection \<open>Model\<close>

record irq_state = idt_state +
  irq_handlers :: "u64 list"

abbreviation IRQ_COUNT :: nat where "IRQ_COUNT \<equiv> 16"

text \<open>\<open>call a p s\<close> is the effect of the C function at address \<open>a\<close> on the frame \<open>p\<close>.\<close>

definition irq_handler :: "(u64 \<Rightarrow> u64 \<Rightarrow> 'a irq_state_scheme \<Rightarrow> 'a irq_state_scheme option) \<Rightarrow> u64
    \<Rightarrow> 'a irq_state_scheme \<Rightarrow> 'a irq_state_scheme option" where
  "irq_handler call frame s =
     (let irq_num = (ucast (interrupt_number (read_frame (mem s) frame) - 32) :: u8)
      in if unat irq_num \<ge> length (irq_handlers s) then None
         else do { s \<leftarrow> (if irq_handlers s ! unat irq_num \<noteq> 0
                         then call (irq_handlers s ! unat irq_num) frame s else Some s);
                   let s = (if irq_num \<ge> 8 then outb 0xA0 0x20 s else s);
                   Some (outb 0x20 0x20 s) })"

definition irq_install_handler :: "int \<Rightarrow> u64 \<Rightarrow> 'a irq_state_scheme \<Rightarrow> 'a irq_state_scheme" where
  "irq_install_handler irq handler s =
     (if irq \<ge> 0 \<and> irq < int IRQ_COUNT then s\<lparr>irq_handlers := (irq_handlers s)[nat irq := handler]\<rparr> else s)"

definition irq_uninstall_handler :: "int \<Rightarrow> 'a irq_state_scheme \<Rightarrow> 'a irq_state_scheme" where
  "irq_uninstall_handler irq s =
     (if irq \<ge> 0 \<and> irq < int IRQ_COUNT then s\<lparr>irq_handlers := (irq_handlers s)[nat irq := 0]\<rparr> else s)"

definition Init_PIC :: "'a machine_scheme \<Rightarrow> 'a machine_scheme" where
  "Init_PIC s =
     (let s = outb 0x20 0x11 s; s = outb 0x21 0x20 s; s = outb 0x21 0x04 s; s = outb 0x21 0x01 s;
          s = outb 0xA0 0x11 s; s = outb 0xA1 0x28 s; s = outb 0xA1 0x02 s; s = outb 0xA1 0x01 s;
          s = outb 0x21 0xFF s
      in outb 0xA1 0xFF s)"

definition Init_IRQ :: "(nat \<Rightarrow> u64) \<Rightarrow> 'a irq_state_scheme \<Rightarrow> 'a irq_state_scheme option" where
  "Init_IRQ irq s =
     (let s = Init_PIC s;
          s = fold (\<lambda>i s. s\<lparr>irq_handlers := (irq_handlers s)[i := 0]\<rparr>) [0..<IRQ_COUNT] s;
          s = fold (\<lambda>i. idt_set_entry (of_nat (32 + i)) (irq i) 0x08 IDT_TYPE_INTERRUPT) [0..<IRQ_COUNT] s
      in DEBUGER LIGHT_RED ''IRQ initialized - %d IRQ handlers registered'' [VInt 16] s)"

subsection \<open>The interrupt controller\<close>

text \<open>
  One 8259 chip: a command byte with bit 4 starts the initialisation; the next three data
  bytes are the vector offset, the cascade line and the mode; every other data byte sets
  the mask. An end-of-interrupt command ends the service of the current interrupt.
\<close>

record pic =
  pic_step :: nat
  pic_offset :: u8
  pic_cascade :: u8
  pic_mode :: u8
  pic_mask :: u8
  pic_eois :: nat

definition pic_command :: "u8 \<Rightarrow> pic \<Rightarrow> pic" where
  "pic_command v p =
     (if v AND 0x10 \<noteq> 0 then p\<lparr>pic_step := 1, pic_mask := 0\<rparr>
      else if v = 0x20 then p\<lparr>pic_eois := pic_eois p + 1\<rparr> else p)"

definition pic_data :: "u8 \<Rightarrow> pic \<Rightarrow> pic" where
  "pic_data v p =
     (if pic_step p = 1 then p\<lparr>pic_step := 2, pic_offset := v\<rparr>
      else if pic_step p = 2 then p\<lparr>pic_step := 3, pic_cascade := v\<rparr>
      else if pic_step p = 3 then p\<lparr>pic_step := 0, pic_mode := v\<rparr>
      else p\<lparr>pic_mask := v\<rparr>)"

fun pic_write :: "u16 \<times> u8 \<Rightarrow> pic \<times> pic \<Rightarrow> pic \<times> pic" where
  "pic_write (port, v) (master, slave) =
     (if port = 0x20 then (pic_command v master, slave)
      else if port = 0x21 then (pic_data v master, slave)
      else if port = 0xA0 then (master, pic_command v slave)
      else if port = 0xA1 then (master, pic_data v slave)
      else (master, slave))"

definition pics_after :: "(u16 \<times> u8) list \<Rightarrow> pic \<times> pic \<Rightarrow> pic \<times> pic" where
  "pics_after log p = fold pic_write log p"

lemma Init_PIC_log:
  "Init_PIC s = s\<lparr>port_log := port_log s @
     [(0x20, 0x11), (0x21, 0x20), (0x21, 0x04), (0x21, 0x01), (0xA0, 0x11), (0xA1, 0x28), (0xA1, 0x02), (0xA1, 0x01),
      (0x21, 0xFF), (0xA1, 0xFF)]\<rparr>"
  by (simp add: Init_PIC_def outb_def)

lemma clear_handlers:
  assumes "n \<le> length (irq_handlers s)"
  shows "fold (\<lambda>i s. s\<lparr>irq_handlers := (irq_handlers s)[i := 0]\<rparr>) [0..<n] s =
    s\<lparr>irq_handlers := replicate n 0 @ drop n (irq_handlers s)\<rparr>"
  using assms
proof (induction n)
  case (Suc n)
  then have "(replicate n 0 @ drop n (irq_handlers s))[n := 0] = replicate (Suc n) 0 @ drop (Suc n) (irq_handlers s)"
    by (simp add: list_update_append Cons_nth_drop_Suc [symmetric] replicate_append_same)
  with Suc show ?case by simp
qed simp

lemma cursor_ok_irq [simp]:
  "cursor_ok (s\<lparr>irq_handlers := h\<rparr>) = cursor_ok s" "cursor_ok (s\<lparr>port_log := l\<rparr>) = cursor_ok s"
  by (simp_all add: cursor_ok_def cursor_def)

end
