(* ===== verification/Interrupt_Properties.thy ===== *)
theory Interrupt_Properties
  imports Irq Paging_Properties
begin

text \<open>
  What the interrupt descriptor table, the exception handler, the entry stubs and the
  handling of hardware interrupts promise.
\<close>

subsection \<open>Start of interrupt handling\<close>

lemma Init_ISR_result:
  assumes "cursor_ok s" "length (idt s) = 256"
  shows "\<exists>s'. Init_ISR isr s = Some s' \<and> cursor_ok s'
    \<and> screen_only (s\<lparr>idt := map (\<lambda>v. if v < 32 then gate (isr v) 0x08 0x8E else idt s ! v) [0..<256]\<rparr>) s'"
proof -
  let ?t = "s\<lparr>idt := map (\<lambda>v. if v < 32 then gate (isr v) 0x08 0x8E else idt s ! v) [0..<256]\<rparr>"
  have eq: "Init_ISR isr s = DEBUGER LIGHT_RED ''ISR initialized - %d exception handlers registered'' [VInt 32] ?t"
    using idt_set_run [of 0 32 s isr "0x08" "0x8E"] assms(2) by (simp add: Init_ISR_def Let_def cong: if_cong)
  have fmt: "fmt_ok ''ISR initialized - %d exception handlers registered'' [VInt 32]" by simp
  have "cursor_ok ?t" using assms(1) by simp
  then show ?thesis unfolding eq by (rule DEBUGER_ok [OF fmt])
qed

lemma Init_IRQ_result:
  assumes "cursor_ok s" "length (idt s) = 256" "length (irq_handlers s) = 16"
  shows "\<exists>s'. Init_IRQ irq s = Some s' \<and> cursor_ok s'
    \<and> screen_only ((Init_PIC s)\<lparr>irq_handlers := replicate 16 0,
        idt := map (\<lambda>v. if 32 \<le> v \<and> v < 48 then gate (irq (v - 32)) 0x08 0x8E else idt s ! v) [0..<256]\<rparr>) s'"
proof -
  let ?u = "(Init_PIC s)\<lparr>irq_handlers := replicate 16 0\<rparr>"
  let ?t = "?u\<lparr>idt := map (\<lambda>v. if 32 \<le> v \<and> v < 48 then gate (irq (v - 32)) 0x08 0x8E else idt s ! v) [0..<256]\<rparr>"
  have "fold (\<lambda>i s. s\<lparr>irq_handlers := (irq_handlers s)[i := 0]\<rparr>) [0..<16] (Init_PIC s) = ?u"
    using clear_handlers [of 16 "Init_PIC s"] assms(3) by (simp only: Init_PIC_log) simp
  moreover have "fold (\<lambda>i. idt_set_entry (of_nat (32 + i)) (irq i) 0x08 0x8E) [0..<16] ?u = ?t"
    using idt_set_run [of 32 16 ?u irq "0x08" "0x8E"] assms(2) by (simp add: Init_PIC_log)
  ultimately have eq: "Init_IRQ irq s = DEBUGER LIGHT_RED ''IRQ initialized - %d IRQ handlers registered'' [VInt 16] ?t"
    unfolding Init_IRQ_def Let_def by simp
  have fmt: "fmt_ok ''IRQ initialized - %d IRQ handlers registered'' [VInt 16]" by simp
  have "cursor_ok ?t" using assms(1) by (simp add: Init_PIC_log)
  then show ?thesis unfolding eq by (rule DEBUGER_ok [OF fmt])
qed

lemma screen_only_idt:
  assumes "screen_only s t"
  shows "idt t = idt s" "idtr t = idtr s" "port_log t = port_log s"
  using assms by (auto elim!: screen_onlyE)

lemma screen_only_irq: "screen_only s t \<Longrightarrow> irq_handlers t = irq_handlers s"
  by (auto elim!: screen_onlyE)

text \<open>The static variables at the start: zeroed tables.\<close>

definition idt_statics :: "'a \<Rightarrow> 'a idt_state_scheme" where
  "idt_statics x = paging_statics (idt_state_ext (replicate 256 (gate 0 0 0)) \<lparr>limit = 0, base = 0\<rparr> x)"

definition irq_statics :: "'a \<Rightarrow> 'a irq_state_scheme" where
  "irq_statics x = idt_statics (irq_state_ext (replicate 16 0) x)"

lemma irq_statics_simps [simp]:
  "cursor_ok (irq_statics x)" "length (idt (irq_statics x)) = 256" "length (irq_handlers (irq_statics x)) = 16"
  "port_log (irq_statics x) = []" "mem (irq_statics x) = (\<lambda>_. 0)"
  by (simp_all add: irq_statics_def idt_statics_def paging_statics_def memory_statics_def vga_statics_def cleared_def
      cursor_ok_def cursor_def)

text \<open>
  After \<open>Init_IDT\<close>, \<open>Init_ISR\<close> and \<open>Init_IRQ\<close>, the processor's table register covers
  the whole table (limit 4095), vectors 0 to 31 lead to the exception entries and 32 to 47
  to the interrupt entries, through present 64-bit interrupt gates of the kernel's code
  segment, and every other gate is not present; no handler is installed.
\<close>

lemma interrupt_gates:
  assumes "cursor_ok s" "length (idt s) = 256" "length (irq_handlers s) = 16"
  shows "\<exists>s1 s2 s3. Init_IDT addr s = Some s1 \<and> Init_ISR isr s1 = Some s2 \<and> Init_IRQ irq s2 = Some s3
    \<and> idtr s3 = (4095, addr) \<and> irq_handlers s3 = replicate 16 0
    \<and> (\<forall>v<256. let e = idt s3 ! v in
         if v < 32 then gate_offset e = isr v \<and> selector e = 0x08 \<and> type_attr e = 0x8E
         else if v < 48 then gate_offset e = irq (v - 32) \<and> selector e = 0x08 \<and> type_attr e = 0x8E
         else type_attr e = 0)"
proof -
  obtain s1 where s1: "Init_IDT addr s = Some s1" "cursor_ok s1"
    "screen_only (s\<lparr>idt_ptr := \<lparr>limit = 4095, base = addr\<rparr>, idt := replicate 256 (gate 0 0 0), idtr := (4095, addr)\<rparr>) s1"
    using Init_IDT_result [OF assms(1,2)] by blast
  note k1 = screen_only_idt [OF s1(3)] screen_only_irq [OF s1(3)]
  obtain s2 where s2: "Init_ISR isr s1 = Some s2" "cursor_ok s2"
    "screen_only (s1\<lparr>idt := map (\<lambda>v. if v < 32 then gate (isr v) 0x08 0x8E else idt s1 ! v) [0..<256]\<rparr>) s2"
    using Init_ISR_result [OF s1(2)] k1 by auto
  note k2 = screen_only_idt [OF s2(3)] screen_only_irq [OF s2(3)]
  obtain s3 where s3: "Init_IRQ irq s2 = Some s3"
    "screen_only ((Init_PIC s2)\<lparr>irq_handlers := replicate 16 0,
        idt := map (\<lambda>v. if 32 \<le> v \<and> v < 48 then gate (irq (v - 32)) 0x08 0x8E else idt s2 ! v) [0..<256]\<rparr>) s3"
    using Init_IRQ_result [OF s2(2), of irq] k1 k2 assms(3) by auto
  note k3 = screen_only_idt [OF s3(2)] screen_only_irq [OF s3(2)]
  have "idtr s3 = (4095, addr)" "irq_handlers s3 = replicate 16 0" using k1 k2 k3 by (simp_all add: Init_PIC_log)
  moreover have "let e = idt s3 ! v in
         if v < 32 then gate_offset e = isr v \<and> selector e = 0x08 \<and> type_attr e = 0x8E
         else if v < 48 then gate_offset e = irq (v - 32) \<and> selector e = 0x08 \<and> type_attr e = 0x8E
         else type_attr e = 0" if "v < 256" for v
    using that k1 k2 k3 by (simp add: gate_offset_gate)
  ultimately show ?thesis using s1(1) s2(1) s3(1) by blast
qed

text \<open>
  C39: \<open>Init_PIC\<close> programs both interrupt controllers, from any state of them: the master
  delivers its lines at vectors 32 to 39, the slave at 40 to 47, cascaded over line 2 in
  8086 mode, and every line is masked.
\<close>

theorem Init_PIC_remaps:
  assumes "port_log s = []"
  shows "case pics_after (port_log (Init_PIC s)) (p, q) of (m, sl) \<Rightarrow>
    pic_offset m = 32 \<and> pic_offset sl = 40 \<and> pic_cascade m = 4 \<and> pic_cascade sl = 2
    \<and> pic_mode m = 1 \<and> pic_mode sl = 1 \<and> pic_mask m = 0xFF \<and> pic_mask sl = 0xFF
    \<and> pic_step m = 0 \<and> pic_step sl = 0"
  using assms by (simp add: Init_PIC_log pics_after_def pic_command_def pic_data_def)

theorem Init_PIC_remaps_witness:
  "case pics_after (port_log (Init_PIC (irq_statics ())))
      (\<lparr>pic_step = 0, pic_offset = 8, pic_cascade = 0, pic_mode = 0, pic_mask = 0, pic_eois = 0\<rparr>,
       \<lparr>pic_step = 2, pic_offset = 0x70, pic_cascade = 0, pic_mode = 0, pic_mask = 0, pic_eois = 1\<rparr>)
    of (m, sl) \<Rightarrow> pic_offset m = 32 \<and> pic_offset sl = 40"
  using Init_PIC_remaps [of "irq_statics ()" "\<lparr>pic_step = 0, pic_offset = 8, pic_cascade = 0, pic_mode = 0, pic_mask = 0, pic_eois = 0\<rparr>"
      "\<lparr>pic_step = 2, pic_offset = 0x70, pic_cascade = 0, pic_mode = 0, pic_mask = 0, pic_eois = 1\<rparr>"]
  by (simp split: prod.splits)

subsection \<open>Exceptions\<close>

text \<open>Where the frame lies outside the screen, the exception handler keeps it and the stack pointer.\<close>

definition off_screen :: "u64 \<Rightarrow> 'a machine_scheme \<Rightarrow> bool" where
  "off_screen frame s \<longleftrightarrow> cursor_ok s \<and> region frame 176 \<inter> screen_bytes = {}"

lemma isr_handler_cases:
  assumes "off_screen frame s"
  shows "isr_handler frame s = (case exception_message (interrupt_number (read_frame (mem s) frame)) of
      None \<Rightarrow> None
    | Some message \<Rightarrow> Some (fold VGA_Putc (exception_report message (read_frame (mem s) frame) (cr2 s)) s))"
proof (cases "exception_message (interrupt_number (read_frame (mem s) frame))")
  case None
  have c: "cursor_ok s" "region frame 176 \<inter> screen_bytes = {}" using assms by (simp_all add: off_screen_def)
  have p: "kprintf (CHR 0x0A # ''=== EXCEPTION ==='' @ [CHR 0x0A]) [] s =
      Some (fold VGA_Putc (bytes_of (CHR 0x0A # ''=== EXCEPTION ==='' @ [CHR 0x0A])) s)"
    by (rule kprintf_plain) simp
  show ?thesis unfolding isr_handler_def p Option.bind.simps putcs_keep(2) [OF c] None by simp
next
  case (Some message)
  then show ?thesis using isr_handler_report [of s frame message] assms by (simp add: off_screen_def)
qed

lemma isr_handler_safe: "frame_safe off_screen isr_handler"
  unfolding frame_safe_def
proof (intro allI impI)
  fix frame :: u64 and s s' :: "'a vga_scheme"
  assume o: "off_screen frame s" and s': "isr_handler frame s = Some s'"
  then obtain bs where "s' = fold VGA_Putc bs s" by (auto simp: isr_handler_cases split: option.splits)
  then have so: "screen_only s s'" using o putcs_ok [of s bs] by (simp add: off_screen_def)
  then have "regs s' = regs s" by (auto elim!: screen_onlyE)
  moreover have "mem s' x = mem s x" if "x \<in> region frame 176" for x
    using agree_offD [OF screen_only_mem [OF so], of x] that o by (auto simp: off_screen_def)
  ultimately show "regs s' RSP = regs s RSP \<and> (\<forall>x \<in> region frame 176. mem s' x = mem s x)" by simp
qed

lemma abs_term_agree:
  assumes "agree_off R (mem s) m" "R \<inter> screen_bytes = {}"
  shows "abs_term (s\<lparr>mem := m, regs := r\<rparr>) = abs_term s"
proof (rule terminal_eqI)
  have "vga_load k (s\<lparr>mem := m, regs := r\<rparr>) = vga_load k s" if "k < 2000" for k
  proof -
    have "read_u16 m (cell_addr k) = read_u16 (mem s) (cell_addr k)"
      using cell_region [OF that] assms by (intro read_u16_cong agree_offD [OF assms(1)]) blast
    then show ?thesis by (simp add: vga_load_def)
  qed
  then show "cells (abs_term (s\<lparr>mem := m, regs := r\<rparr>)) = cells (abs_term s)" by (simp add: abs_term_def)
qed (simp_all add: abs_term_def cursor_def)

lemma exception_run:
  assumes "n < 32" "cursor_ok s" "region (frame_addr n s) 176 \<inter> screen_bytes = {}"
  shows "\<exists>m s'. isr_stub n isr_handler s = Some s' \<and> resumed n s s' \<and> cursor_ok s'
    \<and> agree_off (region (frame_addr n s) 176) (mem s) m \<and> screen_only (s\<lparr>mem := m\<rparr>) (s'\<lparr>regs := regs s, segs := segs s\<rparr>)
    \<and> segs s' = iret_segs n s (segs s) \<and> abs_term s' = fold term_putc (exception_report (exception_messages ! n) (entry_frame n s) (cr2 s)) (abs_term s)"
proof -
  let ?a = "frame_addr n s" and ?bs = "exception_report (exception_messages ! n) (entry_frame n s) (cr2 s)"
  have off: "off_screen ?a (s\<lparr>mem := m, regs := r\<rparr>)" for m r
    using assms by (simp add: off_screen_def cursor_ok_def cursor_def)
  obtain m r where mr: "read_frame m ?a = entry_frame n s" "agree_off (region ?a 176) (mem s) m"
    and path: "case isr_handler ?a (s\<lparr>mem := m, regs := r\<rparr>) of None \<Rightarrow> isr_stub n isr_handler s = None
       | Some t \<Rightarrow> \<exists>s'. isr_stub n isr_handler s = Some s' \<and> s' = t\<lparr>regs := regs s', segs := iret_segs n s (segs t)\<rparr> \<and> resumed n s s'"
    using isr_stub_transparent [OF isr_handler_safe off] unfolding Let_def by blast
  let ?u = "s\<lparr>mem := m, regs := r\<rparr>"
  have num: "interrupt_number (entry_frame n s) = of_nat n" by (simp add: entry_frame_def Let_def)
  have msg: "exception_message (of_nat n) = Some (exception_messages ! n)"
    using assms(1) by (simp add: exception_message_def exception_messages_def unat_of_nat)
  have "isr_handler ?a ?u = Some (fold VGA_Putc ?bs ?u)"
    using isr_handler_cases [OF off] by (simp add: mr(1) num msg)
  then obtain s' g where s': "isr_stub n isr_handler s = Some s'" "s' = (fold VGA_Putc ?bs ?u)\<lparr>regs := regs s', segs := g\<rparr>" "resumed n s s'"
    and g: "g = iret_segs n s (segs (fold VGA_Putc ?bs ?u))" using path by auto
  have c: "cursor_ok ?u" using off by (simp add: off_screen_def)
  note po = putcs_ok [OF c, of ?bs]
  have "abs_term (t\<lparr>regs := x, segs := y\<rparr>) = abs_term t" for t :: "'a vga_scheme" and x y
    by (simp add: abs_term_def vga_load_def cursor_def)
  then have "abs_term s' = fold term_putc ?bs (abs_term s)"
    using putcs_refine [OF c, of ?bs] abs_term_agree [OF mr(2) assms(3), of r] by (subst s'(2)) simp
  moreover have "cursor_ok s'" using po by (subst s'(2)) (simp add: cursor_ok_def cursor_def)
  moreover obtain m' i q where v: "fold VGA_Putc ?bs ?u = ?u\<lparr>mem := m', crtc_index := i, crtc_regs := q\<rparr>" "agree_off screen_bytes m m'"
    using conjunct2 [OF po] by (rule screen_onlyE) simp
  then have "s'\<lparr>regs := regs s, segs := segs s\<rparr> = (s\<lparr>mem := m\<rparr>)\<lparr>mem := m', crtc_index := i, crtc_regs := q\<rparr>" "agree_off screen_bytes (mem (s\<lparr>mem := m\<rparr>)) m'"
    by (subst s'(2), cases s, simp_all)
  then have "screen_only (s\<lparr>mem := m\<rparr>) (s'\<lparr>regs := regs s, segs := segs s\<rparr>)" by (rule screen_onlyI)
  moreover have "segs s' = iret_segs n s (segs s)" using g by (subst s'(2)) (simp add: v(1))
  ultimately show ?thesis using s'(1,3) mr(2) by blast
qed

text \<open>
  C23: The whole path of a processor exception \<open>n\<close> below 32, from the entry stub through
  \<open>isr_handler\<close> to \<open>iretq\<close>, provided the pushed frame lies outside the screen: the report
  printed is the one for this vector, error code, instruction pointer and flags, with the
  faulting address for vectors 8, 13 and 14; then the interrupted program is resumed with all
  its registers and the selectors the processor saved, at the same instruction, its memory
  outside the frame and the screen unchanged. This includes vectors 8, 13 and 14: the comment
  at \<^verbatim>\<open>isr.c\<close> line 50 says that the system is stopped when the exception is a critical one, but the code
  below it only prints more and returns, so that the faulting instruction runs again.
\<close>

theorem exception_path:
  assumes "n < 32" "cursor_ok s" "region (frame_addr n s) 176 \<inter> screen_bytes = {}"
  shows "\<exists>s'. isr_stub n isr_handler s = Some s' \<and> resumed n s s' \<and> segs s' = iret_segs n s (segs s)
    \<and> abs_term s' = fold term_putc (exception_report (exception_messages ! n) (entry_frame n s) (cr2 s)) (abs_term s)
    \<and> agree_off (region (frame_addr n s) 176 \<union> screen_bytes) (mem s) (mem s')"
proof -
  obtain m s' where s': "isr_stub n isr_handler s = Some s'" "resumed n s s'" "agree_off (region (frame_addr n s) 176) (mem s) m"
    "screen_only (s\<lparr>mem := m\<rparr>) (s'\<lparr>regs := regs s, segs := segs s\<rparr>)" "segs s' = iret_segs n s (segs s)"
    "abs_term s' = fold term_putc (exception_report (exception_messages ! n) (entry_frame n s) (cr2 s)) (abs_term s)"
    using exception_run [OF assms] by blast
  have "agree_off screen_bytes m (mem s')" using screen_only_mem [OF s'(4)] by simp
  then have "agree_off (region (frame_addr n s) 176 \<union> screen_bytes) (mem s) (mem s')"
    using s'(3) by (auto simp: agree_off_def)
  then show ?thesis using s'(1,2,5,6) by blast
qed

text \<open>A machine stopped at a page fault: stack at \<open>0x9000\<close>.\<close>

definition faulting :: "vga" where
  "faulting = (vga_statics ())\<lparr>regs := (\<lambda>_. 0)(RSP := 0x9000)\<rparr>"

theorem exception_path_witness:
  "\<exists>s'. isr_stub 14 isr_handler faulting = Some s' \<and> resumed 14 faulting s'"
proof -
  have "frame_addr 14 faulting = 0x8F80" by (simp add: frame_addr_def has_error_code_def faulting_def)
  moreover have "region (0x8F80 :: u64) 176 \<inter> screen_bytes = {}" by (auto simp: region_iff screen_bytes_iff)
  moreover have "cursor_ok faulting" by (simp add: faulting_def cursor_ok_regs [of _ "vga_statics ()"])
  ultimately show ?thesis using exception_path [of 14 faulting] by auto
qed

text \<open>
  A frame whose interrupt number is not below 32 makes \<open>isr_handler\<close> read past the end of
  the table of messages: it has no defined result, and only then.
\<close>

lemma isr_handler_defined:
  assumes "off_screen frame s"
  shows "isr_handler frame s = None \<longleftrightarrow> 32 \<le> unat (interrupt_number (read_frame (mem s) frame))"
  using isr_handler_cases [OF assms]
  by (auto simp: exception_message_def exception_messages_def split: option.splits)

subsection \<open>Hardware interrupts\<close>

definition eoi :: "nat \<Rightarrow> (u16 \<times> u8) list" where
  "eoi n = (if n \<ge> 8 then [(0xA0, 0x20), (0x20, 0x20)] else [(0x20, 0x20)])"

lemma irq_number: "n < 16 \<Longrightarrow> (ucast (of_nat (32 + n) - 32 :: u64) :: u8) = of_nat n"
  by (simp add: unsigned_of_nat take_bit_nat_eq_self)

lemma irq_handler_dispatch:
  assumes "n < 16" "length (irq_handlers s) = 16" "interrupt_number (read_frame (mem s) frame) = of_nat (32 + n)"
  shows "irq_handler call frame s =
    (case (if irq_handlers s ! n = 0 then Some s else call (irq_handlers s ! n) frame s) of
       None \<Rightarrow> None | Some t \<Rightarrow> Some (t\<lparr>port_log := port_log t @ eoi n\<rparr>))"
proof -
  have u: "unat (of_nat n :: u8) = n" using assms(1) by (simp add: unat_of_nat)
  have le: "(8 :: u8) \<le> of_nat n \<longleftrightarrow> 8 \<le> n" using assms(1) by (simp add: word_le_nat_alt u)
  show ?thesis
    using assms(1,2) irq_number [OF assms(1)]
    by (simp add: irq_handler_def assms(3) u le Let_def outb_def eoi_def split: option.splits bind_split)
qed

lemma irq_handler_safe:
  assumes "\<And>a. frame_safe P (call a)"
  shows "frame_safe P (irq_handler call)"
proof -
  have "regs s' RSP = regs s RSP \<and> (\<forall>x \<in> region frame 176. mem s' x = mem s x)"
    if P: "P frame s" and i: "irq_handler call frame s = Some s'" for frame s s'
  proof -
    obtain t l where t: "t = s \<or> (\<exists>a. call a frame s = Some t)" and s': "s' = t\<lparr>port_log := l\<rparr>"
      using i by (auto simp: irq_handler_def Let_def outb_def split: if_splits bind_splits)
    from t P assms have "regs t RSP = regs s RSP \<and> (\<forall>x \<in> region frame 176. mem t x = mem s x)"
      unfolding frame_safe_def by blast
    with s' show ?thesis by simp
  qed
  then show ?thesis unfolding frame_safe_def by blast
qed

lemma irq_handler_idle: "frame_safe (\<lambda>_ s. irq_handlers s = replicate 16 0) (irq_handler call)"
proof -
  have "unat (k :: u8) < 16 \<Longrightarrow> replicate 16 (0 :: u64) ! unat k = 0" for k by simp
  then show ?thesis
    unfolding frame_safe_def by (auto simp: irq_handler_def Let_def outb_def split: if_splits)
qed

text \<open>A hardware interrupt while no handler is installed: only the end of interrupt is signalled.\<close>

lemma irq_run:
  assumes "n < 16" "irq_handlers s = replicate 16 0"
  shows "\<exists>m s'. irq_stub n (irq_handler call) s = Some s' \<and> resumed (32 + n) s s'
    \<and> agree_off (region (frame_addr (32 + n) s) 176) (mem s) m
    \<and> s' = s\<lparr>mem := m, regs := regs s', segs := iret_segs (32 + n) s (segs s), port_log := port_log s @ eoi n\<rparr>"
proof -
  let ?a = "frame_addr (32 + n) s"
  obtain m r where mr: "read_frame m ?a = entry_frame (32 + n) s" "agree_off (region ?a 176) (mem s) m"
    and path: "case irq_handler call ?a (s\<lparr>mem := m, regs := r\<rparr>) of None \<Rightarrow> isr_stub (32 + n) (irq_handler call) s = None
       | Some t \<Rightarrow> \<exists>s'. isr_stub (32 + n) (irq_handler call) s = Some s' \<and> s' = t\<lparr>regs := regs s', segs := iret_segs (32 + n) s (segs t)\<rparr> \<and> resumed (32 + n) s s'"
    using isr_stub_transparent [OF irq_handler_idle] assms(2) unfolding Let_def by fastforce
  let ?u = "s\<lparr>mem := m, regs := r\<rparr>"
  have num: "interrupt_number (read_frame (mem ?u) ?a) = of_nat (32 + n)" by (simp add: mr entry_frame_def Let_def)
  have "irq_handler call ?a ?u = Some (?u\<lparr>port_log := port_log s @ eoi n\<rparr>)"
    using irq_handler_dispatch [OF assms(1) _ num, of call] assms by simp
  with path obtain s' where s': "isr_stub (32 + n) (irq_handler call) s = Some s'"
    "s' = ?u\<lparr>port_log := port_log s @ eoi n\<rparr>\<lparr>regs := regs s', segs := iret_segs (32 + n) s (segs s)\<rparr>" "resumed (32 + n) s s'" by auto
  have "s' = s\<lparr>mem := m, regs := regs s', segs := iret_segs (32 + n) s (segs s), port_log := port_log s @ eoi n\<rparr>" by (rule trans [OF s'(2)]) simp
  then show ?thesis using s'(1,3) mr(2) unfolding irq_stub_isr by blast
qed

text \<open>
  C24: The whole path of a hardware interrupt on line \<open>n\<close>, from the entry stub through
  \<open>irq_handler\<close> to \<open>iretq\<close>: the handler installed for the line, if any, is called exactly once on
  a frame that describes the interruption; afterwards the end of interrupt is signalled, first
  to the slave controller for lines 8 to 15 and then to the master, and the interrupted program
  is resumed with all its registers and the selectors the processor saved. The C handlers keep their caller's frame and stack pointer.
\<close>

theorem irq_path:
  assumes "n < 16" "length (irq_handlers s) = 16" "\<And>a. frame_safe (\<lambda>_ _. True) (call a)"
  shows "\<exists>m r. let u = s\<lparr>mem := m, regs := r\<rparr>; frame = frame_addr (32 + n) s; h = irq_handlers s ! n in
    read_frame m frame = entry_frame (32 + n) s
    \<and> (case (if h = 0 then Some u else call h frame u) of
         None \<Rightarrow> irq_stub n (irq_handler call) s = None
       | Some t \<Rightarrow> \<exists>r'. irq_stub n (irq_handler call) s = Some (t\<lparr>regs := r', segs := iret_segs (32 + n) s (segs t), port_log := port_log t @ eoi n\<rparr>)
                    \<and> resumed (32 + n) s (t\<lparr>regs := r'\<rparr>))"
proof -
  let ?a = "frame_addr (32 + n) s" and ?h = "irq_handlers s ! n"
  obtain m r where mr: "read_frame m ?a = entry_frame (32 + n) s"
    and path: "case irq_handler call ?a (s\<lparr>mem := m, regs := r\<rparr>) of None \<Rightarrow> isr_stub (32 + n) (irq_handler call) s = None
       | Some t \<Rightarrow> \<exists>s'. isr_stub (32 + n) (irq_handler call) s = Some s' \<and> s' = t\<lparr>regs := regs s', segs := iret_segs (32 + n) s (segs t)\<rparr> \<and> resumed (32 + n) s s'"
    using isr_stub_transparent [OF irq_handler_safe, where P = "\<lambda>_ _. True"] assms(3) unfolding Let_def by blast
  let ?u = "s\<lparr>mem := m, regs := r\<rparr>"
  have num: "interrupt_number (read_frame (mem ?u) ?a) = of_nat (32 + n)" by (simp add: mr entry_frame_def Let_def)
  have d: "irq_handler call ?a ?u = (case (if ?h = 0 then Some ?u else call ?h ?a ?u) of
      None \<Rightarrow> None | Some t \<Rightarrow> Some (t\<lparr>port_log := port_log t @ eoi n\<rparr>))"
    using irq_handler_dispatch [OF assms(1) _ num, of call] assms(2) by (simp cong: if_cong)
  have "case (if ?h = 0 then Some ?u else call ?h ?a ?u) of
         None \<Rightarrow> irq_stub n (irq_handler call) s = None
       | Some t \<Rightarrow> \<exists>r'. irq_stub n (irq_handler call) s = Some (t\<lparr>regs := r', segs := iret_segs (32 + n) s (segs t), port_log := port_log t @ eoi n\<rparr>)
                    \<and> resumed (32 + n) s (t\<lparr>regs := r'\<rparr>)"
  proof (cases "if ?h = 0 then Some ?u else call ?h ?a ?u")
    case None
    then have "irq_handler call ?a ?u = None" unfolding d by simp
    with path None show ?thesis by (simp add: irq_stub_isr)
  next
    case (Some t)
    then have "irq_handler call ?a ?u = Some (t\<lparr>port_log := port_log t @ eoi n\<rparr>)" unfolding d by simp
    with path obtain s' where s': "isr_stub (32 + n) (irq_handler call) s = Some s'"
      "s' = t\<lparr>port_log := port_log t @ eoi n\<rparr>\<lparr>regs := regs s', segs := iret_segs (32 + n) s (segs t)\<rparr>" "resumed (32 + n) s s'" by auto
    have "s' = t\<lparr>regs := regs s', segs := iret_segs (32 + n) s (segs t), port_log := port_log t @ eoi n\<rparr>" by (rule trans [OF s'(2)]) simp
    then have "irq_stub n (irq_handler call) s = Some (t\<lparr>regs := regs s', segs := iret_segs (32 + n) s (segs t), port_log := port_log t @ eoi n\<rparr>)"
      unfolding irq_stub_isr s'(1) by (rule arg_cong)
    moreover have "resumed (32 + n) s (t\<lparr>regs := regs s'\<rparr>)" using s'(3) by (simp add: resumed_def)
    ultimately show ?thesis unfolding Some option.case by blast
  qed
  with mr show ?thesis unfolding Let_def by blast
qed

theorem irq_path_witness:
  "\<exists>m r. let u = (irq_install_handler 9 0x4000 (irq_statics ()))\<lparr>mem := m, regs := r\<rparr> in
     \<exists>r' g. irq_stub 9 (irq_handler (\<lambda>_ _ s. Some (outb 0x60 7 s))) (irq_install_handler 9 0x4000 (irq_statics ()))
       = Some (u\<lparr>regs := r', segs := g, port_log := [(0x60, 7), (0xA0, 0x20), (0x20, 0x20)]\<rparr>)"
proof -
  let ?s = "irq_install_handler 9 0x4000 (irq_statics ())"
  have "length (irq_handlers ?s) = 16" "irq_handlers ?s ! 9 = 0x4000" "port_log ?s = []"
    by (simp_all add: irq_install_handler_def)
  then show ?thesis
    using irq_path [of 9 ?s "\<lambda>_ _ s. Some (outb 0x60 7 s)"]
    by (auto simp: frame_safe_def outb_def eoi_def Let_def)
qed

text \<open>
  Installing and removing handlers: a line in range gets exactly the handler installed, the
  others keep theirs; removing it clears the entry; a number out of range changes nothing.
\<close>

lemma irq_install_uninstall:
  assumes "length (irq_handlers s) = 16"
  shows "(\<forall>k<16. irq_handlers (irq_install_handler irq h s) ! k = (if irq = int k then h else irq_handlers s ! k))
    \<and> (\<forall>k<16. irq_handlers (irq_uninstall_handler irq (irq_install_handler irq h s)) ! k
              = (if irq = int k then 0 else irq_handlers s ! k))
    \<and> (irq < 0 \<or> 16 \<le> irq \<longrightarrow> irq_install_handler irq h s = s)"
  using assms by (auto simp: irq_install_handler_def irq_uninstall_handler_def nth_list_update nat_eq_iff2)

end
