(* ===== verification/Process.thy ===== *)
theory Process
  imports Irq Paging_Properties
begin

text \<open>
  Processes, \<^verbatim>\<open>kernel/process.c\<close>, \<^verbatim>\<open>include/process.h\<close> and \<^verbatim>\<open>kernel/context_switch_.asm\<close>.
  The process table is a list of 64 records; a \<^verbatim>\<open>process_t*\<close> is the index of the record it
  points to, or none for null. The address of the idle function and the return address of
  the call of \<open>switch_process\<close> in \<open>schedule\<close> are parameters. When \<open>schedule\<close> switches, it does
  not return to its caller: its outcome is then \<open>Switched\<close>, with the machine right after the
  \<^verbatim>\<open>ret\<close> of \<open>switch_process\<close>, which goes on at \<^verbatim>\<open>RIP\<close> with the stack \<^verbatim>\<open>RSP\<close> of the process
  switched to; and what its callers do after the call is not done.
\<close>

subsection \<open>Model\<close>

datatype process_state_t = PROCESS_UNUSED | PROCESS_RUNNING | PROCESS_READY | PROCESS_BLOCKED | PROCESS_ZOMBIE

record process_context_t =
  c_r15 :: u64  c_r14 :: u64  c_r13 :: u64  c_r12 :: u64  c_r11 :: u64  c_r10 :: u64  c_r9 :: u64  c_r8 :: u64
  c_rdi :: u64  c_rsi :: u64  c_rbp :: u64  c_rbx :: u64  c_rdx :: u64  c_rcx :: u64  c_rax :: u64
  c_rip :: u64  c_cs :: u64  c_rflags :: u64  c_rsp :: u64  c_ss :: u64

definition zero_context :: process_context_t where
  "zero_context =
     \<lparr>c_r15 = 0, c_r14 = 0, c_r13 = 0, c_r12 = 0, c_r11 = 0, c_r10 = 0, c_r9 = 0, c_r8 = 0,
      c_rdi = 0, c_rsi = 0, c_rbp = 0, c_rbx = 0, c_rdx = 0, c_rcx = 0, c_rax = 0,
      c_rip = 0, c_cs = 0, c_rflags = 0, c_rsp = 0, c_ss = 0\<rparr>"

record process_t =
  pid :: u32
  state :: process_state_t
  ctx :: process_context_t
  page_table :: u64
  kernel_stack :: u64
  user_stack :: u64
  exit_code :: u32
  parent :: "nat option"
  brk :: u64

record process_mgr = irq_state +
  processes :: "process_t list"
  current_process :: "nat option"
  next_pid :: u32
  process_count :: u32

abbreviation MAX_PROCESSES :: nat where "MAX_PROCESSES \<equiv> 64"
abbreviation KERNEL_STACK_SIZE :: u64 where "KERNEL_STACK_SIZE \<equiv> 4096"

definition proc :: "nat \<Rightarrow> 'a process_mgr_scheme \<Rightarrow> process_t" where
  "proc i s = processes s ! i"

definition set_proc :: "nat \<Rightarrow> (process_t \<Rightarrow> process_t) \<Rightarrow> 'a process_mgr_scheme \<Rightarrow> 'a process_mgr_scheme" where
  "set_proc i f s = s\<lparr>processes := (processes s)[i := f (processes s ! i)]\<rparr>"

definition find_free_slot :: "'a process_mgr_scheme \<Rightarrow> nat option" where
  "find_free_slot s = find (\<lambda>i. state (proc i s) = PROCESS_UNUSED) [0..<MAX_PROCESSES]"

definition create_process :: "u64 \<Rightarrow> 'a process_mgr_scheme \<Rightarrow> (nat option \<times> 'a process_mgr_scheme) option" where
  "create_process entry_point s =
     (case find_free_slot s of
        None \<Rightarrow> do { s \<leftarrow> DEBUGER LIGHT_RED ''No free process slots available'' [] s; Some (None, s) }
      | Some free_slot \<Rightarrow>
          (let s = set_proc free_slot (\<lambda>p. p\<lparr>pid := next_pid s\<rparr>) s;
               s = s\<lparr>next_pid := next_pid s + 1\<rparr>;
               s = set_proc free_slot (\<lambda>p. p\<lparr>state := PROCESS_READY\<rparr>) s;
               kernel_pt = get_kernel_page_table s;
               s = set_proc free_slot (\<lambda>p. p\<lparr>page_table := kernel_pt\<rparr>) s;
               s = set_proc free_slot (\<lambda>p. p\<lparr>parent := current_process s, brk := 0x400000\<rparr>) s;
               (kstack, s) = get_physical_page s;
               s = set_proc free_slot (\<lambda>p. p\<lparr>kernel_stack := kstack\<rparr>) s
           in if kernel_stack (proc free_slot s) = 0 then
                do { s \<leftarrow> DEBUGER LIGHT_RED ''Failed to allocate kernel stack'' [] s; Some (None, s) }
              else
                (let (ustack, s) = get_physical_page s;
                     s = set_proc free_slot (\<lambda>p. p\<lparr>user_stack := ustack\<rparr>) s
                 in if user_stack (proc free_slot s) = 0 then
                      do { s \<leftarrow> DEBUGER LIGHT_RED ''Failed to allocate user stack'' [] s;
                           Some (None, free_physical_page (kernel_stack (proc free_slot s)) s) }
                    else
                      (let s = set_proc free_slot (\<lambda>p. p\<lparr>ctx := zero_context\<rparr>) s;
                           s = set_proc free_slot (\<lambda>p. p\<lparr>ctx := (ctx p)\<lparr>c_rip := entry_point, c_cs := 0x08, c_ss := 0x10,
                                 c_rsp := kernel_stack p + KERNEL_STACK_SIZE, c_rflags := 0x202\<rparr>\<rparr>) s
                       in Some (Some free_slot, s\<lparr>process_count := process_count s + 1\<rparr>)))))"

definition clear_process :: "process_t \<Rightarrow> process_t" where
  "clear_process p =
     p\<lparr>state := PROCESS_UNUSED, pid := 0, parent := None, kernel_stack := 0, user_stack := 0, page_table := 0\<rparr>"

definition InitProcessManager :: "u64 \<Rightarrow> 'a process_mgr_scheme \<Rightarrow> 'a process_mgr_scheme option" where
  "InitProcessManager idle_process s =
     (let s = s\<lparr>current_process := None, next_pid := 1, process_count := 0\<rparr>;
          s = fold (\<lambda>i. set_proc i clear_process) [0..<MAX_PROCESSES] s
      in do { (idle, s) \<leftarrow> create_process idle_process s;
              let s = (case idle of
                         Some i \<Rightarrow> (set_proc i (\<lambda>p. p\<lparr>pid := 1\<rparr>) s)\<lparr>current_process := Some i\<rparr>
                       | None \<Rightarrow>
                           (let s = s\<lparr>current_process := Some 0\<rparr>;
                                s = set_proc 0 (\<lambda>p. p\<lparr>pid := 1, state := PROCESS_RUNNING,
                                      page_table := get_kernel_page_table s, brk := 0x400000\<rparr>) s
                            in s\<lparr>process_count := 1\<rparr>));
              DEBUGER LIGHT_RED ''Process manager initialized with %d processes'' [VInt (ucast (process_count s))] s })"

text \<open>
  \<^verbatim>\<open>switch_process(old, new)\<close>, entered with the return address on the stack. It stores and
  loads the stack pointer at offset 0 of the two contexts, which is the field \<^verbatim>\<open>r15\<close>.
\<close>

definition callee_saved :: "reg list" where
  "callee_saved = [RBP, RBX, R12, R13, R14, R15]"

definition switch_process :: "nat \<Rightarrow> nat \<Rightarrow> 'a process_mgr_scheme \<Rightarrow> 'a process_mgr_scheme" where
  "switch_process old new s =
     (let s = fold push_reg callee_saved s;
          s = set_proc old (\<lambda>p. p\<lparr>ctx := (ctx p)\<lparr>c_r15 := regs s RSP\<rparr>\<rparr>) s;
          s = set_reg RSP (c_r15 (ctx (proc new s))) s;
          s = fold pop_reg (rev callee_saved) s
      in pop_reg RIP s)"

fun schedule_loop :: "nat \<Rightarrow> u64 \<Rightarrow> nat \<Rightarrow> nat \<Rightarrow> 'a process_mgr_scheme \<Rightarrow> (unit outcome \<times> 'a process_mgr_scheme) option" where
  "schedule_loop 0 return_addr current next_index s = Some (Returns (), s)"
| "schedule_loop (Suc n) return_addr current next_index s =
     (if state (proc next_index s) = PROCESS_READY \<and> next_index \<noteq> current then
        (let s = s\<lparr>current_process := Some next_index\<rparr>
         in do { s \<leftarrow> DEBUGER LIGHT_MAGENTA ''Context switch: %d -> %d''
                   [VInt (ucast (pid (proc current s))), VInt (ucast (pid (proc next_index s)))] s;
                 Some (Switched, switch_process current next_index (push_val return_addr s)) })
      else schedule_loop n return_addr current ((next_index + 1) mod MAX_PROCESSES) s)"

definition schedule :: "u64 \<Rightarrow> 'a process_mgr_scheme \<Rightarrow> (unit outcome \<times> 'a process_mgr_scheme) option" where
  "schedule return_addr s =
     (if process_count s \<le> 1 then Some (Returns (), s)
      else do { current_index \<leftarrow> current_process s;
                schedule_loop MAX_PROCESSES return_addr current_index ((current_index + 1) mod MAX_PROCESSES) s })"

definition get_current_pid :: "'a process_mgr_scheme \<Rightarrow> (u32 \<times> 'a process_mgr_scheme) option" where
  "get_current_pid s =
     (case current_process s of
        None \<Rightarrow> do { s \<leftarrow> DEBUGER LIGHT_RED ''CRITICAL: current_process is NULL!'' [] s; Some (0, s) }
      | Some c \<Rightarrow>
          if pid (proc c s) = 0
          then do { s \<leftarrow> DEBUGER LIGHT_RED ''CRITICAL: current_process->pid is 0!'' [] s; Some (0, s) }
          else Some (pid (proc c s), s))"

definition get_current_process :: "'a process_mgr_scheme \<Rightarrow> nat option" where
  "get_current_process s = current_process s"

text \<open>The handlers of the process system calls; \<^verbatim>\<open>-1\<close> is the all-ones word.\<close>

definition sys_fork_handler :: "'a process_mgr_scheme \<Rightarrow> (u64 \<times> 'a process_mgr_scheme) option" where
  "sys_fork_handler s =
     do { (p, s) \<leftarrow> get_current_pid s;
          s \<leftarrow> DEBUGER LIGHT_CYAN ''sys_fork called from process %d'' [VInt (ucast p)] s;
          current \<leftarrow> current_process s;
          (child, s) \<leftarrow> create_process (c_rip (ctx (proc current s))) s;
          case child of
            None \<Rightarrow> Some (- 1, s)
          | Some c \<Rightarrow>
              (let s = set_proc c (\<lambda>p. p\<lparr>ctx := ctx (proc current s)\<rparr>) s;
                   s = set_proc c (\<lambda>p. p\<lparr>ctx := (ctx p)\<lparr>c_rax := 0\<rparr>\<rparr>) s
               in Some (ucast (pid (proc c s)), s)) }"

definition sys_exec_handler :: "cptr \<Rightarrow> 'a process_mgr_scheme \<Rightarrow> (u64 \<times> 'a process_mgr_scheme) option" where
  "sys_exec_handler path s =
     do { s \<leftarrow> DEBUGER LIGHT_CYAN ''sys_exec called with path: %s'' [VStr path] s; Some (- 1, s) }"

definition sys_exit_handler_real :: "u64 \<Rightarrow> u32 \<Rightarrow> 'a process_mgr_scheme \<Rightarrow> (u64 outcome \<times> 'a process_mgr_scheme) option" where
  "sys_exit_handler_real return_addr status s =
     do { (p, s) \<leftarrow> get_current_pid s;
          s \<leftarrow> DEBUGER LIGHT_CYAN ''Process %d exiting with status %d'' [VInt (ucast p), VInt (ucast status)] s;
          let s = (case current_process s of
                     None \<Rightarrow> s
                   | Some c \<Rightarrow>
                       (set_proc c (\<lambda>p. p\<lparr>state := PROCESS_ZOMBIE, exit_code := status\<rparr>) s)
                         \<lparr>process_count := process_count s - 1\<rparr>);
          (r, s) \<leftarrow> schedule return_addr s;
          case r of
            Switched \<Rightarrow> Some (Switched, s)
          | Returns _ \<Rightarrow> Some (Returns 0, s) }"

definition sys_wait_handler :: "'a process_mgr_scheme \<Rightarrow> (u64 \<times> 'a process_mgr_scheme) option" where
  "sys_wait_handler s =
     do { (p, s) \<leftarrow> get_current_pid s;
          s \<leftarrow> DEBUGER LIGHT_CYAN ''sys_wait called from process %d'' [VInt (ucast p)] s;
          Some (- 1, s) }"

text \<open>\<open>process_addr table_addr c\<close> is the value of the pointer \<^verbatim>\<open>current_process\<close>: a \<^verbatim>\<open>process_t\<close> has 216 bytes.\<close>

fun process_addr :: "u64 \<Rightarrow> nat option \<Rightarrow> u64" where
  "process_addr table_addr None = 0"
| "process_addr table_addr (Some c) = table_addr + 216 * of_nat c"

definition sys_getpid_handler_real :: "u64 \<Rightarrow> 'a process_mgr_scheme \<Rightarrow> (u64 \<times> 'a process_mgr_scheme) option" where
  "sys_getpid_handler_real table_addr s =
     do { (p, s) \<leftarrow> get_current_pid s;
          s \<leftarrow> (if p = 0 then
                  do { s \<leftarrow> DEBUGER LIGHT_RED ''WARNING: get_current_pid() returned 0'' [] s;
                       s \<leftarrow> DEBUGER LIGHT_RED ''current_process = 0x%x'' [VInt (process_addr table_addr (current_process s))] s;
                       case current_process s of
                         None \<Rightarrow> Some s
                       | Some c \<Rightarrow> DEBUGER LIGHT_RED ''current_process->pid = %d'' [VInt (ucast (pid (proc c s)))] s }
                else Some s);
          Some (ucast p, s) }"

definition sys_brk_handler :: "u64 \<Rightarrow> 'a process_mgr_scheme \<Rightarrow> u64 \<times> 'a process_mgr_scheme" where
  "sys_brk_handler addr s =
     (case current_process s of
        None \<Rightarrow> (0, s)
      | Some c \<Rightarrow>
          (let s = (if addr \<noteq> 0 then set_proc c (\<lambda>p. p\<lparr>brk := addr\<rparr>) s else s)
           in (brk (proc c s), s)))"

text \<open>A call of an operation that always returns, where other operations may switch.\<close>

definition returning :: "('v \<times> 's) option \<Rightarrow> ('v outcome \<times> 's) option" where
  "returning x = map_option (\<lambda>(v, s). (Returns v, s)) x"

lemma returning_simps [simp]: "returning (Some (v, s)) = Some (Returns v, s)" "returning None = None"
  by (simp_all add: returning_def)

subsection \<open>What messages and the allocator leave alone\<close>

definition hw_view :: "'a irq_state_scheme
    \<Rightarrow> (u16 \<times> u64) \<times> IDTEntry list \<times> (u16 \<times> u64) \<times> u64 list \<times> u64 \<times> (u32 \<Rightarrow> u64) \<times> bool" where
  "hw_view s = (gdtr s, idt s, idtr s, irq_handlers s, cr3 s, msr s, interrupts_enabled s)"

definition proc_view :: "'a process_mgr_scheme
    \<Rightarrow> process_t list \<times> nat option \<times> u32 \<times> u32 \<times> (reg \<Rightarrow> u64) \<times> u64 \<times> _ \<times> 'a" where
  "proc_view s = (processes s, current_process s, next_pid s, process_count s, regs s, kernel_pml4 s, hw_view s, process_mgr.more s)"

text \<open>\<open>kept A s t\<close>: from \<open>s\<close> to \<open>t\<close> nothing of the processes changes, and \<open>A\<close> are the free pages of \<open>t\<close>.\<close>

definition kept :: "u64 set \<Rightarrow> 'a process_mgr_scheme \<Rightarrow> 'a process_mgr_scheme \<Rightarrow> bool" where
  "kept A s t \<longleftrightarrow> proc_view t = proc_view s \<and> alloc_ok t \<and> cursor_ok t \<and> avail_pages t = A \<and> all_pages t = all_pages s"

lemma mm_only_proc_view: "mm_only s t \<Longrightarrow> proc_view t = proc_view s"
  by (elim mm_onlyE) (simp add: proc_view_def hw_view_def)

lemma mm_only_all_pages: "mm_only s t \<Longrightarrow> all_pages t = all_pages s"
  by (elim mm_onlyE) (simp add: all_pages_def)

lemma keptD:
  assumes "kept A s t"
  shows "processes t = processes s" "current_process t = current_process s" "next_pid t = next_pid s"
    "process_count t = process_count s" "regs t = regs s" "kernel_pml4 t = kernel_pml4 s"
    "alloc_ok t" "cursor_ok t" "avail_pages t = A" "all_pages t = all_pages s" "proc i t = proc i s"
    "process_mgr.more t = process_mgr.more s" "hw_view t = hw_view s"
  using assms by (auto simp: kept_def proc_view_def proc_def)

lemma kept_trans: "kept A s t \<Longrightarrow> kept B t u \<Longrightarrow> kept B s u"
  by (simp add: kept_def)

lemma kept_refl: "alloc_ok s \<Longrightarrow> cursor_ok s \<Longrightarrow> kept (avail_pages s) s s"
  by (simp add: kept_def)

text \<open>
  \<open>frame s t\<close>: from \<open>s\<close> to \<open>t\<close> memory changes at most in the page bitmap, on the screen and in
  pages that were free in \<open>s\<close>, and no further page becomes free.
\<close>

definition page_bytes :: "u64 set \<Rightarrow> u64 set" where
  "page_bytes A = (\<Union>p \<in> A. region p 4096)"

definition frame :: "'a memory_scheme \<Rightarrow> 'a memory_scheme \<Rightarrow> bool" where
  "frame s t \<longleftrightarrow> avail_pages t \<subseteq> avail_pages s
     \<and> agree_off (bitmap_area \<union> screen_bytes \<union> page_bytes (avail_pages s)) (mem s) (mem t)"

lemma frame_refl [simp, intro]: "frame s s"
  by (simp add: frame_def)

lemma frame_trans [trans]:
  assumes "frame s t" "frame t u"
  shows "frame s u"
proof -
  have "page_bytes (avail_pages t) \<subseteq> page_bytes (avail_pages s)" using assms(1) by (auto simp: frame_def page_bytes_def)
  then show ?thesis using assms by (auto simp: frame_def agree_off_def)
qed

lemma frame_same:
  assumes "mem t = mem s" "avail_pages t = avail_pages s"
  shows "frame s t" "frame u s = frame u t"
  using assms by (simp_all add: frame_def)

lemma screen_only_frame: "screen_only s t \<Longrightarrow> alloc_ok s \<Longrightarrow> frame s t"
  by (auto simp: frame_def screen_only_avail intro: agree_off_mono [OF screen_only_mem])

lemma get_physical_page_frame:
  assumes "alloc_ok s" "get_physical_page s = (p, t)"
  shows "frame s t"
proof (cases "avail_pages s = {}")
  case True
  then show ?thesis using pa.alloc_none [OF assms(1)] assms(2) by simp
next
  case False
  note some = get_physical_page_some [OF assms(1) False assms(2)]
  have "region p 4096 \<subseteq> page_bytes (avail_pages s)" using some(1) by (auto simp: page_bytes_def)
  then have "agree_off (bitmap_area \<union> screen_bytes \<union> page_bytes (avail_pages s)) (mem s) (mem t)"
    by (intro agree_off_mono [OF some(7)]) auto
  then show ?thesis using some(4) by (simp add: frame_def)
qed

lemma free_physical_page_frame:
  assumes "alloc_ok t" "frame s t" "p \<in> avail_pages s"
  shows "frame s (free_physical_page p t)"
proof (cases "p \<in> all_pages t - avail_pages t")
  case True
  have b: "alloc_bounds t" using assms(1) by (simp add: alloc_ok_def)
  obtain i where i: "p = page_addr i" "i < total_pages t" "\<not> page_free t i" using owned_page [OF b True] .
  have eq: "free_physical_page p t = give_page i t" using i by (simp add: free_physical_page_addr [OF b i(2)])
  have "agree_off (region p 4096 \<union> bitmap_area) (mem t) (mem (free_physical_page p t))"
    using give_page_agree [OF b i(2)] eq i(1) by simp
  moreover have "region p 4096 \<subseteq> page_bytes (avail_pages s)" using assms(3) by (auto simp: page_bytes_def)
  moreover have "avail_pages (free_physical_page p t) = insert p (avail_pages t)" using pa.release_page [OF assms(1) True] by simp
  ultimately show ?thesis using assms(2,3) by (auto simp: frame_def agree_off_def)
next
  case False
  then show ?thesis using pa.release_other [OF assms(1)] assms(2) by simp
qed

lemma DEBUGER_kept:
  assumes "alloc_ok s" "cursor_ok s" "fmt_ok msg args"
  shows "\<exists>t. DEBUGER c msg args s = Some t \<and> kept (avail_pages s) s t \<and> frame s t"
proof -
  obtain t where t: "DEBUGER c msg args s = Some t" "cursor_ok t" "screen_only s t"
    using DEBUGER_ok [OF assms(3,2)] by blast
  then have "kept (avail_pages s) s t"
    using screen_only_alloc_ok [OF t(3) assms(1)] screen_only_avail [OF t(3) assms(1)]
      mm_only_proc_view [OF screen_only_mm_only] mm_only_all_pages [OF screen_only_mm_only] unfolding kept_def by blast
  with t(1) screen_only_frame [OF t(3) assms(1)] show ?thesis by blast
qed

lemma get_physical_page_kept:
  assumes "alloc_ok s" "cursor_ok s" "get_physical_page s = (p, t)" "avail_pages s \<noteq> {}"
  shows "p \<in> avail_pages s" "p = Min (avail_pages s)" "p \<noteq> 0" "kept (avail_pages s - {p}) s t"
proof -
  note some = get_physical_page_some [OF assms(1,4,3)]
  show "p \<in> avail_pages s" "p = Min (avail_pages s)" "p \<noteq> 0" by (fact some)+
  have "mm_only s t" "crtc_regs t = crtc_regs s"
    by (rule mm_onlyI [where u = "used_pages s + 1" and i = "crtc_index s" and r = "crtc_regs s"]; subst some(8); simp)
       (subst some(8), simp)
  moreover from this(2) have "cursor_ok t" using assms(2) cursor_ok_regs by blast
  ultimately show "kept (avail_pages s - {p}) s t"
    using some(4,5) by (simp add: kept_def mm_only_proc_view mm_only_all_pages)
qed

lemma free_physical_page_kept:
  assumes "alloc_ok s" "cursor_ok s" "p \<in> all_pages s - avail_pages s"
  shows "kept (insert p (avail_pages s)) s (free_physical_page p s)"
proof -
  have "proc_view (free_physical_page p s) = proc_view s" "crtc_regs (free_physical_page p s) = crtc_regs s"
    by (simp_all add: free_physical_page_def proc_view_def hw_view_def set_map_bit_def memset_def Let_def)
  then show ?thesis
    using pa.release_page [OF assms(1,3)] assms(2) cursor_ok_regs unfolding kept_def by blast
qed

lemma set_proc_simps [simp]:
  "current_process (set_proc i f s) = current_process s" "next_pid (set_proc i f s) = next_pid s"
  "process_count (set_proc i f s) = process_count s" "regs (set_proc i f s) = regs s" "mem (set_proc i f s) = mem s"
  "kernel_pml4 (set_proc i f s) = kernel_pml4 s" "length (processes (set_proc i f s)) = length (processes s)"
  "process_mgr.more (set_proc i f s) = process_mgr.more s" "hw_view (set_proc i f s) = hw_view s"
  by (simp_all add: set_proc_def hw_view_def)

lemma hw_view_process [simp]:
  "hw_view (s\<lparr>current_process := c\<rparr>) = hw_view s" "hw_view (s\<lparr>next_pid := n\<rparr>) = hw_view s"
  "hw_view (s\<lparr>process_count := k\<rparr>) = hw_view s" "hw_view (s\<lparr>processes := ps\<rparr>) = hw_view s"
  by (simp_all add: hw_view_def)

lemma proc_set_proc: "proc j (set_proc i f s) = (if i = j \<and> i < length (processes s) then f (proc i s) else proc j s)"
  by (cases "i < length (processes s)") (auto simp: proc_def set_proc_def list_update_beyond)

lemma proc_update [simp]:
  "proc j (s\<lparr>current_process := c\<rparr>) = proc j s" "proc j (s\<lparr>next_pid := n\<rparr>) = proc j s" "proc j (s\<lparr>process_count := k\<rparr>) = proc j s"
  by (simp_all add: proc_def)

lemma set_proc_twice [simp]: "i < length (processes s) \<Longrightarrow> set_proc i g (set_proc i f s) = set_proc i (g \<circ> f) s"
  by (simp add: set_proc_def)

lemma cursor_ok_process [simp]:
  "cursor_ok (set_proc i f s) = cursor_ok s" "cursor_ok (s\<lparr>current_process := c\<rparr>) = cursor_ok s"
  "cursor_ok (s\<lparr>next_pid := n\<rparr>) = cursor_ok s" "cursor_ok (s\<lparr>process_count := k\<rparr>) = cursor_ok s"
  by (rule cursor_ok_regs; simp add: set_proc_def)+

lemma alloc_process [simp]:
  "alloc_ok (set_proc i f s) = alloc_ok s" "alloc_ok (s\<lparr>current_process := c\<rparr>) = alloc_ok s"
  "alloc_ok (s\<lparr>next_pid := n\<rparr>) = alloc_ok s" "alloc_ok (s\<lparr>process_count := k\<rparr>) = alloc_ok s"
  "avail_pages (set_proc i f s) = avail_pages s" "avail_pages (s\<lparr>current_process := c\<rparr>) = avail_pages s"
  "avail_pages (s\<lparr>next_pid := n\<rparr>) = avail_pages s" "avail_pages (s\<lparr>process_count := k\<rparr>) = avail_pages s"
  by (rule alloc_view; simp add: set_proc_def)+

lemma all_pages_process [simp]:
  "all_pages (set_proc i f s) = all_pages s" "all_pages (s\<lparr>current_process := c\<rparr>) = all_pages s"
  "all_pages (s\<lparr>next_pid := n\<rparr>) = all_pages s" "all_pages (s\<lparr>process_count := k\<rparr>) = all_pages s"
  by (simp_all add: all_pages_def set_proc_def)

lemma find_free_slotD:
  assumes "find_free_slot s = Some i"
  shows "i < 64" "state (proc i s) = PROCESS_UNUSED" "\<And>j. j < i \<Longrightarrow> state (proc j s) \<noteq> PROCESS_UNUSED"
  using assms by (auto simp: find_free_slot_def find_Some_iff)

lemma find_free_slot_None: "find_free_slot s = None \<longleftrightarrow> (\<forall>i<64. state (proc i s) \<noteq> PROCESS_UNUSED)"
  by (auto simp: find_free_slot_def find_None_iff)

subsection \<open>Creating a process\<close>

text \<open>The record of a slot after the first part of \<open>create_process\<close>, and of a process created.\<close>

definition claimed :: "'a process_mgr_scheme \<Rightarrow> process_t \<Rightarrow> process_t" where
  "claimed s p = p\<lparr>pid := next_pid s, state := PROCESS_READY, page_table := kernel_pml4 s,
     parent := current_process s, brk := 0x400000\<rparr>"

definition entry_context :: "u64 \<Rightarrow> u64 \<Rightarrow> process_context_t" where
  "entry_context entry_point stack =
     zero_context\<lparr>c_rip := entry_point, c_cs := 0x08, c_ss := 0x10, c_rsp := stack + KERNEL_STACK_SIZE, c_rflags := 0x202\<rparr>"

definition claim_slot :: "nat \<Rightarrow> (process_t \<Rightarrow> process_t) \<Rightarrow> 'a process_mgr_scheme \<Rightarrow> 'a process_mgr_scheme" where
  "claim_slot i f s = (set_proc i (f \<circ> claimed s) s)\<lparr>next_pid := next_pid s + 1\<rparr>"

lemma claim_slot_simps [simp]:
  "current_process (claim_slot i f s) = current_process s" "next_pid (claim_slot i f s) = next_pid s + 1"
  "process_count (claim_slot i f s) = process_count s" "regs (claim_slot i f s) = regs s"
  "kernel_pml4 (claim_slot i f s) = kernel_pml4 s" "length (processes (claim_slot i f s)) = length (processes s)"
  "alloc_ok (claim_slot i f s) = alloc_ok s" "cursor_ok (claim_slot i f s) = cursor_ok s"
  "avail_pages (claim_slot i f s) = avail_pages s" "all_pages (claim_slot i f s) = all_pages s"
  "process_mgr.more (claim_slot i f s) = process_mgr.more s" "hw_view (claim_slot i f s) = hw_view s"
  by (simp_all add: claim_slot_def)

lemma proc_claim_slot:
  "proc j (claim_slot i f s) = (if i = j \<and> i < length (processes s) then f (claimed s (proc i s)) else proc j s)"
  by (simp add: claim_slot_def proc_set_proc)

text \<open>The four outcomes of \<open>create_process\<close>.\<close>

lemma create_process_unfold:
  assumes "find_free_slot s = Some i" "length (processes s) = 64"
  shows "create_process e s =
    (let (kstack, t) = get_physical_page (claim_slot i id s);
         t = set_proc i (\<lambda>p. p\<lparr>kernel_stack := kstack\<rparr>) t
     in if kernel_stack (proc i t) = 0 then
          do { t \<leftarrow> DEBUGER LIGHT_RED ''Failed to allocate kernel stack'' [] t; Some (None, t) }
        else
          (let (ustack, t) = get_physical_page t;
               t = set_proc i (\<lambda>p. p\<lparr>user_stack := ustack\<rparr>) t
           in if user_stack (proc i t) = 0 then
                do { t \<leftarrow> DEBUGER LIGHT_RED ''Failed to allocate user stack'' [] t;
                     Some (None, free_physical_page (kernel_stack (proc i t)) t) }
              else Some (Some i, (set_proc i (\<lambda>p. p\<lparr>ctx := entry_context e (kernel_stack p)\<rparr>) t)
                     \<lparr>process_count := process_count t + 1\<rparr>)))"
proof -
  have i: "i < 64" using find_free_slotD [OF assms(1)] by simp
  have c: "claim_slot i id s =
    (let s = set_proc i (\<lambda>p. p\<lparr>pid := next_pid s\<rparr>) s;
         s = s\<lparr>next_pid := next_pid s + 1\<rparr>;
         s = set_proc i (\<lambda>p. p\<lparr>state := PROCESS_READY\<rparr>) s;
         kernel_pt = get_kernel_page_table s;
         s = set_proc i (\<lambda>p. p\<lparr>page_table := kernel_pt\<rparr>) s
     in set_proc i (\<lambda>p. p\<lparr>parent := current_process s, brk := 0x400000\<rparr>) s)"
    using i assms(2) by (simp add: claim_slot_def set_proc_def claimed_def get_kernel_page_table_def)
  have d: "set_proc i (\<lambda>p. p\<lparr>ctx := (ctx p)\<lparr>c_rip := e, c_cs := 0x08, c_ss := 0x10,
        c_rsp := kernel_stack p + KERNEL_STACK_SIZE, c_rflags := 0x202\<rparr>\<rparr>) (set_proc i (\<lambda>p. p\<lparr>ctx := zero_context\<rparr>) t) =
      set_proc i (\<lambda>p. p\<lparr>ctx := entry_context e (kernel_stack p)\<rparr>) t" for t :: "'a process_mgr_scheme"
    by (cases "i < length (processes t)") (simp_all add: set_proc_def entry_context_def list_update_beyond)
  show ?thesis
    unfolding create_process_def assms(1) option.case Let_def c d [symmetric] by (simp add: split_beta)
qed

lemma kept_set_proc: "kept A s t \<Longrightarrow> kept A (set_proc i f s) (set_proc i f t)"
  by (simp add: kept_def proc_view_def) (simp add: set_proc_def)

lemma kept_count: "kept A s t \<Longrightarrow> kept A (s\<lparr>process_count := k\<rparr>) (t\<lparr>process_count := k\<rparr>)"
  by (simp add: kept_def proc_view_def)

lemma claim_slot_then: "i < length (processes s) \<Longrightarrow> set_proc i g (claim_slot i f s) = claim_slot i (g \<circ> f) s"
  by (simp add: claim_slot_def set_proc_def)

lemma create_process_no_slot:
  assumes "alloc_ok s" "cursor_ok s" "find_free_slot s = None"
  shows "\<exists>t. create_process e s = Some (None, t) \<and> kept (avail_pages s) s t"
  using DEBUGER_kept [OF assms(1,2), of "''No free process slots available''" "[]" LIGHT_RED]
  by (auto simp: create_process_def assms(3))

lemma create_process_no_page:
  assumes "alloc_ok s" "cursor_ok s" "find_free_slot s = Some i" "length (processes s) = 64" "avail_pages s = {}"
  shows "\<exists>t. create_process e s = Some (None, t) \<and> kept {} (claim_slot i (\<lambda>p. p\<lparr>kernel_stack := 0\<rparr>) s) t"
proof -
  have i: "i < length (processes s)" using find_free_slotD(1) [OF assms(3)] assms(4) by simp
  let ?t = "claim_slot i (\<lambda>p. p\<lparr>kernel_stack := 0\<rparr>) s"
  have "get_physical_page (claim_slot i id s) = (0, claim_slot i id s)" using assms(1,5) by (intro pa.alloc_none) simp_all
  moreover have "set_proc i (\<lambda>p. p\<lparr>kernel_stack := 0\<rparr>) (claim_slot i id s) = ?t" using claim_slot_then [OF i] by simp
  moreover have "kernel_stack (proc i ?t) = 0" using i by (simp add: proc_claim_slot)
  ultimately have "create_process e s = do { t \<leftarrow> DEBUGER LIGHT_RED ''Failed to allocate kernel stack'' [] ?t; Some (None, t) }"
    by (simp add: create_process_unfold [OF assms(3,4)])
  then show ?thesis
    using DEBUGER_kept [of ?t "''Failed to allocate kernel stack''" "[]" LIGHT_RED] assms(1,2,5) by auto
qed

text \<open>The first allocation, for the two remaining outcomes.\<close>

lemma create_process_kernel_stack:
  assumes "alloc_ok s" "cursor_ok s" "find_free_slot s = Some i" "length (processes s) = 64" "avail_pages s \<noteq> {}"
  defines "k \<equiv> Min (avail_pages s)"
  obtains t where "kept (avail_pages s - {k}) (claim_slot i (\<lambda>p. p\<lparr>kernel_stack := k\<rparr>) s) t" "k \<in> avail_pages s"
    "create_process e s =
      (let (ustack, t) = get_physical_page t;
           t = set_proc i (\<lambda>p. p\<lparr>user_stack := ustack\<rparr>) t
       in if user_stack (proc i t) = 0 then
            do { t \<leftarrow> DEBUGER LIGHT_RED ''Failed to allocate user stack'' [] t;
                 Some (None, free_physical_page (kernel_stack (proc i t)) t) }
          else Some (Some i, (set_proc i (\<lambda>p. p\<lparr>ctx := entry_context e (kernel_stack p)\<rparr>) t)
                 \<lparr>process_count := process_count t + 1\<rparr>))"
proof -
  have i: "i < length (processes s)" using find_free_slotD(1) [OF assms(3)] assms(4) by simp
  obtain q u where g: "get_physical_page (claim_slot i id s) = (q, u)" by (rule prod.exhaust)
  have pre: "alloc_ok (claim_slot i id s)" "cursor_ok (claim_slot i id s)" "avail_pages (claim_slot i id s) \<noteq> {}"
    using assms by simp_all
  note gp = get_physical_page_kept [OF pre(1,2) g pre(3)]
  have q: "q = k" "k \<noteq> 0" "k \<in> avail_pages s" using gp(1-3) by (simp_all add: k_def)
  let ?t = "set_proc i (\<lambda>p. p\<lparr>kernel_stack := k\<rparr>) u"
  have "kept (avail_pages s - {k}) (set_proc i (\<lambda>p. p\<lparr>kernel_stack := k\<rparr>) (claim_slot i id s)) ?t"
    using kept_set_proc [OF gp(4)] q(1) by simp
  then have k: "kept (avail_pages s - {k}) (claim_slot i (\<lambda>p. p\<lparr>kernel_stack := k\<rparr>) s) ?t"
    using claim_slot_then [OF i] by simp
  have "kernel_stack (proc i ?t) = k" using keptD(11) [OF k, of i] i by (simp add: proc_claim_slot)
  then have "kernel_stack (proc i ?t) \<noteq> 0" using q(2) by simp
  from that [OF k q(3)] show thesis
    unfolding create_process_unfold [OF assms(3,4)] g prod.case Let_def q(1) if_not_P [OF \<open>kernel_stack (proc i ?t) \<noteq> 0\<close>] by simp
qed

lemma create_process_one_page:
  assumes "alloc_ok s" "cursor_ok s" "find_free_slot s = Some i" "length (processes s) = 64" "card (avail_pages s) = 1"
  shows "\<exists>t. create_process e s = Some (None, t)
    \<and> kept (avail_pages s) (claim_slot i (\<lambda>p. p\<lparr>kernel_stack := Min (avail_pages s), user_stack := 0\<rparr>) s) t"
proof -
  let ?k = "Min (avail_pages s)"
  have i: "i < length (processes s)" using find_free_slotD(1) [OF assms(3)] assms(4) by simp
  have ne: "avail_pages s \<noteq> {}" using assms(5) by auto
  obtain t where k: "kept (avail_pages s - {?k}) (claim_slot i (\<lambda>p. p\<lparr>kernel_stack := ?k\<rparr>) s) t" "?k \<in> avail_pages s"
    and c: "create_process e s =
      (let (ustack, t) = get_physical_page t;
           t = set_proc i (\<lambda>p. p\<lparr>user_stack := ustack\<rparr>) t
       in if user_stack (proc i t) = 0 then
            do { t \<leftarrow> DEBUGER LIGHT_RED ''Failed to allocate user stack'' [] t;
                 Some (None, free_physical_page (kernel_stack (proc i t)) t) }
          else Some (Some i, (set_proc i (\<lambda>p. p\<lparr>ctx := entry_context e (kernel_stack p)\<rparr>) t)
                 \<lparr>process_count := process_count t + 1\<rparr>))"
    using create_process_kernel_stack [OF assms(1-4) ne] .
  have e: "avail_pages s - {?k} = {}" using assms(5) k(2) by (auto simp: card_1_singleton_iff)
  have g: "get_physical_page t = (0, t)" using keptD(7,9) [OF k(1)] e by (intro pa.alloc_none) simp_all
  let ?u = "set_proc i (\<lambda>p. p\<lparr>user_stack := 0\<rparr>) t"
  let ?v = "claim_slot i (\<lambda>p. p\<lparr>kernel_stack := ?k, user_stack := 0\<rparr>) s"
  have u: "kept {} ?v ?u" using kept_set_proc [OF k(1), of i "\<lambda>p. p\<lparr>user_stack := 0\<rparr>"] e claim_slot_then [OF i] by (simp add: comp_def)
  have us: "user_stack (proc i ?u) = 0" using keptD(11) [OF u, of i] i by (simp add: proc_claim_slot)
  obtain w where w: "DEBUGER LIGHT_RED ''Failed to allocate user stack'' [] ?u = Some w" "kept (avail_pages ?u) ?u w"
    using DEBUGER_kept [OF keptD(7,8) [OF u], of "''Failed to allocate user stack''" "[]" LIGHT_RED] by auto
  have vw: "kept {} ?v w" using kept_trans [OF u w(2)] keptD(9) [OF u] by simp
  have ks: "kernel_stack (proc i w) = ?k" using keptD(11) [OF vw, of i] i by (simp add: proc_claim_slot)
  have "?k \<in> all_pages s" using k(2) pa.avail_pages [OF assms(1)] by blast
  then have "kept (insert ?k {}) w (free_physical_page ?k w)"
    using free_physical_page_kept [OF keptD(7,8) [OF vw]] keptD(9,10) [OF vw] by simp
  moreover have "insert ?k {} = avail_pages s" using e k(2) by blast
  ultimately have "kept (avail_pages s) ?v (free_physical_page ?k w)" using kept_trans [OF vw] by metis
  moreover have "create_process e s = Some (None, free_physical_page ?k w)"
    unfolding c g prod.case Let_def if_P [OF us] using w(1) ks by simp
  ultimately show ?thesis by blast
qed

lemma create_process_created:
  assumes "alloc_ok s" "cursor_ok s" "find_free_slot s = Some i" "length (processes s) = 64" "2 \<le> card (avail_pages s)"
  shows "\<exists>t k u. create_process e s = Some (Some i, t) \<and> k \<in> avail_pages s \<and> u \<in> avail_pages s \<and> k \<noteq> u
    \<and> kept (avail_pages s - {k, u}) ((claim_slot i (\<lambda>p. p\<lparr>kernel_stack := k, user_stack := u, ctx := entry_context e k\<rparr>) s)
        \<lparr>process_count := process_count s + 1\<rparr>) t"
proof -
  let ?k = "Min (avail_pages s)"
  have i: "i < length (processes s)" using find_free_slotD(1) [OF assms(3)] assms(4) by simp
  have ne: "avail_pages s \<noteq> {}" using assms(5) by auto
  obtain t where k: "kept (avail_pages s - {?k}) (claim_slot i (\<lambda>p. p\<lparr>kernel_stack := ?k\<rparr>) s) t" "?k \<in> avail_pages s"
    and c: "create_process e s =
      (let (ustack, t) = get_physical_page t;
           t = set_proc i (\<lambda>p. p\<lparr>user_stack := ustack\<rparr>) t
       in if user_stack (proc i t) = 0 then
            do { t \<leftarrow> DEBUGER LIGHT_RED ''Failed to allocate user stack'' [] t;
                 Some (None, free_physical_page (kernel_stack (proc i t)) t) }
          else Some (Some i, (set_proc i (\<lambda>p. p\<lparr>ctx := entry_context e (kernel_stack p)\<rparr>) t)
                 \<lparr>process_count := process_count t + 1\<rparr>))"
    using create_process_kernel_stack [OF assms(1-4) ne] .
  obtain u w where g: "get_physical_page t = (u, w)" by (rule prod.exhaust)
  have "card (avail_pages s - {?k}) \<noteq> 0" using assms(5) k(2) by simp
  then have ne': "avail_pages t \<noteq> {}" using keptD(9) [OF k(1)] by auto
  note gp = get_physical_page_kept [OF keptD(7,8) [OF k(1)] g ne']
  have u: "u \<in> avail_pages s" "?k \<noteq> u" "u \<noteq> 0" using gp(1,3) keptD(9) [OF k(1)] by auto
  let ?c = "claim_slot i (\<lambda>p. p\<lparr>kernel_stack := ?k, user_stack := u\<rparr>) s"
  let ?w = "set_proc i (\<lambda>p. p\<lparr>user_stack := u\<rparr>) w"
  have "kept (avail_pages s - {?k, u}) (claim_slot i (\<lambda>p. p\<lparr>kernel_stack := ?k\<rparr>) s) w"
    using kept_trans [OF k(1) gp(4)] keptD(9) [OF k(1)] by (simp add: Diff_insert2 [symmetric] insert_commute)
  from kept_set_proc [OF this, of i "\<lambda>p. p\<lparr>user_stack := u\<rparr>"]
  have w: "kept (avail_pages s - {?k, u}) ?c ?w" using claim_slot_then [OF i] by (simp add: comp_def)
  have us: "user_stack (proc i ?w) \<noteq> 0" using keptD(11) [OF w, of i] i u(3) by (simp add: proc_claim_slot)
  let ?f = "\<lambda>p. p\<lparr>ctx := entry_context e (kernel_stack p)\<rparr>"
  have "set_proc i ?f ?c = claim_slot i (\<lambda>p. p\<lparr>kernel_stack := ?k, user_stack := u, ctx := entry_context e ?k\<rparr>) s"
    using claim_slot_then [OF i] by (simp add: comp_def)
  then have "kept (avail_pages s - {?k, u})
      ((claim_slot i (\<lambda>p. p\<lparr>kernel_stack := ?k, user_stack := u, ctx := entry_context e ?k\<rparr>) s)\<lparr>process_count := process_count s + 1\<rparr>)
      ((set_proc i ?f ?w)\<lparr>process_count := process_count s + 1\<rparr>)"
    using kept_count [OF kept_set_proc [OF w, of i ?f]] by simp
  moreover have "create_process e s = Some (Some i, (set_proc i ?f ?w)\<lparr>process_count := process_count s + 1\<rparr>)"
    unfolding c g prod.case Let_def if_not_P [OF us] using keptD(4) [OF w] by simp
  ultimately show ?thesis using k(2) u(1,2) by blast
qed

text \<open>
  Whatever its outcome, \<open>create_process\<close> writes nothing but the page bitmap, the screen and pages
  that were free, and saves no stack pointer.
\<close>

definition fresh :: "'a process_mgr_scheme \<Rightarrow> bool" where
  "fresh s \<longleftrightarrow> (\<forall>i<64. c_r15 (ctx (proc i s)) = 0)"

lemma frame_updates [simp]:
  "frame u (set_proc i f s) = frame u s" "frame u (s\<lparr>process_count := k\<rparr>) = frame u s" "frame u (s\<lparr>current_process := c\<rparr>) = frame u s"
  "frame u (claim_slot i f s) = frame u s" "frame (claim_slot i f s) u = frame s u" "frame (set_proc i f s) u = frame s u"
  by (simp_all add: frame_def) (simp_all add: claim_slot_def)

lemma get_page_keeps:
  assumes "alloc_ok s" "cursor_ok s" "get_physical_page s = (p, t)"
  shows "alloc_ok t" "cursor_ok t" "frame s t" "processes t = processes s" "p = 0 \<or> p \<in> avail_pages s"
proof -
  have "kept (avail_pages t) s t \<and> (p = 0 \<or> p \<in> avail_pages s)"
  proof (cases "avail_pages s = {}")
    case True
    then show ?thesis using pa.alloc_none [OF assms(1)] assms(3) kept_refl [OF assms(1,2)] by simp
  next
    case False
    note g = get_physical_page_kept [OF assms False]
    have "avail_pages t = avail_pages s - {p}" by (rule keptD(9) [OF g(4)])
    with g(1,4) show ?thesis by simp
  qed
  then show "alloc_ok t" "cursor_ok t" "processes t = processes s" "p = 0 \<or> p \<in> avail_pages s" using keptD(1,7,8) by blast+
  show "frame s t" by (rule get_physical_page_frame [OF assms(1,3)])
qed

lemma create_process_frame:
  assumes "alloc_ok s" "cursor_ok s" "length (processes s) = 64" "create_process e s = Some (r, t)"
  shows "frame s t" "fresh s \<Longrightarrow> fresh t"
proof -
  have fmt: "fmt_ok ''No free process slots available'' []" "fmt_ok ''Failed to allocate kernel stack'' []"
    "fmt_ok ''Failed to allocate user stack'' []" by simp_all
  have dbg: "frame u w \<and> alloc_ok w \<and> (\<forall>j. proc j w = proc j u)"
    if "alloc_ok u" "cursor_ok u" "fmt_ok msg []" "DEBUGER c msg [] u = Some w" for u w :: "'a process_mgr_scheme" and c msg
    using DEBUGER_kept [OF that(1-3), of c] that(4) keptD(7,11) by fastforce
  have "frame s t \<and> (fresh s \<longrightarrow> fresh t)"
  proof (cases "find_free_slot s")
    case None
    then obtain w where "DEBUGER LIGHT_RED ''No free process slots available'' [] s = Some w" "t = w"
      using assms(4) by (auto simp: create_process_def split: Option.bind_splits)
    then show ?thesis using dbg [OF assms(1,2) fmt(1)] by (auto simp: fresh_def)
  next
    case (Some i)
    obtain k t1 where g: "get_physical_page (claim_slot i id s) = (k, t1)" by (rule prod.exhaust)
    note gk = get_page_keeps [OF _ _ g, simplified, OF assms(1,2)]
    let ?t1 = "set_proc i (\<lambda>p. p\<lparr>kernel_stack := k\<rparr>) t1"
    obtain u t2 where g2: "get_physical_page ?t1 = (u, t2)" by (rule prod.exhaust)
    note gu = get_page_keeps [OF _ _ g2, simplified, OF gk(1,2)]
    let ?t2 = "set_proc i (\<lambda>p. p\<lparr>user_stack := u\<rparr>) t2"
    have f1: "frame s ?t1" and f2: "frame s ?t2" using gk(3) frame_trans [OF gk(3) gu(3)] by simp_all
    have i: "i < 64" by (rule find_free_slotD [OF Some])
    have p: "proc j t1 = proc j (claim_slot i id s)" "proc j t2 = proc j ?t1" "length (processes t1) = 64" "length (processes t2) = 64" for j
      using gk(4) gu(4) assms(3) by (simp_all add: proc_def)
    have ks: "kernel_stack (proc i ?t1) = k" "kernel_stack (proc i ?t2) = k" using i p by (simp_all add: proc_set_proc)
    have c: "ctx (proc j ?t1) = ctx (proc j s)" "ctx (proc j ?t2) = ctx (proc j s)" for j
      using p by (auto simp: proc_set_proc proc_claim_slot claimed_def)
    note step = assms(4) [unfolded create_process_unfold [OF Some assms(3)] Let_def g prod.case g2]
    consider (k) w where "DEBUGER LIGHT_RED ''Failed to allocate kernel stack'' [] ?t1 = Some w" "t = w"
      | (u) w where "DEBUGER LIGHT_RED ''Failed to allocate user stack'' [] ?t2 = Some w"
          "t = free_physical_page (kernel_stack (proc i w)) w" "kernel_stack (proc i ?t1) \<noteq> 0"
      | (new) "t = (set_proc i (\<lambda>p. p\<lparr>ctx := entry_context e (kernel_stack p)\<rparr>) ?t2)\<lparr>process_count := process_count ?t2 + 1\<rparr>"
      using step by (auto split: if_splits Option.bind_splits)
    then show ?thesis
    proof cases
      case k
      have "frame ?t1 w" "\<forall>j. proc j w = proc j ?t1" using dbg [OF _ _ fmt(2) k(1)] gk(1,2) by simp_all
      then show ?thesis using k(2) frame_trans [OF f1] c(1) by (auto simp: fresh_def)
    next
      case u
      have w: "frame ?t2 w" "alloc_ok w" "\<forall>j. proc j w = proc j ?t2" using dbg [OF _ _ fmt(3) u(1)] gu(1,2) by simp_all
      then have t: "t = free_physical_page k w" "k \<in> avail_pages s" using u(2,3) ks gk(5) by simp_all
      have "frame s w" using frame_trans [OF f2 w(1)] .
      then have "frame s t" unfolding t(1) by (rule free_physical_page_frame [OF w(2) _ t(2)])
      moreover have "proc j t = proc j w" for j
        by (simp add: t(1) free_physical_page_def set_map_bit_def memset_def Let_def proc_def)
      ultimately show ?thesis using w(3) c by (simp add: fresh_def)
    next
      case new
      then show ?thesis using f2 c by (simp add: fresh_def proc_set_proc entry_context_def zero_context_def)
    qed
  qed
  then show "frame s t" "fresh s \<Longrightarrow> fresh t" by simp_all
qed

end
