(* ===== verification/Scheduling.thy ===== *)
theory Scheduling
  imports Process
begin

text \<open>
  The context switch and the scheduler: what \<open>switch_process\<close> saves and restores, which
  process \<open>schedule\<close> chooses, and that it comes round to every ready process.
\<close>

subsection \<open>The context switch\<close>

lemma callee_saved_facts:
  "RSP \<notin> set callee_saved" "distinct callee_saved" "length callee_saved = 6" "length callee_saved \<le> 1000" "RIP \<notin> set callee_saved"
  by (simp_all add: callee_saved_def)

text \<open>The part up to the switch of the stack, and the part after it.\<close>

definition switch_save :: "nat \<Rightarrow> 'a process_mgr_scheme \<Rightarrow> 'a process_mgr_scheme" where
  "switch_save old s =
     (let s = fold push_reg callee_saved s
      in set_proc old (\<lambda>p. p\<lparr>ctx := (ctx p)\<lparr>c_r15 := regs s RSP\<rparr>\<rparr>) s)"

definition switch_load :: "u64 \<Rightarrow> 'a machine_scheme \<Rightarrow> 'a machine_scheme" where
  "switch_load sp s = pop_reg RIP (fold pop_reg (rev callee_saved) (set_reg RSP sp s))"

lemma switch_process_parts:
  "switch_process old new s = switch_load (c_r15 (ctx (proc new (switch_save old s)))) (switch_save old s)"
  by (simp add: switch_process_def switch_save_def switch_load_def Let_def)

lemma switch_load_form: "switch_load sp s = s\<lparr>regs := regs (switch_load sp s)\<rparr>"
proof -
  let ?t = "fold pop_reg (rev callee_saved) (set_reg RSP sp s)"
  have "?t = s\<lparr>regs := regs ?t\<rparr>" by (subst pop_form) (simp add: set_reg_def)
  then obtain r where "?t = s\<lparr>regs := r\<rparr>" by blast
  then show ?thesis by (simp add: switch_load_def pop_reg_def set_reg_def Let_def)
qed

lemma switch_load_regs:
  "regs (switch_load sp s) RSP = sp + 56" "regs (switch_load sp s) RIP = read_u64 (mem s) (sp + 48)"
  "k < 6 \<Longrightarrow> regs (switch_load sp s) (rev callee_saved ! k) = read_u64 (mem s) (sp + 8 * of_nat k)"
proof -
  let ?t = "fold pop_reg (rev callee_saved) (set_reg RSP sp s)"
  have rv: "RSP \<notin> set (rev callee_saved)" "distinct (rev callee_saved)" by (simp_all add: callee_saved_facts)
  note pop = pop_fold [OF rv, where s = "set_reg RSP sp s"]
  have sp: "regs ?t RSP = sp + 48" and m: "mem ?t = mem s" using pop(1,2) by (simp_all add: set_reg_def callee_saved_facts)
  have l: "regs (switch_load sp s) = (regs ?t)(RSP := sp + 56, RIP := read_u64 (mem s) (sp + 48))"
    using sp m by (simp add: switch_load_def pop_reg_def set_reg_def Let_def add.commute)
  then show "regs (switch_load sp s) RSP = sp + 56" "regs (switch_load sp s) RIP = read_u64 (mem s) (sp + 48)" by simp_all
  assume k: "k < 6"
  then have kl: "k < length (rev callee_saved)" by (simp add: callee_saved_facts)
  then have "rev callee_saved ! k \<in> set callee_saved" using nth_mem [OF kl] by simp
  then have "rev callee_saved ! k \<noteq> RSP" "rev callee_saved ! k \<noteq> RIP" using callee_saved_facts(1,5) by auto
  then show "regs (switch_load sp s) (rev callee_saved ! k) = read_u64 (mem s) (sp + 8 * of_nat k)"
    using pop(3) [OF kl] by (simp add: l set_reg_def)
qed

lemma switch_save_form:
  "\<exists>m r. switch_save i s = (set_proc i (\<lambda>p. p\<lparr>ctx := (ctx p)\<lparr>c_r15 := regs s RSP - 48\<rparr>\<rparr>) s)\<lparr>mem := m, regs := r\<rparr>
    \<and> agree_off (region (regs s RSP - 48) 48) (mem s) m
    \<and> (\<forall>k<6. read_u64 m (regs s RSP - 48 + 8 * of_nat k) = regs s (rev callee_saved ! k))
    \<and> r = (regs s)(RSP := regs s RSP - 48)"
proof -
  let ?p = "fold push_reg callee_saved s"
  note pf = push_fold [OF callee_saved_facts(1,4), where s = s]
  obtain m r where f: "?p = s\<lparr>mem := m, regs := r\<rparr>" using push_form by blast
  have r: "r = (regs s)(RSP := regs s RSP - 48)" using pf(1) by (simp add: f callee_saved_facts)
  have "agree_off (region (regs s RSP - 48) 48) (mem s) m" using pf(3) by (simp add: f callee_saved_facts)
  moreover have "read_u64 m (regs s RSP - 48 + 8 * of_nat k) = regs s (rev callee_saved ! k)" if "k < 6" for k
  proof -
    have a: "rev callee_saved ! k = callee_saved ! (5 - k)" using that by (simp add: rev_nth callee_saved_facts)
    have b: "regs s RSP - 8 * of_nat (Suc (5 - k)) = regs s RSP - 48 + 8 * of_nat k"
      using that by (simp add: of_nat_diff algebra_simps)
    have "5 - k < length callee_saved" by (simp add: callee_saved_facts)
    from pf(2) [OF this] show ?thesis unfolding a b f by simp
  qed
  moreover have "switch_save i s = (set_proc i (\<lambda>p. p\<lparr>ctx := (ctx p)\<lparr>c_r15 := regs s RSP - 48\<rparr>\<rparr>) s)\<lparr>mem := m, regs := r\<rparr>"
    by (simp add: switch_save_def Let_def f r set_proc_def)
  ultimately show ?thesis using r by blast
qed

text \<open>What a switch from \<open>i\<close> to \<open>j\<close> leaves: the saved words of \<open>i\<close>, and the registers loaded for \<open>j\<close>.\<close>

definition saved_at :: "memory_bytes \<Rightarrow> u64 \<Rightarrow> (reg \<Rightarrow> u64) \<Rightarrow> bool" where
  "saved_at m sp r \<longleftrightarrow> (\<forall>k<6. read_u64 m (sp + 8 * of_nat k) = r (rev callee_saved ! k))"

lemma saved_atD:
  assumes "saved_at m sp r" "saved_at m sp r'" "x \<in> set callee_saved"
  shows "r x = r' x"
proof -
  from assms(3) have "x \<in> set (rev callee_saved)" by simp
  then obtain k where "k < length (rev callee_saved)" "rev callee_saved ! k = x" by (auto simp only: in_set_conv_nth)
  then show ?thesis using assms(1,2) by (auto simp: saved_at_def callee_saved_facts)
qed

lemma switch_process_result:
  fixes s :: "'a process_mgr_scheme"
  assumes "i \<noteq> j"
  defines "sp \<equiv> regs s RSP" and "sp' \<equiv> c_r15 (ctx (proc j s))"
  shows "\<exists>m r. switch_process i j s = (set_proc i (\<lambda>p. p\<lparr>ctx := (ctx p)\<lparr>c_r15 := sp - 48\<rparr>\<rparr>) s)\<lparr>mem := m, regs := r\<rparr>
    \<and> agree_off (region (sp - 48) 48) (mem s) m \<and> saved_at m (sp - 48) (regs s)
    \<and> saved_at m sp' r \<and> r RIP = read_u64 m (sp' + 48) \<and> r RSP = sp' + 56"
proof -
  obtain m r where sv: "switch_save i s = (set_proc i (\<lambda>p. p\<lparr>ctx := (ctx p)\<lparr>c_r15 := sp - 48\<rparr>\<rparr>) s)\<lparr>mem := m, regs := r\<rparr>"
    "agree_off (region (sp - 48) 48) (mem s) m" "\<forall>k<6. read_u64 m (sp - 48 + 8 * of_nat k) = regs s (rev callee_saved ! k)"
    using switch_save_form [of i s] unfolding sp_def by blast
  have "proc j (switch_save i s) = proc j s"
    using assms(1) by (simp add: sv(1)) (simp add: proc_def set_proc_def)
  then have sw: "switch_process i j s = switch_load sp' (switch_save i s)"
    unfolding switch_process_parts sp'_def by simp
  let ?r = "regs (switch_load sp' (switch_save i s))"
  have m: "mem (switch_save i s) = m" by (simp add: sv(1))
  have "switch_process i j s = (set_proc i (\<lambda>p. p\<lparr>ctx := (ctx p)\<lparr>c_r15 := sp - 48\<rparr>\<rparr>) s)\<lparr>mem := m, regs := ?r\<rparr>"
    unfolding sw by (subst switch_load_form) (simp add: sv(1))
  moreover have "saved_at m sp' ?r" "?r RIP = read_u64 m (sp' + 48)" "?r RSP = sp' + 56"
    unfolding saved_at_def by (simp_all add: switch_load_regs m)
  ultimately show ?thesis using sv(2,3) unfolding saved_at_def by blast
qed

subsection \<open>The choice of the next process\<close>

text \<open>The indices after \<open>c\<close> in the order the scheduler looks at them.\<close>

definition after :: "nat \<Rightarrow> nat \<Rightarrow> nat" where
  "after c d = (c + 1 + d) mod 64"

definition eligible :: "'a process_mgr_scheme \<Rightarrow> nat \<Rightarrow> nat \<Rightarrow> bool" where
  "eligible s c i \<longleftrightarrow> state (proc i s) = PROCESS_READY \<and> i \<noteq> c"

definition next_ready :: "'a process_mgr_scheme \<Rightarrow> nat \<Rightarrow> nat option" where
  "next_ready s c = find (eligible s c) (map (after c) [0..<64])"

definition switch_to :: "u64 \<Rightarrow> nat \<Rightarrow> nat \<Rightarrow> 'a process_mgr_scheme \<Rightarrow> (unit outcome \<times> 'a process_mgr_scheme) option" where
  "switch_to return_addr c j s =
     (let s = s\<lparr>current_process := Some j\<rparr>
      in do { s \<leftarrow> DEBUGER LIGHT_MAGENTA ''Context switch: %d -> %d''
                [VInt (ucast (pid (proc c s))), VInt (ucast (pid (proc j s)))] s;
              Some (Switched, switch_process c j (push_val return_addr s)) })"

lemma after_Suc: "after c (Suc d) = (after c d + 1) mod 64"
  by (simp add: after_def mod_Suc_eq)

lemma schedule_loop_find:
  "schedule_loop n a c (after c d) s =
     (case find (eligible s c) (map (after c) [d..<d + n]) of None \<Rightarrow> Some (Returns (), s) | Some j \<Rightarrow> switch_to a c j s)"
proof (induction n arbitrary: d)
  case (Suc n)
  have "[d..<d + Suc n] = d # [Suc d..<Suc d + n]" by (simp add: upt_conv_Cons)
  then show ?case
    using Suc.IH [of "Suc d"] by (simp add: eligible_def switch_to_def after_Suc)
qed simp

lemma schedule_cases:
  assumes "current_process s = Some c"
  shows "schedule a s = (if process_count s \<le> 1 then Some (Returns (), s)
     else case next_ready s c of None \<Rightarrow> Some (Returns (), s) | Some j \<Rightarrow> switch_to a c j s)"
  using schedule_loop_find [of 64 a c 0 s] assms
  by (simp add: schedule_def next_ready_def after_def)

lemma after_inj: "d < 64 \<Longrightarrow> e < 64 \<Longrightarrow> after c d = after c e \<Longrightarrow> d = e"
proof -
  assume d: "d < 64" and e: "e < 64" and eq: "after c d = after c e"
  have *: "x = y" if "x \<le> y" "y < 64" "(c + 1 + x) mod 64 = (c + 1 + y) mod 64" for x y :: nat
  proof -
    have "64 dvd (c + 1 + y) - (c + 1 + x)" using that mod_eq_dvd_iff_nat [of "c + 1 + x" "c + 1 + y" 64] by simp
    then have "64 dvd y - x" by simp
    then show ?thesis using that(1,2) dvd_imp_le [of 64 "y - x"] by linarith
  qed
  from d e eq show "d = e" unfolding after_def using * [of d e] * [of e d] by linarith
qed

lemma after_surj:
  assumes "c < 64" "j < 64"
  obtains d where "d < 64" "after c d = j"
proof
  let ?d = "(j + 63 - c) mod 64"
  show "?d < 64" by simp
  have "after c ?d = (c + 1 + (j + 63 - c)) mod 64" unfolding after_def by (rule mod_add_right_eq)
  also have "c + 1 + (j + 63 - c) = j + 64" using assms(1) by simp
  finally show "after c ?d = j" using assms(2) by simp
qed

lemma next_ready_Some:
  assumes "next_ready s c = Some j"
  shows "\<exists>d<64. after c d = j \<and> eligible s c j \<and> (\<forall>e<d. \<not> eligible s c (after c e))"
  using assms by (auto simp: next_ready_def find_Some_iff)

lemma next_ready_None:
  assumes "next_ready s c = None" "c < 64" "j < 64"
  shows "\<not> eligible s c j"
  using assms(1) after_surj [OF assms(2,3)] by (fastforce simp: next_ready_def find_None_iff)

end
