(* ===== verification/Process_Invariant.thy ===== *)
theory Process_Invariant
  imports Scheduling
begin

text \<open>
  The invariant of the process manager, and that every operation keeps it, whether it returns
  or ends in a switch: process identifiers are never reused, the stacks of different processes
  whose creation was completed are different pages that the allocator does not consider free,
  and every stack pointer the kernel may switch to leaves the page bitmap and the screen alone.
\<close>

subsection \<open>Invariant\<close>

definition used :: "'a process_mgr_scheme \<Rightarrow> nat set" where
  "used s = {i. i < 64 \<and> state (proc i s) \<noteq> PROCESS_UNUSED}"

definition pids_ok :: "'a process_mgr_scheme \<Rightarrow> bool" where
  "pids_ok s \<longleftrightarrow> unat (next_pid s) = card (used s) + 1
     \<and> (\<forall>i \<in> used s. 0 < pid (proc i s) \<and> pid (proc i s) < next_pid s) \<and> inj_on (\<lambda>i. pid (proc i s)) (used s)"

text \<open>
  The stack pages a process owns. A process whose creation failed for lack of a second page keeps a
  pointer to a kernel stack that has been freed (and stays ready without a user stack): it
  owns nothing, and its pointer may be that of another process.
\<close>

definition owned_stacks :: "process_t \<Rightarrow> u64 set" where
  "owned_stacks p = (if user_stack p = 0 then {} else {kernel_stack p, user_stack p})"

definition stacks_ok :: "'a process_mgr_scheme \<Rightarrow> bool" where
  "stacks_ok s \<longleftrightarrow>
     (\<forall>i<64. owned_stacks (proc i s) \<subseteq> all_pages s - avail_pages s
        \<and> (user_stack (proc i s) \<noteq> 0 \<longrightarrow> kernel_stack (proc i s) \<noteq> user_stack (proc i s))
        \<and> (state (proc i s) = PROCESS_UNUSED \<longrightarrow> user_stack (proc i s) = 0))
     \<and> (\<forall>i<64. \<forall>j<64. i \<noteq> j \<longrightarrow> owned_stacks (proc i s) \<inter> owned_stacks (proc j s) = {})"

definition safe_sp :: "u64 \<Rightarrow> bool" where
  "safe_sp sp \<longleftrightarrow> region (sp - 256) 256 \<inter> (bitmap_area \<union> screen_bytes) = {}"

lemma safe_sp_below:
  assumes "safe_sp sp" "n \<le> 256"
  shows "region (sp - of_nat n) n \<inter> (bitmap_area \<union> screen_bytes) = {}"
proof -
  have "region (sp - 256 + (256 - of_nat n)) n \<subseteq> region (sp - 256) 256"
    using assms(2) by (intro region_shift) (simp_all add: unat_sub word_le_nat_alt unat_of_nat)
  then show ?thesis using assms(1) by (simp add: safe_sp_def) blast
qed

definition sps_ok :: "'a process_mgr_scheme \<Rightarrow> bool" where
  "sps_ok s \<longleftrightarrow> safe_sp (regs s RSP) \<and> (\<forall>i<64. safe_sp (c_r15 (ctx (proc i s)) + 56))"

definition current_ok :: "'a process_mgr_scheme \<Rightarrow> bool" where
  "current_ok s \<longleftrightarrow> (\<forall>c. current_process s = Some c \<longrightarrow> c \<in> used s)"

definition proc_ok :: "'a process_mgr_scheme \<Rightarrow> bool" where
  "proc_ok s \<longleftrightarrow> length (processes s) = 64 \<and> alloc_ok s \<and> cursor_ok s
     \<and> pids_ok s \<and> stacks_ok s \<and> sps_ok s \<and> current_ok s"

text \<open>
  Processes in use stay in use and keep their identifiers, and neither state built on top of
  the process manager nor the interrupt tables, the root of the page tables and the control
  registers are touched.
\<close>

definition pids_kept :: "'a process_mgr_scheme \<Rightarrow> 'a process_mgr_scheme \<Rightarrow> bool" where
  "pids_kept s t \<longleftrightarrow> used s \<subseteq> used t \<and> (\<forall>i \<in> used s. pid (proc i t) = pid (proc i s)) \<and> next_pid s \<le> next_pid t
     \<and> process_mgr.more t = process_mgr.more s \<and> hw_view t = hw_view s \<and> kernel_pml4 t = kernel_pml4 s"

lemma pids_kept_refl [simp]: "pids_kept s s"
  by (simp add: pids_kept_def)

lemma pids_kept_trans: "pids_kept s t \<Longrightarrow> pids_kept t u \<Longrightarrow> pids_kept s u"
  unfolding pids_kept_def
  by (intro conjI ballI) (blast, metis subsetD, blast intro: order_trans, simp_all)

lemma proc_okD:
  assumes "proc_ok s"
  shows "length (processes s) = 64" "alloc_ok s" "cursor_ok s" "pids_ok s" "stacks_ok s" "sps_ok s" "current_ok s"
  using assms by (auto simp: proc_ok_def)

lemma card_used: "card (used s) \<le> 64"
  using card_mono [of "{..<64}" "used s"] by (auto simp: used_def)

lemma finite_used [simp]: "finite (used s)"
  by (simp add: used_def)

lemma view_cong:
  assumes "processes t = processes s" "next_pid t = next_pid s"
  shows "used t = used s" "pids_ok t = pids_ok s" "proc i t = proc i s"
proof -
  have p: "proc i t = proc i s" for i using assms(1) by (simp add: proc_def)
  then show "proc i t = proc i s" by simp
  show u: "used t = used s" by (simp add: used_def p)
  show "pids_ok t = pids_ok s" by (simp add: pids_ok_def u p assms(2))
qed

lemma kept_proc_ok:
  assumes "proc_ok s" "kept (avail_pages s) s t"
  shows "proc_ok t \<and> pids_kept s t"
proof -
  note k = keptD [OF assms(2)]
  note v = view_cong [OF k(1,3)]
  show ?thesis
    using assms(1) k v by (simp add: proc_ok_def stacks_ok_def sps_ok_def current_ok_def pids_kept_def)
qed

subsection \<open>Updates of one process\<close>

lemma used_set_proc:
  assumes "i < 64" "length (processes s) = 64" "state (f (proc i s)) = PROCESS_UNUSED \<longleftrightarrow> state (proc i s) = PROCESS_UNUSED"
  shows "used (set_proc i f s) = used s"
  using assms by (auto simp: used_def proc_set_proc)

lemma set_proc_ok:
  assumes "proc_ok s" "i < 64" "state (f (proc i s)) = PROCESS_UNUSED \<longleftrightarrow> state (proc i s) = PROCESS_UNUSED"
    and same: "pid (f (proc i s)) = pid (proc i s)" "user_stack (f (proc i s)) = user_stack (proc i s)"
      "kernel_stack (f (proc i s)) = kernel_stack (proc i s)"
    and sp: "safe_sp (c_r15 (ctx (f (proc i s))) + 56)"
  shows "proc_ok (set_proc i f s) \<and> pids_kept s (set_proc i f s)"
proof -
  note ok = proc_okD [OF assms(1)]
  note u = used_set_proc [where f = f, OF assms(2) ok(1) assms(3)]
  have p: "pid (proc j (set_proc i f s)) = pid (proc j s)" "owned_stacks (proc j (set_proc i f s)) = owned_stacks (proc j s)"
    "kernel_stack (proc j (set_proc i f s)) = kernel_stack (proc j s)" "user_stack (proc j (set_proc i f s)) = user_stack (proc j s)"
    "state (proc j (set_proc i f s)) = PROCESS_UNUSED \<longleftrightarrow> state (proc j s) = PROCESS_UNUSED" for j
    using same assms(3) by (auto simp: proc_set_proc owned_stacks_def)
  have "pids_ok (set_proc i f s)" using ok(4) by (simp add: pids_ok_def u p)
  moreover have "stacks_ok (set_proc i f s)" using ok(5) by (simp add: stacks_ok_def p)
  moreover have "sps_ok (set_proc i f s)" using ok(6) sp by (simp add: sps_ok_def proc_set_proc)
  moreover have "current_ok (set_proc i f s)" using ok(7) by (simp add: current_ok_def u)
  ultimately show ?thesis using ok by (simp add: proc_ok_def pids_kept_def u p)
qed

lemma proc_ok_updates:
  "proc_ok (s\<lparr>process_count := k\<rparr>) = proc_ok s" "c \<in> used s \<Longrightarrow> proc_ok s \<Longrightarrow> proc_ok (s\<lparr>current_process := Some c\<rparr>)"
  "pids_kept u (s\<lparr>process_count := k\<rparr>) = pids_kept u s" "pids_kept u (s\<lparr>current_process := d\<rparr>) = pids_kept u s"
proof -
  have v: "used (s\<lparr>process_count := k\<rparr>) = used s" "used (s\<lparr>current_process := d\<rparr>) = used s" for k d
    by (simp_all add: used_def)
  show "proc_ok (s\<lparr>process_count := k\<rparr>) = proc_ok s"
    by (simp add: proc_ok_def pids_ok_def stacks_ok_def sps_ok_def current_ok_def v)
  show "c \<in> used s \<Longrightarrow> proc_ok s \<Longrightarrow> proc_ok (s\<lparr>current_process := Some c\<rparr>)"
    by (simp add: proc_ok_def pids_ok_def stacks_ok_def sps_ok_def current_ok_def v)
  show "pids_kept u (s\<lparr>process_count := k\<rparr>) = pids_kept u s" "pids_kept u (s\<lparr>current_process := d\<rparr>) = pids_kept u s"
    by (simp_all add: pids_kept_def v)
qed

subsection \<open>Creation\<close>

lemma used_claim_slot:
  assumes "find_free_slot s = Some i" "length (processes s) = 64" "\<And>p. state (f p) = state p"
  shows "used (claim_slot i f s) = insert i (used s)" "i \<notin> used s"
  using find_free_slotD(1,2) [OF assms(1)] assms(2,3)
  by (auto simp: used_def proc_claim_slot claimed_def)

lemma pids_ok_claim:
  assumes "pids_ok s" "find_free_slot s = Some i" "length (processes s) = 64" "\<And>p. state (f p) = state p" "\<And>p. pid (f p) = pid p"
  shows "pids_ok (claim_slot i f s) \<and> pids_kept s (claim_slot i f s)"
proof -
  note u = used_claim_slot [OF assms(2,3,4)]
  have i: "i < 64" using find_free_slotD [OF assms(2)] by simp
  have n: "unat (next_pid s) \<le> 65" using assms(1) card_used [of s] by (simp add: pids_ok_def)
  then have n1: "unat (next_pid s + 1) = unat (next_pid s) + 1" by (simp add: unat_word_ariths)
  have pi: "pid (proc i (claim_slot i f s)) = next_pid s" using i assms(3,5) by (simp add: proc_claim_slot claimed_def)
  have pj: "pid (proc j (claim_slot i f s)) = pid (proc j s)" if "j \<in> used s" for j
    using that u(2) by (auto simp: proc_claim_slot)
  have less: "pid (proc j s) < next_pid s" if "j \<in> used s" for j using assms(1) that by (simp add: pids_ok_def)
  have lt: "next_pid s < next_pid s + 1" by (simp add: word_less_nat_alt n1)
  have "0 < next_pid s" using assms(1) by (simp add: pids_ok_def word_less_nat_alt)
  have "inj_on (\<lambda>k. pid (proc k (claim_slot i f s))) (insert i (used s))"
    using assms(1) pj pi less by (fastforce simp: pids_ok_def inj_on_def)
  moreover have "0 < pid (proc j (claim_slot i f s)) \<and> pid (proc j (claim_slot i f s)) < next_pid s + 1" if "j \<in> insert i (used s)" for j
    using that assms(1) pj pi less [of j] lt \<open>0 < next_pid s\<close> by (auto simp: pids_ok_def intro: less_trans)
  moreover have "unat (next_pid s + 1) = card (insert i (used s)) + 1"
    using assms(1) u(2) n1 by (simp add: pids_ok_def)
  ultimately have "pids_ok (claim_slot i f s)" by (simp add: pids_ok_def u(1))
  then show ?thesis using pj lt by (auto simp: pids_kept_def u(1))
qed

lemma claim_ok:
  assumes ok: "proc_ok s" and slot: "find_free_slot s = Some i" and f: "\<And>p. state (f p) = state p" "\<And>p. pid (f p) = pid p"
    and A: "A \<subseteq> avail_pages s" "owned_stacks (f (claimed s (proc i s))) \<subseteq> avail_pages s - A"
    and new: "user_stack (f (claimed s (proc i s))) \<noteq> 0 \<Longrightarrow>
      kernel_stack (f (claimed s (proc i s))) \<noteq> user_stack (f (claimed s (proc i s)))"
      "safe_sp (c_r15 (ctx (f (claimed s (proc i s)))) + 56)"
    and kept: "kept A ((claim_slot i f s)\<lparr>process_count := k\<rparr>) t"
  shows "proc_ok t \<and> pids_kept s t"
proof -
  note o = proc_okD [OF ok]
  note kd = keptD [OF kept]
  have i: "i < 64" using find_free_slotD [OF slot] by simp
  let ?q = "f (claimed s (proc i s))" and ?c = "claim_slot i f s"
  have v: "used t = used ?c" "pids_ok t = pids_ok ?c" "proc j t = proc j ?c" for j
    using view_cong [of t ?c] kd(1,3) by simp_all
  have p: "proc i t = ?q" "j \<noteq> i \<Longrightarrow> proc j t = proc j s" for j
    using i o(1) by (simp_all add: v(3) proc_claim_slot)
  note pc = pids_ok_claim [OF o(4) slot o(1) f]
  have u: "used t = insert i (used s)" using used_claim_slot [OF slot o(1) f(1)] v(1) by simp
  have pg: "all_pages t = all_pages s" "avail_pages t = A" using kd(9,10) by simp_all
  have sub: "avail_pages s \<subseteq> all_pages s" using pa.avail_pages [OF o(2)] .
  have old: "owned_stacks (proc j s) \<subseteq> all_pages s - avail_pages s" if "j < 64" for j
    using o(5) that by (simp add: stacks_ok_def)
  have "owned_stacks (proc j t) \<inter> owned_stacks (proc l t) = {}" if "j < 64" "l < 64" "j \<noteq> l" for j l
  proof (cases "j = i \<or> l = i")
    case True
    moreover have "owned_stacks ?q \<inter> owned_stacks (proc m s) = {}" if "m < 64" for m using old [OF that] A(2) by blast
    ultimately show ?thesis using that p by (metis Int_commute)
  next
    case False
    then show ?thesis using that p o(5) by (simp add: stacks_ok_def)
  qed
  moreover have "owned_stacks (proc j t) \<subseteq> all_pages t - avail_pages t
        \<and> (user_stack (proc j t) \<noteq> 0 \<longrightarrow> kernel_stack (proc j t) \<noteq> user_stack (proc j t))
        \<and> (state (proc j t) = PROCESS_UNUSED \<longrightarrow> user_stack (proc j t) = 0)" if "j < 64" for j
  proof (cases "j = i")
    case True
    moreover have "state ?q \<noteq> PROCESS_UNUSED" by (simp add: f(1) claimed_def)
    ultimately show ?thesis using p(1) A(2) sub new(1) by (auto simp: pg)
  next
    case False
    then show ?thesis using that p(2) o(5) old [of j] A(1) by (auto simp: stacks_ok_def pg)
  qed
  ultimately have "stacks_ok t" by (simp add: stacks_ok_def)
  moreover have "sps_ok t"
  proof -
    have "safe_sp (c_r15 (ctx (proc j t)) + 56)" if "j < 64" for j
      using that p o(6) new(2) by (cases "j = i") (simp_all add: sps_ok_def)
    then show ?thesis using o(6) kd(5) by (simp add: sps_ok_def)
  qed
  moreover have "current_ok t" using o(7) kd(2) by (auto simp: current_ok_def u)
  moreover have "pids_kept s t" using pc v(1,3) kd(3,6,12,13) by (simp add: pids_kept_def)
  moreover have "length (processes t) = 64" using kd(1) o(1) by simp
  moreover have "pids_ok t" using pc v(2) by simp
  ultimately show ?thesis using kd(7,8) by (simp add: proc_ok_def)
qed

lemma claim_slot_count: "(claim_slot i f s)\<lparr>process_count := process_count s\<rparr> = claim_slot i f s"
  by (cases s) (simp add: claim_slot_def set_proc_def)

lemma safe_sp_fresh: "safe_sp 56"
proof -
  have "unat (x + 200) = unat x + 200" if "unat x < 757664" for x :: u64
    using that by (simp add: unat_word_ariths(1))
  then show ?thesis by (fastforce simp: safe_sp_def region_def bitmap_area_iff screen_bytes_iff)
qed

text \<open>What holds after \<open>create_process\<close> whatever its outcome.\<close>

definition created :: "'a process_mgr_scheme \<Rightarrow> nat option \<Rightarrow> 'a process_mgr_scheme \<Rightarrow> bool" where
  "created s r t \<longleftrightarrow> proc_ok t \<and> pids_kept s t \<and> current_process t = current_process s
     \<and> (\<forall>c \<in> used s. proc c t = proc c s) \<and> used t = used s \<union> set_option (find_free_slot s)
     \<and> (r = None \<or> r = find_free_slot s) \<and> (\<forall>i. find_free_slot s = Some i \<longrightarrow> pid (proc i t) = next_pid s)
     \<and> process_count t = process_count s + (if r = None then 0 else 1)
     \<and> kernel_pml4 t = kernel_pml4 s \<and> regs t = regs s
     \<and> (\<forall>i. r = Some i \<longrightarrow> state (proc i t) = PROCESS_READY \<and> parent (proc i t) = current_process s)
     \<and> (r \<noteq> None \<longleftrightarrow> find_free_slot s \<noteq> None \<and> 2 \<le> card (avail_pages s))
     \<and> (r = None \<longrightarrow> avail_pages t = avail_pages s) \<and> hw_view t = hw_view s"

lemma createdD:
  assumes "created s r t"
  shows "proc_ok t" "pids_kept s t" "current_process t = current_process s" "c \<in> used s \<Longrightarrow> proc c t = proc c s"
    "used t = used s \<union> set_option (find_free_slot s)" "r = None \<or> r = find_free_slot s"
    "find_free_slot s = Some i \<Longrightarrow> pid (proc i t) = next_pid s"
    "process_count t = process_count s + (if r = None then 0 else 1)" "kernel_pml4 t = kernel_pml4 s" "regs t = regs s"
    "r = Some i \<Longrightarrow> state (proc i t) = PROCESS_READY \<and> parent (proc i t) = current_process s"
    "r \<noteq> None \<longleftrightarrow> find_free_slot s \<noteq> None \<and> 2 \<le> card (avail_pages s)" "r = None \<Longrightarrow> avail_pages t = avail_pages s"
    "hw_view t = hw_view s"
  using assms by (auto simp: created_def)

lemma create_process_ok:
  assumes ok: "proc_ok s"
  shows "\<exists>r t. create_process e s = Some (r, t) \<and> created s r t"
proof (cases "find_free_slot s")
  case None
  obtain t where t: "create_process e s = Some (None, t)" "kept (avail_pages s) s t"
    using create_process_no_slot [OF proc_okD(2,3) [OF ok] None] by blast
  have "created s None t"
    using kept_proc_ok [OF ok t(2)] keptD [OF t(2)] view_cong(1) [of t s] None by (simp add: created_def)
  with t(1) show ?thesis by blast
next
  case (Some i)
  note o = proc_okD [OF ok]
  have i: "i < 64" "state (proc i s) = PROCESS_UNUSED" "i \<notin> used s" using find_free_slotD [OF Some] by (auto simp: used_def)
  have us: "user_stack (proc i s) = 0" using o(5) i by (simp add: stacks_ok_def)
  have sp: "safe_sp (c_r15 (ctx (proc i s)) + 56)" using o(6) i(1) by (simp add: sps_ok_def)
  have claim: "created s r t"
    if "proc_ok t \<and> pids_kept s t" "kept A ((claim_slot i f s)\<lparr>process_count := process_count s + k\<rparr>) t"
      "\<And>p. state (f p) = state p" "\<And>p. pid (f p) = pid p" "\<And>p. parent (f p) = parent p"
      "r = None \<and> k = 0 \<and> card (avail_pages s) < 2 \<and> A = avail_pages s \<or> r = Some i \<and> k = 1 \<and> 2 \<le> card (avail_pages s)" for t A f k r
  proof -
    note kd = keptD [OF that(2)]
    have "used t = insert i (used s)"
      using view_cong(1) [of t "claim_slot i f s"] kd(1,3) used_claim_slot(1) [OF Some o(1) that(3)] by simp
    moreover have "proc c t = proc c s" if "c \<in> used s" for c
      using kd(11) that i(3) by (auto simp: proc_claim_slot)
    moreover have "pid (proc i t) = next_pid s" "state (proc i t) = PROCESS_READY" "parent (proc i t) = current_process s"
      using kd(11) [of i] i(1) o(1) that(3-5) by (simp_all add: proc_claim_slot claimed_def)
    ultimately show ?thesis using that(1,6) kd Some by (auto simp: created_def)
  qed
  consider (none) "avail_pages s = {}" | (one) "card (avail_pages s) = 1" | (two) "2 \<le> card (avail_pages s)"
    by (metis One_nat_def Suc_1 card_0_eq finite less_2_cases not_le)
  then show ?thesis
  proof cases
    case none
    let ?f = "\<lambda>p. p\<lparr>kernel_stack := 0\<rparr>"
    obtain t where t: "create_process e s = Some (None, t)" "kept {} (claim_slot i ?f s) t"
      using create_process_no_page [OF o(2,3) Some o(1) none] by blast
    then have k: "kept {} ((claim_slot i ?f s)\<lparr>process_count := process_count s + 0\<rparr>) t"
      by (simp only: claim_slot_count add_0_right)
    have "proc_ok t \<and> pids_kept s t"
      by (rule claim_ok [OF ok Some _ _ _ _ _ _ k]) (simp_all add: owned_stacks_def claimed_def us sp)
    then show ?thesis using t(1) claim [OF _ k] none by auto
  next
    case one
    let ?f = "\<lambda>p. p\<lparr>kernel_stack := Min (avail_pages s), user_stack := 0\<rparr>"
    obtain t where t: "create_process e s = Some (None, t)" "kept (avail_pages s) (claim_slot i ?f s) t"
      using create_process_one_page [OF o(2,3) Some o(1) one] by blast
    then have k: "kept (avail_pages s) ((claim_slot i ?f s)\<lparr>process_count := process_count s + 0\<rparr>) t"
      by (simp only: claim_slot_count add_0_right)
    have "proc_ok t \<and> pids_kept s t"
      by (rule claim_ok [OF ok Some _ _ _ _ _ _ k]) (simp_all add: owned_stacks_def claimed_def us sp)
    then show ?thesis using t(1) claim [OF _ k] one by auto
  next
    case two
    obtain t a b where t: "create_process e s = Some (Some i, t)" "a \<in> avail_pages s" "b \<in> avail_pages s" "a \<noteq> b"
      and k: "kept (avail_pages s - {a, b}) ((claim_slot i (\<lambda>p. p\<lparr>kernel_stack := a, user_stack := b, ctx := entry_context e a\<rparr>) s)
        \<lparr>process_count := process_count s + 1\<rparr>) t"
      using create_process_created [OF o(2,3) Some o(1) two] by blast
    have "c_r15 (entry_context e a) = 0" by (simp add: entry_context_def zero_context_def)
    then have "proc_ok t \<and> pids_kept s t"
      by (intro claim_ok [OF ok Some _ _ _ _ _ _ k]) (use t in \<open>auto simp: owned_stacks_def claimed_def safe_sp_fresh\<close>)
    then show ?thesis using t(1) claim [OF _ k] two by auto
  qed
qed

subsection \<open>Start of the process manager\<close>

lemma clear_processes:
  assumes "n \<le> length (processes s)"
  shows "fold (\<lambda>i. set_proc i clear_process) [0..<n] s =
    s\<lparr>processes := map clear_process (take n (processes s)) @ drop n (processes s)\<rparr>"
  using assms
proof (induction n)
  case (Suc n)
  let ?ps = "processes s"
  have "(map clear_process (take n ?ps) @ drop n ?ps) ! n = ?ps ! n" using Suc.prems by (simp add: nth_append)
  moreover have "(map clear_process (take n ?ps) @ drop n ?ps)[n := clear_process (?ps ! n)] =
      map clear_process (take (Suc n) ?ps) @ drop (Suc n) ?ps"
    using Suc.prems by (simp add: list_update_append Cons_nth_drop_Suc [symmetric] take_Suc_conv_app_nth)
  ultimately show ?case using Suc by (simp add: set_proc_def)
qed simp

text \<open>What the manager needs before its start: a table of 64 slots with harmless saved stack pointers.\<close>

definition proc_start :: "'a process_mgr_scheme \<Rightarrow> bool" where
  "proc_start s \<longleftrightarrow> length (processes s) = 64 \<and> alloc_ok s \<and> cursor_ok s \<and> sps_ok s"

lemma InitProcessManager_ok:
  assumes "proc_start s"
  shows "\<exists>t. InitProcessManager idle s = Some t \<and> proc_ok t \<and> current_process t = Some 0 \<and> used t = {0}
    \<and> pid (proc 0 t) = 1 \<and> process_count t = 1 \<and> kernel_pml4 t = kernel_pml4 s
    \<and> hw_view t = hw_view s \<and> process_mgr.more t = process_mgr.more s \<and> frame s t \<and> (fresh s \<longrightarrow> fresh t)"
proof -
  define s0 where "s0 = s\<lparr>current_process := None, next_pid := 1, process_count := 0\<rparr>"
  define s1 where "s1 = s0\<lparr>processes := map clear_process (processes s)\<rparr>"
  have l: "length (processes s) = 64" using assms by (simp add: proc_start_def)
  have clear: "fold (\<lambda>i. set_proc i clear_process) [0..<64] s0 = s1"
    using clear_processes [of 64 s0] l by (simp add: s0_def s1_def)
  have p: "proc i s1 = clear_process (proc i s)" if "i < 64" for i using that l by (simp add: s1_def proc_def)
  have u: "used s1 = {}" by (auto simp: used_def p clear_process_def)
  have "alloc_ok s1 = alloc_ok s" by (rule alloc_view) (simp_all add: s0_def s1_def)
  moreover have "cursor_ok s1 = cursor_ok s" by (rule cursor_ok_regs) (simp add: s0_def s1_def)
  ultimately have ok: "proc_ok s1"
    using assms l by (simp add: proc_ok_def proc_start_def pids_ok_def stacks_ok_def sps_ok_def current_ok_def u)
      (simp add: p clear_process_def owned_stacks_def, simp add: s1_def s0_def)
  have slot: "find_free_slot s1 = Some 0"
    by (simp add: find_free_slot_def upt_conv_Cons p clear_process_def)
  obtain r t where t: "create_process idle s1 = Some (r, t)" "created s1 r t"
    using create_process_ok [OF ok] by blast
  note c = createdD [OF t(2)]
  have s1_simps: "next_pid s1 = 1" "process_count s1 = 0" "kernel_pml4 s1 = kernel_pml4 s"
    "hw_view s1 = hw_view s" "process_mgr.more s1 = process_mgr.more s" by (simp_all add: s1_def s0_def)
  have ut: "used t = {0}" "pid (proc 0 t) = 1" "r = None \<or> r = Some 0" "length (processes t) = 64"
    using c(5,6) c(7) [OF slot] proc_okD(1) [OF c(1)] s1_simps by (simp_all add: u slot)
  let ?pt = "kernel_pml4 s"
  let ?f = "if r = None then (\<lambda>p. p\<lparr>pid := 1, state := PROCESS_RUNNING, page_table := ?pt, brk := 0x400000\<rparr>) else (\<lambda>p. p\<lparr>pid := 1\<rparr>)"
  let ?t = "(set_proc 0 ?f t)\<lparr>current_process := Some 0, process_count := 1\<rparr>"
  have cnt: "r = Some 0 \<Longrightarrow> process_count t = 1" using c(8) s1_simps by simp
  have k: "kernel_pml4 t = ?pt" using c(9) s1_simps by simp
  have init: "InitProcessManager idle s =
      DEBUGER LIGHT_RED ''Process manager initialized with %d processes'' [VInt (ucast (process_count ?t))] ?t"
  proof (cases r)
    case None
    then have "InitProcessManager idle s = (let u = set_proc 0 ?f (t\<lparr>current_process := Some 0\<rparr>)\<lparr>process_count := 1\<rparr>
      in DEBUGER LIGHT_RED ''Process manager initialized with %d processes'' [VInt (ucast (process_count u))] u)"
      unfolding InitProcessManager_def Let_def s0_def [symmetric] clear t(1) by (simp add: k get_kernel_page_table_def)
    moreover have "set_proc 0 ?f (t\<lparr>current_process := Some 0\<rparr>)\<lparr>process_count := 1\<rparr> = ?t" by (simp add: set_proc_def)
    ultimately show ?thesis unfolding Let_def by (simp only:)
  next
    case (Some i)
    with ut(3) have r: "r = Some 0" by simp
    then have "InitProcessManager idle s = (let u = set_proc 0 ?f t\<lparr>current_process := Some 0\<rparr>
      in DEBUGER LIGHT_RED ''Process manager initialized with %d processes'' [VInt (ucast (process_count u))] u)"
      unfolding InitProcessManager_def Let_def s0_def [symmetric] clear t(1) by simp
    moreover have "set_proc 0 ?f t\<lparr>current_process := Some 0\<rparr> = ?t" using cnt [OF r] by (cases t) (simp add: set_proc_def)
    ultimately show ?thesis unfolding Let_def by (simp only:)
  qed
  have "0 \<in> used t" using ut(1) by simp
  then have st: "state (proc 0 t) \<noteq> PROCESS_UNUSED" by (simp add: used_def)
  have "safe_sp (c_r15 (ctx (proc 0 t)) + 56)" using proc_okD(6) [OF c(1)] by (simp add: sps_ok_def)
  then have okf: "proc_ok (set_proc 0 ?f t)" using set_proc_ok [OF c(1), of 0 ?f] st ut(2) by simp
  have uf: "used (set_proc 0 ?f t) = {0}" using used_set_proc [of 0 t ?f] ut(1,4) st by simp
  then have "0 \<in> used (set_proc 0 ?f t)" by simp
  from proc_ok_updates(2) [OF this okf] have okt: "proc_ok ?t" by (simp only: proc_ok_updates(1))
  have fmt: "fmt_ok ''Process manager initialized with %d processes'' [VInt x]" for x by simp
  obtain w where w: "InitProcessManager idle s = Some w" "kept (avail_pages ?t) ?t w" "frame ?t w"
    unfolding init using DEBUGER_kept [OF proc_okD(2,3) [OF okt] fmt] by blast
  note fr = create_process_frame [OF proc_okD(2,3,1) [OF ok] t(1)]
  have "avail_pages s1 = avail_pages s" by (rule alloc_view) (simp_all add: s0_def s1_def)
  then have "frame s s1" by (intro frame_same) (simp_all add: s0_def s1_def)
  from frame_trans [OF this fr(1)] have "frame s ?t" by simp
  then have "frame s w" by (rule frame_trans) (fact w(3))
  moreover have "fresh w" if "fresh s"
  proof -
    have "fresh s1" using that p by (simp add: fresh_def clear_process_def)
    then have "fresh t" by (rule fr(2))
    then have "fresh ?t" by (simp add: fresh_def proc_set_proc)
    then show ?thesis using keptD(11) [OF w(2)] by (simp add: fresh_def)
  qed
  moreover have "used w = {0}" using view_cong(1) [of w ?t] keptD(1,3) [OF w(2)] uf by (simp add: used_def)
  moreover have "pid (proc 0 w) = 1" using keptD(11) [OF w(2), of 0] ut(4) by (simp add: proc_set_proc)
  moreover have "hw_view w = hw_view s" "process_mgr.more w = process_mgr.more s"
    using keptD(12,13) [OF w(2)] c(2) c(14) s1_simps by (simp_all add: pids_kept_def)
  ultimately show ?thesis
    using w(1) kept_proc_ok [OF okt w(2)] keptD(2,4,6) [OF w(2)] k by auto
qed

subsection \<open>Scheduling\<close>

lemma proc_ok_stack_write:
  assumes "proc_ok s" "agree_off R (mem s) m" "R \<inter> bitmap_area = {}" "safe_sp (r RSP)"
  shows "proc_ok (s\<lparr>mem := m, regs := r\<rparr>) \<and> pids_kept s (s\<lparr>mem := m, regs := r\<rparr>)"
proof -
  let ?t = "s\<lparr>mem := m, regs := r\<rparr>"
  note o = proc_okD [OF assms(1)]
  have a: "alloc_ok (s\<lparr>mem := m\<rparr>)" "avail_pages (s\<lparr>mem := m\<rparr>) = avail_pages s"
    using alloc_ok_write [OF o(2), of "s\<lparr>mem := m\<rparr>" R] assms(2,3) by simp_all
  have v: "alloc_ok ?t = alloc_ok (s\<lparr>mem := m\<rparr>)" "avail_pages ?t = avail_pages (s\<lparr>mem := m\<rparr>)"
    by (rule alloc_view; simp)+
  have "all_pages ?t = all_pages s" by (simp add: all_pages_def)
  moreover have "cursor_ok ?t" using o(3) cursor_ok_regs [of ?t s] by simp
  moreover have u: "used ?t = used s" "pids_ok ?t = pids_ok s" "\<And>i. proc i ?t = proc i s" using view_cong [of ?t s] by simp_all
  ultimately show ?thesis
    using o a v assms(4) by (simp add: proc_ok_def stacks_ok_def sps_ok_def current_ok_def pids_kept_def hw_view_def)
qed

definition switched :: "nat \<Rightarrow> nat \<Rightarrow> 'a process_mgr_scheme \<Rightarrow> 'a process_mgr_scheme \<Rightarrow> bool" where
  "switched c j s t \<longleftrightarrow> proc_ok t \<and> pids_kept s t \<and> current_process t = Some j
     \<and> (\<forall>i. state (proc i t) = state (proc i s) \<and> exit_code (proc i t) = exit_code (proc i s)) \<and> process_count t = process_count s
     \<and> regs t RSP = c_r15 (ctx (proc j s)) + 56 \<and> regs t RIP = read_u64 (mem t) (c_r15 (ctx (proc j s)) + 48)
     \<and> ctx (proc j t) = ctx (proc j s) \<and> c_r15 (ctx (proc c t)) = regs s RSP - 56"

lemma switch_to_ok:
  assumes ok: "proc_ok s" and cj: "c \<in> used s" "j \<in> used s" "c \<noteq> j"
  shows "\<exists>t. switch_to a c j s = Some (Switched, t) \<and> switched c j s t"
proof -
  let ?s1 = "s\<lparr>current_process := Some j\<rparr>" and ?sp = "regs s RSP"
  have ok1: "proc_ok ?s1" using proc_ok_updates(2) [OF cj(2) ok] .
  have fmt: "fmt_ok ''Context switch: %d -> %d'' [VInt x, VInt y]" for x y by simp
  obtain s2 where s2: "DEBUGER LIGHT_MAGENTA ''Context switch: %d -> %d''
      [VInt (ucast (pid (proc c ?s1))), VInt (ucast (pid (proc j ?s1)))] ?s1 = Some s2" "kept (avail_pages ?s1) ?s1 s2"
    using DEBUGER_kept [OF proc_okD(2,3) [OF ok1] fmt] by blast
  note k = keptD [OF s2(2)]
  have ok2: "proc_ok s2 \<and> pids_kept ?s1 s2" by (rule kept_proc_ok [OF ok1 s2(2)])
  let ?s3 = "push_val a s2"
  have r3: "regs ?s3 RSP = ?sp - 8" using k(5) by (simp add: push_val_simps)
  have p3: "proc j ?s3 = proc j s" by (simp add: push_val_def set_reg_def Let_def) (use k(1) in \<open>simp add: proc_def\<close>)
  obtain m r where s4: "switch_process c j ?s3 =
      (set_proc c (\<lambda>p. p\<lparr>ctx := (ctx p)\<lparr>c_r15 := ?sp - 8 - 48\<rparr>\<rparr>) ?s3)\<lparr>mem := m, regs := r\<rparr>"
    and m: "agree_off (region (?sp - 8 - 48) 48) (mem ?s3) m"
    and rs: "r RSP = c_r15 (ctx (proc j s)) + 56" "r RIP = read_u64 m (c_r15 (ctx (proc j s)) + 48)"
    using switch_process_result [OF cj(3), of ?s3] unfolding r3 p3 by blast
  let ?f = "\<lambda>p. p\<lparr>ctx := (ctx p)\<lparr>c_r15 := ?sp - 56\<rparr>\<rparr>"
  have s4': "switch_process c j ?s3 = (set_proc c ?f s2)\<lparr>mem := m, regs := r\<rparr>"
    unfolding s4 by (simp add: push_val_def set_reg_def set_proc_def Let_def)
  have R: "region (?sp - 56) 48 \<subseteq> region (?sp - 56) 56" "region (?sp - 8) 8 \<subseteq> region (?sp - 56) 56"
    using region_shift [of 0 48 56 "?sp - 56"] region_shift [of 48 8 56 "?sp - 56"] by simp_all
  have "agree_off (region (?sp - 56) 56) (mem s2) (mem ?s3)"
    using push_val_agree [of s2 "region (?sp - 56) 56" a] R(2) k(5) by simp
  moreover have "agree_off (region (?sp - 56) 56) (mem ?s3) m" using agree_off_mono [OF m] R(1) by simp
  ultimately have ag: "agree_off (region (?sp - 56) 56) (mem s2) m" by (rule agree_off_trans)
  have sf: "safe_sp ?sp" "safe_sp (r RSP)" using proc_okD(6) [OF ok] cj by (auto simp: sps_ok_def rs used_def)
  have c: "c < 64" using cj(1) by (simp add: used_def)
  have f: "proc_ok (set_proc c ?f s2) \<and> pids_kept s2 (set_proc c ?f s2)"
    using set_proc_ok [of s2 c ?f] ok2 c sf(1) by simp
  have off: "region (?sp - 56) 56 \<inter> bitmap_area = {}" using safe_sp_below [OF sf(1), of 56] by auto
  let ?t = "(set_proc c ?f s2)\<lparr>mem := m, regs := r\<rparr>"
  have t: "proc_ok ?t \<and> pids_kept (set_proc c ?f s2) ?t"
    by (rule proc_ok_stack_write [where r = r, OF conjunct1 [OF f] _ off sf(2)]) (simp add: ag)
  have pk: "pids_kept s ?t"
    using pids_kept_trans [OF pids_kept_trans [OF conjunct2 [OF ok2] conjunct2 [OF f]] conjunct2 [OF t]]
    by (simp add: pids_kept_def used_def)
  have l2: "length (processes s2) = 64" using ok2 by (simp add: proc_ok_def)
  have pt: "proc i ?t = (if i = c then ?f (proc i s) else proc i s)" for i
    using k(11) [of i] c l2 proc_set_proc [of i c ?f s2] by (auto simp: proc_def)
  have "switched c j s ?t" using t pk k rs cj(3) by (simp add: switched_def pt)
  moreover have "switch_to a c j s = Some (Switched, ?t)" unfolding switch_to_def Let_def s2(1) by (simp add: s4')
  ultimately show ?thesis by blast
qed

lemma schedule_ok:
  assumes ok: "proc_ok s" and c: "current_process s = Some c"
  shows "\<exists>r t. schedule a s = Some (r, t) \<and> (if process_count s \<le> 1 then r = Returns () \<and> t = s
    else case next_ready s c of None \<Rightarrow> r = Returns () \<and> t = s | Some j \<Rightarrow> r = Switched \<and> switched c j s t)"
proof -
  have cu: "c \<in> used s" using proc_okD(7) [OF ok] c by (simp add: current_ok_def)
  have "j \<in> used s \<and> c \<noteq> j" if "next_ready s c = Some j" for j
    using next_ready_Some [OF that] by (auto simp: eligible_def used_def after_def)
  then show ?thesis
    using switch_to_ok [OF ok cu, of _ a] by (auto simp: schedule_cases [OF c] split: option.splits)
qed

subsection \<open>System call handlers\<close>

definition live :: "'a process_mgr_scheme \<Rightarrow> bool" where
  "live s \<longleftrightarrow> proc_ok s \<and> current_process s \<noteq> None"

lemma liveE:
  assumes "live s"
  obtains c where "proc_ok s" "current_process s = Some c" "c \<in> used s" "c < 64" "pid (proc c s) \<noteq> 0"
proof -
  obtain c where c: "proc_ok s" "current_process s = Some c" using assms by (auto simp: live_def)
  then have u: "c \<in> used s" using proc_okD(7) by (auto simp: current_ok_def)
  then have "0 < pid (proc c s)" using proc_okD(4) [OF c(1)] by (simp add: pids_ok_def)
  with c u that show thesis by (auto simp: used_def)
qed

text \<open>
  What a call leaves. When it returns, the manager is ready for the next one, memory has changed
  only in the page bitmap, on the screen and in pages that were free, and the processor's
  registers are those of the caller. When it switches, a ready process is current, and the
  processor goes on with the stack and at the address that its saved stack pointer gives,
  which is 0 as long as no process has been switched away from.
\<close>

definition served :: "'a process_mgr_scheme \<Rightarrow> 'a process_mgr_scheme \<Rightarrow> bool" where
  "served s t \<longleftrightarrow> pids_kept s t \<and> frame s t \<and> regs t = regs s \<and> (fresh s \<longrightarrow> fresh t)"

definition handed_over :: "'a process_mgr_scheme \<Rightarrow> 'a process_mgr_scheme \<Rightarrow> bool" where
  "handed_over s t \<longleftrightarrow> live t \<and> pids_kept s t
     \<and> (\<exists>j. current_process t = Some j \<and> state (proc j t) = PROCESS_READY
          \<and> regs t RSP = c_r15 (ctx (proc j t)) + 56 \<and> regs t RIP = read_u64 (mem t) (c_r15 (ctx (proc j t)) + 48)
          \<and> (fresh s \<longrightarrow> c_r15 (ctx (proc j t)) = 0))"

definition called :: "'a process_mgr_scheme \<Rightarrow> 'v outcome \<Rightarrow> 'a process_mgr_scheme \<Rightarrow> bool" where
  "called s r t \<longleftrightarrow> (case r of Returns v \<Rightarrow> live t \<and> served s t | Switched \<Rightarrow> handed_over s t)"

lemma called_simps [simp]:
  "called s (Returns v) t = (live t \<and> served s t)" "called s Switched t = handed_over s t"
  by (simp_all add: called_def)

lemma served_refl [simp]: "served s s"
  by (simp add: served_def)

lemma served_trans: "served s t \<Longrightarrow> served t u \<Longrightarrow> served s u"
  by (auto simp: served_def intro: pids_kept_trans frame_trans)

lemma served_handed_over: "served s t \<Longrightarrow> handed_over t u \<Longrightarrow> handed_over s u"
  by (auto simp: served_def handed_over_def intro: pids_kept_trans)

lemma served_called: "served s t \<Longrightarrow> called t r u \<Longrightarrow> called s r u"
  by (cases r) (auto intro: served_trans served_handed_over)

lemma called_pids: "called s r t \<Longrightarrow> live t \<and> pids_kept s t"
  by (cases r) (simp_all add: served_def handed_over_def)

lemma kept_served: "kept A s t \<Longrightarrow> frame s t \<Longrightarrow> pids_kept s t \<Longrightarrow> served s t"
  using keptD(5,11) by (fastforce simp: served_def fresh_def)

lemma schedule_called:
  assumes "proc_ok s" "current_process s = Some c"
  shows "\<exists>r t. schedule a s = Some (r, t) \<and> called s r t"
proof -
  obtain r t where t: "schedule a s = Some (r, t)" "if process_count s \<le> 1 then r = Returns () \<and> t = s
    else case next_ready s c of None \<Rightarrow> r = Returns () \<and> t = s | Some j \<Rightarrow> r = Switched \<and> switched c j s t"
    using schedule_ok [OF assms] by blast
  have "handed_over s t" if "next_ready s c = Some j" "switched c j s t" for j
  proof -
    have "eligible s c j" "j < 64" using next_ready_Some [OF that(1)] by (auto simp: after_def)
    then show ?thesis using that(2) by (auto simp: handed_over_def switched_def live_def eligible_def fresh_def)
  qed
  then have "called s r t" using t(2) assms by (auto simp: live_def split: if_splits option.splits)
  with t(1) show ?thesis by blast
qed

lemma get_current_pid_live: "current_process s = Some c \<Longrightarrow> pid (proc c s) \<noteq> 0 \<Longrightarrow> get_current_pid s = Some (pid (proc c s), s)"
  by (simp add: get_current_pid_def)

lemma debug_live:
  assumes "proc_ok s" "fmt_ok msg args"
  shows "\<exists>t. DEBUGER c msg args s = Some t \<and> kept (avail_pages s) s t \<and> proc_ok t \<and> pids_kept s t \<and> served s t"
  using DEBUGER_kept [OF proc_okD(2,3) [OF assms(1)] assms(2)] kept_proc_ok [OF assms(1)] kept_served by blast

lemma find_free_slot_cong: "processes t = processes s \<Longrightarrow> find_free_slot t = find_free_slot s"
  by (simp add: find_free_slot_def proc_def)

definition forked :: "nat \<Rightarrow> 'a process_mgr_scheme \<Rightarrow> u64 \<Rightarrow> 'a process_mgr_scheme \<Rightarrow> bool" where
  "forked c s v t \<longleftrightarrow>
     (case find_free_slot s of
        Some i \<Rightarrow> if 2 \<le> card (avail_pages s)
                  then v = ucast (next_pid s) \<and> pid (proc i t) = next_pid s \<and> parent (proc i t) = Some c
                     \<and> state (proc i t) = PROCESS_READY \<and> ctx (proc i t) = (ctx (proc c s))\<lparr>c_rax := 0\<rparr>
                     \<and> process_count t = process_count s + 1
                  else v = - 1 \<and> process_count t = process_count s
      | None \<Rightarrow> v = - 1 \<and> process_count t = process_count s)
     \<and> (\<forall>j \<in> used s. proc j t = proc j s) \<and> current_process t = current_process s"

lemma sys_fork_ok:
  assumes "live s" "current_process s = Some c"
  shows "\<exists>v t. sys_fork_handler s = Some (v, t) \<and> forked c s v t \<and> live t \<and> pids_kept s t \<and> served s t"
proof -
  have ok: "proc_ok s" "c \<in> used s" "c < 64" "pid (proc c s) \<noteq> 0" using assms by (auto elim!: liveE)
  have fmt: "fmt_ok ''sys_fork called from process %d'' [VInt x]" for x by simp
  obtain u where u: "DEBUGER LIGHT_CYAN ''sys_fork called from process %d'' [VInt (ucast (pid (proc c s)))] s = Some u"
    "kept (avail_pages s) s u" "proc_ok u" "pids_kept s u" "served s u" using debug_live [OF ok(1) fmt] by blast
  note k = keptD [OF u(2)]
  have slot: "find_free_slot u = find_free_slot s" "used u = used s" using find_free_slot_cong [OF k(1)] view_cong(1) [OF k(1,3)] by simp_all
  obtain r w where w: "create_process (c_rip (ctx (proc c u))) u = Some (r, w)" "created u r w"
    using create_process_ok [OF u(3)] by blast
  note d = createdD [OF w(2)]
  have cu: "proc c w = proc c s" using d(4) [of c] k(11) [of c] ok(2) slot by simp
  have frame: "\<forall>j \<in> used s. proc j w = proc j s" using d(4) k(11) slot by simp
  have pk: "pids_kept s w" using pids_kept_trans [OF u(4) d(2)] .
  note fr = create_process_frame [OF proc_okD(2,3,1) [OF u(3)] w(1)]
  have "served u w" using d(2,10) fr by (simp add: served_def)
  then have sv: "served s w" by (rule served_trans [OF u(5)])
  have h: "sys_fork_handler s = (case r of None \<Rightarrow> Some (- 1, w)
     | Some i \<Rightarrow> (let t = set_proc i (\<lambda>p. p\<lparr>ctx := ctx (proc c w)\<rparr>) w;
                      t = set_proc i (\<lambda>p. p\<lparr>ctx := (ctx p)\<lparr>c_rax := 0\<rparr>\<rparr>) t
                  in Some (ucast (pid (proc i t)), t)))"
    unfolding sys_fork_handler_def get_current_pid_live [OF assms(2) ok(4)]
    by (simp add: u(1) k(2) assms(2) w(1) split: option.splits)
  show ?thesis
  proof (cases r)
    case None
    then have "forked c s (- 1) w"
      using d(12) d(8) k(4,9) slot(1) frame d(3) k(2) by (auto simp: forked_def split: option.splits)
    moreover have "live w" using d(1,3) k(2) assms(2) by (simp add: live_def)
    ultimately show ?thesis using None h pk sv by auto
  next
    case (Some i)
    then have i: "find_free_slot s = Some i" "2 \<le> card (avail_pages s)" using d(6,12) slot k(9) by auto
    have inew: "i < 64" "i \<notin> used s" "i \<in> used w"
      using find_free_slotD [OF i(1)] d(5) slot i(1) by (auto simp: used_def)
    let ?f = "\<lambda>p. p\<lparr>ctx := (ctx (proc c w))\<lparr>c_rax := 0\<rparr>\<rparr>"
    let ?t = "set_proc i ?f w"
    have lw: "length (processes w) = 64" using proc_okD(1) [OF d(1)] .
    have h': "sys_fork_handler s = Some (ucast (pid (proc i ?t)), ?t)"
      using h Some lw inew(1) by (simp add: Let_def comp_def)
    have t: "proc_ok ?t \<and> pids_kept w ?t"
      using set_proc_ok [of w i ?f] d(1) inew(1) proc_okD(6) [OF d(1)] ok(3) by (simp add: sps_ok_def)
    have "forked c s (ucast (pid (proc i ?t))) ?t"
      using i d(7) [of i] d(8) d(11) [OF Some] slot k inew lw frame cu d(3) assms(2) Some
      by (auto simp: forked_def proc_set_proc)
    moreover have "live ?t" using t d(3) k(2) assms(2) by (simp add: live_def)
    moreover have "served w ?t" using t ok(3) lw by (simp add: served_def fresh_def proc_set_proc)
    ultimately show ?thesis using h' pids_kept_trans [OF pk conjunct2 [OF t]] served_trans [OF sv] by blast
  qed
qed

text \<open>The state in which \<open>sys_exit_handler_real\<close> calls the scheduler.\<close>

definition exiting :: "nat \<Rightarrow> u32 \<Rightarrow> 'a process_mgr_scheme \<Rightarrow> 'a process_mgr_scheme" where
  "exiting c status s =
     (set_proc c (\<lambda>p. p\<lparr>state := PROCESS_ZOMBIE, exit_code := status\<rparr>) s)\<lparr>process_count := process_count s - 1\<rparr>"

lemma exiting_ok:
  assumes "proc_ok s" "c \<in> used s"
  shows "proc_ok (exiting c status s) \<and> pids_kept s (exiting c status s)"
proof -
  have c: "c < 64" "state (proc c s) \<noteq> PROCESS_UNUSED" using assms(2) by (simp_all add: used_def)
  have "safe_sp (c_r15 (ctx (proc c s)) + 56)" using proc_okD(6) [OF assms(1)] c(1) by (simp add: sps_ok_def)
  then show ?thesis
    unfolding exiting_def proc_ok_updates
    using set_proc_ok [OF assms(1) c(1), of "\<lambda>p. p\<lparr>state := PROCESS_ZOMBIE, exit_code := status\<rparr>"] c(2) by simp
qed

lemma sys_exit_parts:
  assumes "live s" "current_process s = Some c"
  shows "\<exists>u. kept (avail_pages s) s u \<and> proc_ok u \<and> pids_kept s u \<and> served s u
    \<and> sys_exit_handler_real a status s =
        map_option (\<lambda>(r, t). (map_outcome (\<lambda>_. 0) r, t)) (schedule a (exiting c status u))"
proof -
  have ok: "proc_ok s" "c \<in> used s" "pid (proc c s) \<noteq> 0" using assms by (auto elim!: liveE)
  have fmt: "fmt_ok ''Process %d exiting with status %d'' [VInt x, VInt y]" for x y by simp
  obtain u where u: "DEBUGER LIGHT_CYAN ''Process %d exiting with status %d''
      [VInt (ucast (pid (proc c s))), VInt (ucast status)] s = Some u"
    "kept (avail_pages s) s u" "proc_ok u" "pids_kept s u" "served s u" using debug_live [OF ok(1) fmt] by blast
  have "(case r of Switched \<Rightarrow> Some (Switched, t) | Returns _ \<Rightarrow> Some (Returns 0, t)) = Some (map_outcome (\<lambda>_. 0 :: u64) r, t)"
    for r :: "unit outcome" and t :: "'a process_mgr_scheme" by (cases r) simp_all
  then have "sys_exit_handler_real a status s =
      map_option (\<lambda>(r, t). (map_outcome (\<lambda>_. 0) r, t)) (schedule a (exiting c status u))"
    unfolding sys_exit_handler_real_def get_current_pid_live [OF assms(2) ok(3)]
    using keptD(2) [OF u(2)] by (simp add: u(1) assms(2) exiting_def Let_def map_conv_bind_option comp_def case_prod_unfold)
  with u(2-5) show ?thesis by blast
qed

lemma exiting_served:
  assumes "proc_ok s" "c \<in> used s"
  shows "served s (exiting c status s)"
  using exiting_ok [OF assms, of status] proc_okD(1) [OF assms(1)]
  by (simp add: served_def exiting_def fresh_def proc_set_proc)

lemma sys_exit_ok:
  assumes "live s"
  shows "\<exists>r t. sys_exit_handler_real a status s = Some (r, t) \<and> called s r t \<and> (r = Returns 0 \<or> r = Switched)"
proof -
  obtain c where c: "proc_ok s" "current_process s = Some c" "c \<in> used s" using assms by (auto elim!: liveE)
  obtain u where u: "kept (avail_pages s) s u" "proc_ok u" "pids_kept s u" "served s u"
    "sys_exit_handler_real a status s = map_option (\<lambda>(r, t). (map_outcome (\<lambda>_. 0) r, t)) (schedule a (exiting c status u))"
    using sys_exit_parts [OF assms c(2)] by blast
  have cu: "c \<in> used u" using u(3) c(3) by (auto simp: pids_kept_def)
  note e = exiting_ok [OF u(2) cu, of status] exiting_served [OF u(2) cu, of status]
  have "current_process (exiting c status u) = Some c" using keptD(2) [OF u(1)] c(2) by (simp add: exiting_def)
  then obtain r t where t: "schedule a (exiting c status u) = Some (r, t)" "called (exiting c status u) r t"
    using schedule_called [of "exiting c status u" c a] e(1) by blast
  have "called s r t" by (rule served_called [OF served_trans [OF u(4) e(2)] t(2)])
  then have "called s (map_outcome (\<lambda>_. 0 :: u64) r) t" by (cases r) simp_all
  moreover have "map_outcome (\<lambda>_. 0 :: u64) r = Returns 0 \<or> map_outcome (\<lambda>_. 0 :: u64) r = Switched" by (cases r) simp_all
  ultimately show ?thesis using u(5) t(1) by simp
qed

lemma sys_wait_ok:
  assumes "live s"
  shows "\<exists>t. sys_wait_handler s = Some (- 1, t) \<and> live t \<and> pids_kept s t \<and> served s t"
proof -
  obtain c where c: "proc_ok s" "current_process s = Some c" "pid (proc c s) \<noteq> 0" using assms by (auto elim!: liveE)
  have fmt: "fmt_ok ''sys_wait called from process %d'' [VInt x]" for x by simp
  obtain u where "DEBUGER LIGHT_CYAN ''sys_wait called from process %d'' [VInt (ucast (pid (proc c s)))] s = Some u"
    "kept (avail_pages s) s u" "proc_ok u" "pids_kept s u" "served s u" using debug_live [OF c(1) fmt] by blast
  then show ?thesis
    using keptD(2) c(2) by (force simp: sys_wait_handler_def get_current_pid_live [OF c(2,3)] live_def)
qed

lemma sys_getpid_ok:
  assumes "live s" "current_process s = Some c"
  shows "sys_getpid_handler_real a s = Some (ucast (pid (proc c s)), s)"
proof -
  have "pid (proc c s) \<noteq> 0" using assms by (auto elim!: liveE)
  then show ?thesis by (simp add: sys_getpid_handler_real_def get_current_pid_live [OF assms(2)])
qed

lemma sys_brk_ok:
  assumes "live s" "current_process s = Some c"
  shows "sys_brk_handler addr s =
      (if addr = 0 then (brk (proc c s), s) else (addr, set_proc c (\<lambda>p. p\<lparr>brk := addr\<rparr>) s))
    \<and> live (snd (sys_brk_handler addr s)) \<and> pids_kept s (snd (sys_brk_handler addr s)) \<and> served s (snd (sys_brk_handler addr s))"
proof -
  have ok: "proc_ok s" "c < 64" using assms by (auto elim!: liveE)
  have "length (processes s) = 64" "safe_sp (c_r15 (ctx (proc c s)) + 56)"
    using proc_okD(1,6) [OF ok(1)] ok(2) by (simp_all add: sps_ok_def)
  then show ?thesis
    using set_proc_ok [OF ok, of "\<lambda>p. p\<lparr>brk := addr\<rparr>"] assms ok
    by (simp add: sys_brk_handler_def live_def proc_set_proc served_def fresh_def)
qed

subsection \<open>The process manager as a machine\<close>

datatype proc_event = Create u64 | Schedule u64 | Fork | Exit u64 u32 | Wait | Getpid u64 | Brk u64

fun proc_event_step :: "proc_event \<Rightarrow> 'a process_mgr_scheme \<Rightarrow> (u64 outcome \<times> 'a process_mgr_scheme) option" where
  "proc_event_step (Create e) s =
     map_option (\<lambda>(i, s). (Returns (case i of None \<Rightarrow> 0 | Some i \<Rightarrow> ucast (pid (proc i s))), s)) (create_process e s)"
| "proc_event_step (Schedule a) s = map_option (\<lambda>(r, s). (map_outcome (\<lambda>_. 0) r, s)) (schedule a s)"
| "proc_event_step Fork s = returning (sys_fork_handler s)"
| "proc_event_step (Exit a status) s = sys_exit_handler_real a status s"
| "proc_event_step Wait s = returning (sys_wait_handler s)"
| "proc_event_step (Getpid a) s = returning (sys_getpid_handler_real a s)"
| "proc_event_step (Brk addr) s = returning (Some (sys_brk_handler addr s))"

lemma create_process_served:
  assumes "live s"
  shows "\<exists>i t. create_process e s = Some (i, t) \<and> live t \<and> served s t"
proof -
  obtain c where c: "proc_ok s" "current_process s = Some c" using assms by (rule liveE)
  obtain i t where t: "create_process e s = Some (i, t)" "created s i t" using create_process_ok [OF c(1)] by blast
  note d = createdD [OF t(2)]
  have "served s t" using d(2,10) create_process_frame [OF proc_okD(2,3,1) [OF c(1)] t(1)] by (simp add: served_def)
  moreover have "live t" using d(1,3) c(2) by (simp add: live_def)
  ultimately show ?thesis using t(1) by blast
qed

interpretation pm: call_machine proc_event_step "\<lambda>_. True" live served handed_over
proof
  fix s :: "'a process_mgr_scheme" and e
  assume live: "live s"
  then obtain c where c: "proc_ok s" "current_process s = Some c" by (rule liveE)
  have "\<exists>r t. proc_event_step e s = Some (r, t) \<and> called s r t"
  proof (cases e)
    case (Create x)
    then show ?thesis using create_process_served [OF live, of x] by auto
  next
    case (Schedule a)
    obtain r t where t: "schedule a s = Some (r, t)" "called s r t" using schedule_called [OF c] by blast
    then have "called s (map_outcome (\<lambda>_. 0 :: u64) r) t" by (cases r) simp_all
    then show ?thesis using Schedule t(1) by simp
  next
    case Fork
    then show ?thesis using sys_fork_ok [OF live c(2)] by auto
  next
    case (Exit a status)
    then show ?thesis using sys_exit_ok [OF live, of a status] by auto
  next
    case Wait
    then show ?thesis using sys_wait_ok [OF live] by auto
  next
    case (Getpid a)
    then show ?thesis using sys_getpid_ok [OF live c(2), of a] live by simp
  next
    case (Brk addr)
    then show ?thesis using sys_brk_ok [OF live c(2), of addr] by (cases "addr = 0") auto
  qed
  then show "\<exists>r t. proc_event_step e s = Some (r, t)
      \<and> (case r of Returns v \<Rightarrow> live t \<and> served s t | Switched \<Rightarrow> handed_over s t)" by (simp only: called_def)
qed (auto intro: served_trans served_handed_over)

end
