(* ===== verification/Process_Properties.thy ===== *)
theory Process_Properties
  imports Process_Invariant Interrupt_Properties
begin

text \<open>
  What the process manager promises. The witnesses run on a booted machine with the
  idle process and one more.
\<close>

subsection \<open>A concrete process table\<close>

definition unused_slot :: process_t where
  "unused_slot = \<lparr>pid = 0, state = PROCESS_UNUSED, ctx = zero_context, page_table = 0, kernel_stack = 0, user_stack = 0,
     exit_code = 0, parent = None, brk = 0\<rparr>"

definition process_statics :: "'a \<Rightarrow> 'a process_mgr_scheme" where
  "process_statics x = irq_statics (process_mgr_ext (replicate 64 unused_slot) None 1 0 x)"

text \<open>The machine after \<open>Init_Memory\<close>, with the process table as the static initialisers leave it.\<close>

definition booted_process :: "'a \<Rightarrow> 'a process_mgr_scheme" where
  "booted_process x =
     (booted_paging (idt_state_ext (replicate 256 (gate 0 0 0)) \<lparr>limit = 0, base = 0\<rparr>
        (irq_state_ext (replicate 16 0) (process_mgr_ext (replicate 64 unused_slot) None 1 0 x))))
     \<lparr>regs := (\<lambda>_. 0)(RSP := 0x9000)\<rparr>"

definition two_processes :: process_mgr where
  "two_processes = (booted_process ())\<lparr>processes := (replicate 64 unused_slot)
       [0 := unused_slot\<lparr>pid := 1, state := PROCESS_READY\<rparr>, 1 := unused_slot\<lparr>pid := 2, state := PROCESS_READY\<rparr>],
     current_process := Some 0, next_pid := 3, process_count := 2\<rparr>"

lemma booted_process_simps [simp]:
  "processes (booted_process x) = replicate 64 unused_slot" "current_process (booted_process x) = None"
  "regs (booted_process x) = (\<lambda>_. 0)(RSP := 0x9000)" "next_pid (booted_process x) = 1" "process_count (booted_process x) = 0"
  "alloc_ok (booted_process x)" "cursor_ok (booted_process x)" "card (avail_pages (booted_process x)) = 0x1FF00"
proof -
  let ?y = "idt_state_ext (replicate 256 (gate 0 0 0)) \<lparr>limit = 0, base = 0\<rparr>
        (irq_state_ext (replicate 16 0) (process_mgr_ext (replicate 64 unused_slot) None 1 0 x))"
  show "processes (booted_process x) = replicate 64 unused_slot" "current_process (booted_process x) = None"
    "regs (booted_process x) = (\<lambda>_. 0)(RSP := 0x9000)" "next_pid (booted_process x) = 1" "process_count (booted_process x) = 0"
    by (simp_all add: booted_process_def booted_paging_def booted_memory_def memory_statics_def
      vga_statics_def cleared_def fresh_bitmap_def Let_def)
  have v: "alloc_ok (booted_process x) = alloc_ok (booted_paging ?y)" "avail_pages (booted_process x) = avail_pages (booted_paging ?y)"
    by (rule alloc_view; simp add: booted_process_def)+
  show "alloc_ok (booted_process x)" "card (avail_pages (booted_process x)) = 0x1FF00"
    unfolding v by (simp, rule booted_paging_card)
  have "crtc_regs (booted_process x) = crtc_regs (booted_paging ?y)" by (simp add: booted_process_def)
  from cursor_ok_regs [OF this] show "cursor_ok (booted_process x)" by simp
qed

lemma safe_sp_boot: "safe_sp 0x9000"
  by (auto simp: safe_sp_def region_iff bitmap_area_iff screen_bytes_iff)

lemma unused_slot_simps [simp]:
  "pid unused_slot = 0" "state unused_slot = PROCESS_UNUSED" "ctx unused_slot = zero_context" "user_stack unused_slot = 0"
  "kernel_stack unused_slot = 0" "c_r15 zero_context = 0"
  by (simp_all add: unused_slot_def zero_context_def)

lemma booted_process_start: "proc_start (booted_process x)"
  by (simp add: proc_start_def sps_ok_def safe_sp_boot safe_sp_fresh proc_def)

lemma two_processes_simps [simp]:
  "current_process two_processes = Some 0" "next_pid two_processes = 3" "process_count two_processes = 2"
  "length (processes two_processes) = 64" "regs two_processes = (\<lambda>_. 0)(RSP := 0x9000)"
  "i < 64 \<Longrightarrow> proc i two_processes =
    (if i = 0 then unused_slot\<lparr>pid := 1, state := PROCESS_READY\<rparr>
     else if i = 1 then unused_slot\<lparr>pid := 2, state := PROCESS_READY\<rparr> else unused_slot)"
  "alloc_ok two_processes" "cursor_ok two_processes" "card (avail_pages two_processes) = 0x1FF00"
proof -
  have v: "alloc_ok two_processes = alloc_ok (booted_process ())" "avail_pages two_processes = avail_pages (booted_process ())"
    by (rule alloc_view; simp add: two_processes_def)+
  then show "alloc_ok two_processes" "card (avail_pages two_processes) = 0x1FF00" by simp_all
  have "crtc_regs two_processes = crtc_regs (booted_process ())" by (simp add: two_processes_def)
  from cursor_ok_regs [OF this] show "cursor_ok two_processes" by simp
qed (auto simp: two_processes_def proc_def nth_list_update)

lemma two_processes_used: "used two_processes = {0, 1}"
  by (auto simp: used_def split: if_splits)

lemma two_processes_live: "live two_processes"
proof -
  have "pids_ok two_processes" by (simp add: pids_ok_def two_processes_used inj_on_def)
  moreover have "stacks_ok two_processes" by (simp add: stacks_ok_def owned_stacks_def)
  moreover have "sps_ok two_processes" by (simp add: sps_ok_def safe_sp_boot safe_sp_fresh)
  ultimately show ?thesis by (simp add: live_def proc_ok_def current_ok_def two_processes_used)
qed

subsection \<open>The invariant\<close>

text \<open>
  C5: After the start of the process manager, any sequence of process creations, scheduler calls
  and process system calls runs until all have returned or one of them switches to another process,
  which ends the sequence. Then, either way: a current process exists and is in use; processes
  in use have distinct nonzero identifiers, and none that existed has changed its identifier;
  every process whose creation was completed (its user stack is set) has two different pages in
  use as stacks, and no two such processes share one; the page allocator is consistent. (A
  creation that fails leaves a ready process that owns no stack, see \<open>failed_creations_share_stack\<close>.) After a
  switch the current process is a ready one, and the processor is on its saved stack, at the address
  found there. When no stack pointer was saved before, as in the static process table, this is the
  address in memory at 48 with the stack pointer 56: no process that is switched to
  starts or resumes (see \<open>first_switch_misses_entry\<close>).
\<close>

theorem process_manager_safe:
  assumes "proc_start s"
  shows "\<exists>s0 rs t. InitProcessManager idle s = Some s0 \<and> run_calls proc_event_step es s0 = Some (rs, t)
    \<and> (Switched \<notin> set rs \<longrightarrow> length rs = length es)
    \<and> (Switched \<in> set rs \<longrightarrow>
         (\<exists>j. current_process t = Some j \<and> state (proc j t) = PROCESS_READY
           \<and> regs t RSP = c_r15 (ctx (proc j t)) + 56 \<and> regs t RIP = read_u64 (mem t) (c_r15 (ctx (proc j t)) + 48))
         \<and> ((\<forall>i<64. c_r15 (ctx (proc i s)) = 0) \<longrightarrow> regs t RSP = 56 \<and> regs t RIP = read_u64 (mem t) 48))
    \<and> (\<exists>c \<in> used t. current_process t = Some c) \<and> alloc_ok t
    \<and> inj_on (\<lambda>i. pid (proc i t)) (used t) \<and> (\<forall>i \<in> used t. pid (proc i t) \<noteq> 0)
    \<and> (\<forall>i \<in> used s0. i \<in> used t \<and> pid (proc i t) = pid (proc i s0))
    \<and> (\<forall>i<64. user_stack (proc i t) \<noteq> 0 \<longrightarrow> kernel_stack (proc i t) \<noteq> user_stack (proc i t)
         \<and> {kernel_stack (proc i t), user_stack (proc i t)} \<subseteq> all_pages t - avail_pages t)
    \<and> (\<forall>i<64. \<forall>j<64. i \<noteq> j \<longrightarrow> user_stack (proc i t) \<noteq> 0 \<longrightarrow> user_stack (proc j t) \<noteq> 0 \<longrightarrow>
         {kernel_stack (proc i t), user_stack (proc i t)} \<inter> {kernel_stack (proc j t), user_stack (proc j t)} = {})"
proof -
  obtain s0 where s0: "InitProcessManager idle s = Some s0" "proc_ok s0" "current_process s0 = Some 0" "fresh s \<longrightarrow> fresh s0"
    using InitProcessManager_ok [OF assms] by blast
  then have "live s0" by (simp add: live_def)
  then obtain rs t where t: "run_calls proc_event_step es s0 = Some (rs, t)"
    "if Switched \<in> set rs then handed_over s0 t else live t \<and> served s0 t \<and> length rs = length es"
    using pm.calls_ok [of es s0] by auto
  then have lt: "live t" "pids_kept s0 t" by (auto simp: handed_over_def served_def split: if_splits)
  from lt(1) obtain c where c: "proc_ok t" "current_process t = Some c" "c \<in> used t" by (rule liveE)
  have "Switched \<in> set rs \<longrightarrow>
      (\<exists>j. current_process t = Some j \<and> state (proc j t) = PROCESS_READY
        \<and> regs t RSP = c_r15 (ctx (proc j t)) + 56 \<and> regs t RIP = read_u64 (mem t) (c_r15 (ctx (proc j t)) + 48))
      \<and> ((\<forall>i<64. c_r15 (ctx (proc i s)) = 0) \<longrightarrow> regs t RSP = 56 \<and> regs t RIP = read_u64 (mem t) 48)"
    using t(2) s0(4) by (auto simp: handed_over_def fresh_def)
  moreover have "inj_on (\<lambda>i. pid (proc i t)) (used t)" "\<forall>i \<in> used t. pid (proc i t) \<noteq> 0"
    using proc_okD(4) [OF c(1)] by (auto simp: pids_ok_def)
  moreover have "\<forall>i \<in> used s0. i \<in> used t \<and> pid (proc i t) = pid (proc i s0)" using lt(2) by (auto simp: pids_kept_def)
  moreover have "\<forall>i<64. user_stack (proc i t) \<noteq> 0 \<longrightarrow> kernel_stack (proc i t) \<noteq> user_stack (proc i t)
         \<and> {kernel_stack (proc i t), user_stack (proc i t)} \<subseteq> all_pages t - avail_pages t"
  proof (intro allI impI)
    fix i :: nat assume i: "i < 64" "user_stack (proc i t) \<noteq> 0"
    then have "owned_stacks (proc i t) \<subseteq> all_pages t - avail_pages t" "kernel_stack (proc i t) \<noteq> user_stack (proc i t)"
      using proc_okD(5) [OF c(1)] unfolding stacks_ok_def by blast+
    with i(2) show "kernel_stack (proc i t) \<noteq> user_stack (proc i t)
         \<and> {kernel_stack (proc i t), user_stack (proc i t)} \<subseteq> all_pages t - avail_pages t"
      by (simp only: owned_stacks_def if_False simp_thms)
  qed
  moreover have "\<forall>i<64. \<forall>j<64. i \<noteq> j \<longrightarrow> user_stack (proc i t) \<noteq> 0 \<longrightarrow> user_stack (proc j t) \<noteq> 0 \<longrightarrow>
         {kernel_stack (proc i t), user_stack (proc i t)} \<inter> {kernel_stack (proc j t), user_stack (proc j t)} = {}"
  proof (intro allI impI)
    fix i j :: nat assume "i < 64" "j < 64" "i \<noteq> j" "user_stack (proc i t) \<noteq> 0" "user_stack (proc j t) \<noteq> 0"
    moreover from this(1-3) have "owned_stacks (proc i t) \<inter> owned_stacks (proc j t) = {}"
      using proc_okD(5) [OF c(1)] unfolding stacks_ok_def by blast
    ultimately show "{kernel_stack (proc i t), user_stack (proc i t)} \<inter> {kernel_stack (proc j t), user_stack (proc j t)} = {}"
      by (simp add: owned_stacks_def)
  qed
  moreover have "Switched \<notin> set rs \<longrightarrow> length rs = length es" using t(2) by simp
  ultimately show ?thesis using s0(1) t(1) c proc_okD(2) by blast
qed

theorem process_manager_safe_witness:
  "\<exists>s0 rs t. InitProcessManager 0x7000 (booted_process ()) = Some s0
    \<and> run_calls proc_event_step [Create 0x8000, Fork, Brk 0, Exit 0x7100 3, Wait] s0 = Some (rs, t)
    \<and> (Switched \<in> set rs \<longrightarrow> regs t RSP = 56) \<and> inj_on (\<lambda>i. pid (proc i t)) (used t)"
proof -
  have "\<forall>i<64. c_r15 (ctx (proc i (booted_process ()))) = 0" by (simp add: proc_def)
  moreover obtain s0 rs t where "InitProcessManager 0x7000 (booted_process ()) = Some s0"
    "run_calls proc_event_step [Create 0x8000, Fork, Brk 0, Exit 0x7100 3, Wait] s0 = Some (rs, t)"
    "Switched \<in> set rs \<longrightarrow>
         (\<exists>j. current_process t = Some j \<and> state (proc j t) = PROCESS_READY
           \<and> regs t RSP = c_r15 (ctx (proc j t)) + 56 \<and> regs t RIP = read_u64 (mem t) (c_r15 (ctx (proc j t)) + 48))
         \<and> ((\<forall>i<64. c_r15 (ctx (proc i (booted_process ()))) = 0) \<longrightarrow> regs t RSP = 56 \<and> regs t RIP = read_u64 (mem t) 48)"
    "inj_on (\<lambda>i. pid (proc i t)) (used t)"
    using process_manager_safe [OF booted_process_start [of "()"],
      of "0x7000" "[Create 0x8000, Fork, Brk 0, Exit 0x7100 3, Wait]"] by (elim exE conjE) (rule that)
  ultimately show ?thesis by blast
qed

subsection \<open>Creation\<close>

text \<open>
  C20: \<open>create_process\<close> on every path. Without a free slot it returns null and no process
  changes. With a free slot and two free pages it returns the lowest free slot, made ready with
  the next identifier, two fresh pages as stacks and a context that starts at the entry point on
  the kernel stack, and takes exactly those two pages. With fewer pages it returns null with all
  pages free again, but the slot stays behind as a ready process without a user stack, and its
  identifier is consumed.
\<close>

theorem create_process_correct:
  assumes "proc_ok s"
  shows "\<exists>r t. create_process e s = Some (r, t) \<and> (\<forall>j \<in> used s. proc j t = proc j s)
    \<and> (case find_free_slot s of
         None \<Rightarrow> r = None \<and> processes t = processes s \<and> avail_pages t = avail_pages s
       | Some i \<Rightarrow>
           state (proc i t) = PROCESS_READY \<and> pid (proc i t) = next_pid s \<and> next_pid t = next_pid s + 1
           \<and> (if 2 \<le> card (avail_pages s) then
                r = Some i \<and> process_count t = process_count s + 1
                \<and> (\<exists>k \<in> avail_pages s. \<exists>u \<in> avail_pages s - {k}. kernel_stack (proc i t) = k \<and> user_stack (proc i t) = u
                     \<and> avail_pages t = avail_pages s - {k, u} \<and> c_rip (ctx (proc i t)) = e \<and> c_rsp (ctx (proc i t)) = k + 4096)
              else r = None \<and> process_count t = process_count s \<and> avail_pages t = avail_pages s
                \<and> user_stack (proc i t) = 0))"
proof (cases "find_free_slot s")
  case None
  obtain t where "create_process e s = Some (None, t)" "kept (avail_pages s) s t"
    using create_process_no_slot [OF proc_okD(2,3) [OF assms] None] by blast
  then show ?thesis using None keptD(1,9,11) by fastforce
next
  case (Some i)
  note o = proc_okD [OF assms]
  have i: "i < 64" "i \<notin> used s" "user_stack (proc i s) = 0"
    using find_free_slotD [OF Some] o(5) by (auto simp: used_def stacks_ok_def)
  have old: "\<forall>j \<in> used s. proc j t = proc j s" if "kept A (claim_slot i f s\<lparr>process_count := k\<rparr>) t" for A f k t
    using keptD(11) [OF that] i(2) by (auto simp: proc_claim_slot)
  have new: "proc i t = f (claimed s (proc i s))" "next_pid t = next_pid s + 1" "process_count t = k" "avail_pages t = A"
    if "kept A (claim_slot i f s\<lparr>process_count := k\<rparr>) t" for A f k t
    using keptD(3,4,9,11) [OF that] i(1) o(1) by (simp_all add: proc_claim_slot)
  show ?thesis
  proof (cases "2 \<le> card (avail_pages s)")
    case True
    obtain t k u where t: "create_process e s = Some (Some i, t)" "k \<in> avail_pages s" "u \<in> avail_pages s" "k \<noteq> u"
      and kp: "kept (avail_pages s - {k, u}) ((claim_slot i (\<lambda>p. p\<lparr>kernel_stack := k, user_stack := u, ctx := entry_context e k\<rparr>) s)
        \<lparr>process_count := process_count s + 1\<rparr>) t"
      using create_process_created [OF o(2,3) Some o(1) True] by blast
    have u: "u \<in> avail_pages s - {k}" using t(3,4) by blast
    have "\<exists>k \<in> avail_pages s. \<exists>u \<in> avail_pages s - {k}. kernel_stack (proc i t) = k \<and> user_stack (proc i t) = u
        \<and> avail_pages t = avail_pages s - {k, u} \<and> c_rip (ctx (proc i t)) = e \<and> c_rsp (ctx (proc i t)) = k + 4096"
      by (rule bexI [where x = k], rule bexI [where x = u]) (use t(2) u in \<open>simp_all add: new [OF kp] entry_context_def\<close>)
    moreover have "state (proc i t) = PROCESS_READY" "pid (proc i t) = next_pid s" by (simp_all add: new [OF kp] claimed_def)
    ultimately show ?thesis
      using t(1) True old [OF kp] new(2,3) [OF kp] unfolding Some option.case if_P [OF True] by blast
  next
    case False
    have "\<exists>t f. create_process e s = Some (None, t) \<and> kept (avail_pages s) ((claim_slot i f s)\<lparr>process_count := process_count s\<rparr>) t
        \<and> user_stack (f (claimed s (proc i s))) = 0 \<and> (\<forall>p. state (f p) = state p \<and> pid (f p) = pid p)"
    proof (cases "avail_pages s = {}")
      case True
      from create_process_no_page [OF o(2,3) Some o(1) True, of e] obtain t where
        "create_process e s = Some (None, t)" "kept {} (claim_slot i (\<lambda>p. p\<lparr>kernel_stack := 0\<rparr>) s) t" by blast
      with i(3) True show ?thesis
        by (intro exI [of _ t] exI [of _ "\<lambda>p. p\<lparr>kernel_stack := 0\<rparr>"]) (simp add: claim_slot_count claimed_def)
    next
      case ne: False
      have "card (avail_pages s) = 1" using False ne by (metis One_nat_def Suc_1 card_0_eq finite less_2_cases not_le)
      from create_process_one_page [OF o(2,3) Some o(1) this, of e] obtain t where
        "create_process e s = Some (None, t)"
        "kept (avail_pages s) (claim_slot i (\<lambda>p. p\<lparr>kernel_stack := Min (avail_pages s), user_stack := 0\<rparr>) s) t" by blast
      then show ?thesis by (intro exI conjI) (assumption, simp only: claim_slot_count, simp_all)
    qed
    then obtain t f where t: "create_process e s = Some (None, t)" "user_stack (f (claimed s (proc i s))) = 0"
      "\<forall>p. state (f p) = state p \<and> pid (f p) = pid p"
      and kp: "kept (avail_pages s) ((claim_slot i f s)\<lparr>process_count := process_count s\<rparr>) t" by blast
    have "state (proc i t) = PROCESS_READY" "pid (proc i t) = next_pid s" "user_stack (proc i t) = 0"
      using t(2,3) by (simp_all add: new [OF kp] claimed_def)
    then show ?thesis
      using t(1) old [OF kp] new(2-4) [OF kp] unfolding Some option.case if_not_P [OF False] by blast
  qed
qed

theorem create_process_correct_witness:
  "\<exists>t. create_process 0x8000 two_processes = Some (Some 2, t) \<and> pid (proc 2 t) = 3 \<and> c_rip (ctx (proc 2 t)) = 0x8000"
proof -
  have s: "find_free_slot two_processes = Some 2"
    by (simp add: find_free_slot_def upt_conv_Cons)
  have "2 \<le> card (avail_pages two_processes)" by simp
  then show ?thesis
    using create_process_correct [of two_processes "0x8000"] two_processes_live
    unfolding s option.case live_def by auto
qed

text \<open>The machine of the two processes with a single page of memory to manage.\<close>

definition one_page :: process_mgr where
  "one_page = two_processes\<lparr>memory_end := 0x101000, total_pages := 1, used_pages := 0\<rparr>"

lemma one_page_ok: "proc_ok one_page" "card (avail_pages one_page) = 1"
proof -
  let ?y = "paging_ext 0x1000 (idt_state_ext (replicate 256 (gate 0 0 0)) \<lparr>limit = 0, base = 0\<rparr>
        (irq_state_ext (replicate 16 0) (process_mgr_ext (replicate 64 unused_slot) None 1 0 ())))"
  have m: "mem one_page = mem (booted_memory ?y)" "memory_map one_page = 0x60000" "memory_start one_page = 0x100000"
    by (simp_all add: one_page_def two_processes_def booted_process_def booted_paging_def) (simp add: booted_memory_def fresh_bitmap_def Let_def)
  have "0 \<in> free_pages (booted_memory ?y)" by (simp only: booted_memory_simps) simp
  then have "page_free one_page 0" using m by (simp add: free_pages_def page_free_def map_byte_def)
  moreover have t: "memory_end one_page = 0x101000" "total_pages one_page = 1" "used_pages one_page = 0" by (simp_all add: one_page_def)
  moreover have "i < 1 \<longleftrightarrow> i = 0" for i :: u64 by (simp add: word_less_nat_alt unat_eq_0)
  ultimately have f: "free_pages one_page = {0}" by (auto simp: free_pages_def)
  then have ok: "alloc_ok one_page" using m t by (simp add: alloc_ok_def alloc_bounds_def)
  have p: "proc i one_page = proc i two_processes" for i by (simp add: one_page_def proc_def)
  have r: "regs one_page = regs two_processes" "next_pid one_page = 3" "current_process one_page = Some 0"
    "length (processes one_page) = 64" "cursor_ok one_page"
    using cursor_ok_regs [of one_page two_processes] by (simp_all add: one_page_def)
  have u: "used one_page = {0, 1}" using two_processes_used by (simp add: used_def p)
  have "pids_ok one_page" by (simp add: pids_ok_def u p r inj_on_def)
  moreover have "stacks_ok one_page" by (simp add: stacks_ok_def owned_stacks_def p)
  moreover have "sps_ok one_page" by (simp add: sps_ok_def p r safe_sp_boot safe_sp_fresh)
  ultimately show "proc_ok one_page" using ok r by (simp add: proc_ok_def current_ok_def u)
  show "card (avail_pages one_page) = 1" by (simp add: avail_pages_def f)
qed

text \<open>
  C31: A creation that fails for lack of a second page leaves a pointer to freed memory. With one
  free page and two unused slots, two calls of \<open>create_process\<close> both return null and leave two ready
  processes whose kernel stacks are the same page, which the allocator considers free. The
  scheduler regards both as processes to run.
\<close>

theorem failed_creations_share_stack:
  assumes "proc_ok s" "card (avail_pages s) = 1" "i < 64" "j < 64" "i \<noteq> j"
    "state (proc i s) = PROCESS_UNUSED" "state (proc j s) = PROCESS_UNUSED"
  shows "\<exists>t u a b. create_process e s = Some (None, t) \<and> create_process e' t = Some (None, u)
    \<and> a < 64 \<and> b < 64 \<and> a \<noteq> b \<and> kernel_stack (proc a u) = kernel_stack (proc b u)
    \<and> kernel_stack (proc a u) \<in> avail_pages u
    \<and> (\<forall>c. c \<notin> {a, b} \<longrightarrow> eligible u c a \<and> eligible u c b)"
proof -
  have step: "\<exists>t a. create_process e s = Some (None, t) \<and> proc_ok t \<and> avail_pages t = avail_pages s \<and> a < 64 \<and> a \<notin> used s
      \<and> used t = insert a (used s) \<and> (\<forall>c \<in> used s. proc c t = proc c s)
      \<and> state (proc a t) = PROCESS_READY \<and> kernel_stack (proc a t) = Min (avail_pages s)"
    if ok: "proc_ok s" "card (avail_pages s) = 1" "k < 64" "k \<notin> used s" for s :: "'a process_mgr_scheme" and e k
  proof -
    note o = proc_okD [OF ok(1)]
    obtain a where a: "find_free_slot s = Some a" using ok(3,4) find_free_slot_None [of s] by (auto simp: used_def)
    have au: "a < 64" "a \<notin> used s" using find_free_slotD [OF a] by (auto simp: used_def)
    obtain t where t: "create_process e s = Some (None, t)"
      "kept (avail_pages s) (claim_slot a (\<lambda>p. p\<lparr>kernel_stack := Min (avail_pages s), user_stack := 0\<rparr>) s) t"
      using create_process_one_page [OF o(2,3) a o(1) ok(2)] by blast
    obtain r t' where "create_process e s = Some (r, t')" "created s r t'" using create_process_ok [OF ok(1)] by blast
    then have cr: "created s None t" using t(1) by simp
    have "proc a t = (claimed s (proc a s))\<lparr>kernel_stack := Min (avail_pages s), user_stack := 0\<rparr>"
      using keptD(11) [OF t(2), of a] au(1) o(1) by (simp add: proc_claim_slot)
    then have "state (proc a t) = PROCESS_READY" "kernel_stack (proc a t) = Min (avail_pages s)" by (simp_all add: claimed_def)
    moreover have "used t = insert a (used s)" using createdD(5) [OF cr] a by simp
    ultimately show ?thesis using t(1) createdD(1,4,13) [OF cr] au by blast
  qed
  have nu: "i \<notin> used s" "j \<notin> used s" using assms(6,7) by (simp_all add: used_def)
  obtain t a where t: "create_process e s = Some (None, t)" "proc_ok t" "avail_pages t = avail_pages s" "a < 64" "a \<notin> used s"
    "used t = insert a (used s)" "state (proc a t) = PROCESS_READY" "kernel_stack (proc a t) = Min (avail_pages s)"
    using step [OF assms(1,2,3) nu(1)] by blast
  obtain k where "k < 64" "k \<notin> used t" using nu t(6) assms(3-5) by (cases "a = i") auto
  then obtain u b where u: "create_process e' t = Some (None, u)" "avail_pages u = avail_pages t" "b < 64" "b \<notin> used t"
    "\<forall>c \<in> used t. proc c u = proc c t" "state (proc b u) = PROCESS_READY" "kernel_stack (proc b u) = Min (avail_pages t)"
    using step [OF t(2), of k e'] t(3) assms(2) by auto
  have "avail_pages s \<noteq> {}" using assms(2) by auto
  then have "Min (avail_pages s) \<in> avail_pages s" by simp
  moreover have "proc a u = proc a t" "a \<noteq> b" using u(4,5) t(6) by auto
  ultimately show ?thesis using t u by (intro exI [of _ t] exI [of _ u] exI [of _ a] exI [of _ b]) (simp add: eligible_def)
qed

theorem failed_creations_share_stack_witness:
  "\<exists>t u a b. create_process 0x8000 one_page = Some (None, t) \<and> create_process 0x8000 t = Some (None, u)
    \<and> a \<noteq> b \<and> kernel_stack (proc a u) = kernel_stack (proc b u) \<and> kernel_stack (proc a u) \<in> avail_pages u"
proof -
  have "proc i one_page = proc i two_processes" for i by (simp add: one_page_def proc_def)
  then have "state (proc 2 one_page) = PROCESS_UNUSED" "state (proc 3 one_page) = PROCESS_UNUSED" by simp_all
  from failed_creations_share_stack [OF one_page_ok _ _ _ this, of "0x8000" "0x8000"] show ?thesis by force
qed

subsection \<open>Context switches\<close>

text \<open>
  C21: A process that is switched away and later switched back resumes where it stopped, whatever
  ran in between, provided its saved words and its context were left alone: the callee-saved
  registers and the stack pointer have their old values and execution continues at the return
  address of its call of \<open>switch_process\<close>.
\<close>

theorem switch_round_trip:
  assumes "i \<noteq> j" "i < length (processes s)" "sa = switch_process i j s"
    and "ctx (proc i sb) = ctx (proc i sa)" "\<forall>x \<in> region (regs s RSP - 48) 56. mem sb x = mem sa x"
    and "region (regs sb RSP - 48) 48 \<inter> region (regs s RSP - 48) 56 = {}"
  shows "(\<forall>r \<in> set callee_saved. regs (switch_process j i sb) r = regs s r)
    \<and> regs (switch_process j i sb) RIP = read_u64 (mem s) (regs s RSP)
    \<and> regs (switch_process j i sb) RSP = regs s RSP + 8"
proof -
  let ?sp = "regs s RSP"
  obtain m r where sa: "sa = (set_proc i (\<lambda>p. p\<lparr>ctx := (ctx p)\<lparr>c_r15 := ?sp - 48\<rparr>\<rparr>) s)\<lparr>mem := m, regs := r\<rparr>"
    and m: "agree_off (region (?sp - 48) 48) (mem s) m" "saved_at m (?sp - 48) (regs s)"
    using switch_process_result [OF assms(1), of s] assms(3) by blast
  have "ctx (proc i sa) = (ctx (proc i s))\<lparr>c_r15 := ?sp - 48\<rparr>"
    using assms(2) proc_set_proc [of i i _ s] by (simp add: sa proc_def set_proc_def)
  then have c: "c_r15 (ctx (proc i sb)) = ?sp - 48" using assms(4) by simp
  obtain m' r' where s3: "switch_process j i sb =
      (set_proc j (\<lambda>p. p\<lparr>ctx := (ctx p)\<lparr>c_r15 := regs sb RSP - 48\<rparr>\<rparr>) sb)\<lparr>mem := m', regs := r'\<rparr>"
    and m': "agree_off (region (regs sb RSP - 48) 48) (mem sb) m'" "saved_at m' (?sp - 48) r'"
      "r' RIP = read_u64 m' (?sp - 48 + 48)" "r' RSP = ?sp - 48 + 56"
    using switch_process_result [of j i sb] assms(1) unfolding c by blast
  have same: "m' x = m x" if "x \<in> region (?sp - 48) 56" for x
    using agree_offD [OF m'(1), of x] assms(5,6) that by (auto simp: sa)
  have word: "read_u64 m' (?sp - 48 + d) = read_u64 m (?sp - 48 + d)" if "unat d \<le> 48" for d
    using region_shift [of d 8 56 "?sp - 48"] that same by (intro read_u64_cong) auto
  have "saved_at m' (?sp - 48) (regs s)" unfolding saved_at_def
  proof (intro allI impI)
    fix k :: nat assume k: "k < 6"
    then have "unat (8 * of_nat k :: u64) = 8 * k" using unat_of_nat_small [of "8 * k"] by simp
    with k have "read_u64 m' (?sp - 48 + 8 * of_nat k) = read_u64 m (?sp - 48 + 8 * of_nat k)" by (intro word) simp
    with k m(2) show "read_u64 m' (?sp - 48 + 8 * of_nat k) = regs s (rev callee_saved ! k)" by (simp add: saved_at_def)
  qed
  from saved_atD [OF m'(2) this] have "\<forall>x \<in> set callee_saved. r' x = regs s x" by blast
  moreover have "read_u64 m ?sp = read_u64 (mem s) ?sp"
  proof (rule read_u64_agree [OF m(1)])
    have "False" if "unat (x - ?sp) < 8" "unat (x - (?sp - 48)) < 48" for x
    proof -
      have "x - (?sp - 48) = (x - ?sp) + 48" by simp
      then have "unat (x - (?sp - 48)) = unat (x - ?sp) + 48" using that(1) by (simp only: unat_word_ariths(1)) simp
      with that(2) show False by simp
    qed
    then show "region ?sp 8 \<inter> region (?sp - 48) 48 = {}" by (auto simp: region_def)
  qed
  ultimately show ?thesis using word [of 48] m'(3,4) by (simp add: s3 add.commute)
qed

theorem switch_round_trip_witness:
  "regs (switch_process 1 0 ((switch_process 0 1 two_processes)\<lparr>regs := (\<lambda>_. 7)\<rparr>)) RSP = 0x9008"
proof -
  let ?s1 = "switch_process 0 1 two_processes"
  have "(\<forall>r \<in> set callee_saved. regs (switch_process 1 0 (?s1\<lparr>regs := (\<lambda>_. 7)\<rparr>)) r = regs two_processes r)
    \<and> regs (switch_process 1 0 (?s1\<lparr>regs := (\<lambda>_. 7)\<rparr>)) RIP = read_u64 (mem two_processes) (regs two_processes RSP)
    \<and> regs (switch_process 1 0 (?s1\<lparr>regs := (\<lambda>_. 7)\<rparr>)) RSP = regs two_processes RSP + 8"
  proof (rule switch_round_trip [where i = 0 and j = 1 and sa = ?s1])
    have "unat (x - (7 - 48)) < 48 \<Longrightarrow> \<not> unat (x - 0x8FD0) < 56" for x :: u64
    proof
      assume a: "unat (x - (7 - 48)) < 48" and b: "unat (x - 0x8FD0) < 56"
      have "x - (7 - 48) = (x - 0x8FD0) + 0x8FF9" by simp
      then have "unat (x - (7 - 48)) = unat (x - 0x8FD0) + 0x8FF9" using b by (simp only: unat_word_ariths(1)) simp
      with a show False by simp
    qed
    then show "region (regs (?s1\<lparr>regs := (\<lambda>_. 7)\<rparr>) RSP - 48) 48 \<inter> region (regs two_processes RSP - 48) 56 = {}"
      by (auto simp: region_def)
  qed (simp_all add: proc_def)
  then show ?thesis by simp
qed

text \<open>
  C36: The first switch to a process that \<open>create_process\<close> made does not start it: the switch
  takes the stack pointer from offset 0 of the context, which is zero, and not from the field
  \<^verbatim>\<open>rsp\<close> that was set; the machine then continues at the address found in memory at 48, with
  the stack pointer at 56, instead of at the entry point on the kernel stack.
\<close>

theorem first_switch_misses_entry:
  assumes "proc_ok s" "create_process e s = Some (Some i, t)" "c \<noteq> i"
  shows "c_rip (ctx (proc i t)) = e \<and> c_rsp (ctx (proc i t)) = kernel_stack (proc i t) + 4096
    \<and> regs (switch_process c i t) RSP = 56
    \<and> regs (switch_process c i t) RIP = read_u64 (mem (switch_process c i t)) 48"
proof -
  note o = proc_okD [OF assms(1)]
  obtain r u where "create_process e s = Some (r, u)" "created s r u" using create_process_ok [OF assms(1)] by blast
  with assms(2) have cr: "created s (Some i) t" by simp
  then have slot: "find_free_slot s = Some i" "2 \<le> card (avail_pages s)" using createdD(6,12) [OF cr] by auto
  have "i < 64" using find_free_slotD [OF slot(1)] by simp
  obtain k v where kp: "kept (avail_pages s - {k, v}) ((claim_slot i (\<lambda>p. p\<lparr>kernel_stack := k, user_stack := v, ctx := entry_context e k\<rparr>) s)
        \<lparr>process_count := process_count s + 1\<rparr>) t"
    using create_process_created [OF o(2,3) slot(1) o(1) slot(2), of e] assms(2) by auto
  have p: "proc i t = (claimed s (proc i s))\<lparr>kernel_stack := k, user_stack := v, ctx := entry_context e k\<rparr>"
    using keptD(11) [OF kp, of i] \<open>i < 64\<close> o(1) by (simp add: proc_claim_slot)
  then have "c_r15 (ctx (proc i t)) = 0" by (simp add: entry_context_def zero_context_def)
  with switch_process_result [OF assms(3), of t] obtain m r where
    "switch_process c i t = (set_proc c (\<lambda>p. p\<lparr>ctx := (ctx p)\<lparr>c_r15 := regs t RSP - 48\<rparr>\<rparr>) t)\<lparr>mem := m, regs := r\<rparr>"
    "r RIP = read_u64 m 48" "r RSP = 56" by auto
  then show ?thesis using p by (simp add: entry_context_def)
qed

theorem first_switch_misses_entry_witness:
  "\<exists>t. create_process 0x8000 two_processes = Some (Some 2, t) \<and> regs (switch_process 0 2 t) RSP = 56"
proof -
  have s: "find_free_slot two_processes = Some 2" by (simp add: find_free_slot_def upt_conv_Cons)
  obtain r t where t: "create_process 0x8000 two_processes = Some (r, t)" "created two_processes r t"
    using create_process_ok [of two_processes "0x8000"] two_processes_live by (auto simp: live_def)
  have "r = Some 2" using createdD(6,12) [OF t(2)] s by auto
  with t(1) first_switch_misses_entry [of two_processes "0x8000" 2 t 0] two_processes_live show ?thesis
    by (simp add: live_def)
qed

subsection \<open>Scheduling\<close>

text \<open>
  C22: \<open>schedule\<close> is round robin: with more than one process counted, it switches to the first
  ready process after the current one in cyclic order of the slots, other than the current one
  itself, onto that process's saved stack, after saving the current stack pointer, and so does not
  return to its caller; no process changes its state. It returns without doing anything when
  no other process is ready or at most one is counted.
\<close>

theorem schedule_round_robin:
  assumes "proc_ok s" "current_process s = Some c"
  shows "\<exists>r t. schedule a s = Some (r, t) \<and> (\<forall>i. state (proc i t) = state (proc i s))
    \<and> (if process_count s \<le> 1 \<or> (\<forall>i<64. \<not> eligible s c i) then r = Returns () \<and> t = s
       else r = Switched \<and> (\<exists>d<64. eligible s c (after c d) \<and> (\<forall>e<d. \<not> eligible s c (after c e))
          \<and> current_process t = Some (after c d) \<and> regs t RSP = c_r15 (ctx (proc (after c d) s)) + 56
          \<and> regs t RIP = read_u64 (mem t) (c_r15 (ctx (proc (after c d) s)) + 48)
          \<and> c_r15 (ctx (proc c t)) = regs s RSP - 56))"
proof -
  obtain r t where t: "schedule a s = Some (r, t)" "if process_count s \<le> 1 then r = Returns () \<and> t = s
    else case next_ready s c of None \<Rightarrow> r = Returns () \<and> t = s | Some j \<Rightarrow> r = Switched \<and> switched c j s t" using schedule_ok [OF assms] by blast
  have c: "c < 64" using proc_okD(7) [OF assms(1)] assms(2) by (auto simp: current_ok_def used_def)
  consider (few) "process_count s \<le> 1" | (none) "1 < process_count s" "next_ready s c = None"
    | (some) j where "1 < process_count s" "next_ready s c = Some j" by (metis not_le option.exhaust)
  then show ?thesis
  proof cases
    case few
    then show ?thesis using t by simp
  next
    case none
    then have "r = Returns () \<and> t = s" using t(2) by (simp add: not_le [symmetric])
    then show ?thesis using t(1) next_ready_None [OF none(2) c] by auto
  next
    case some
    then have sw: "r = Switched" "switched c j s t" using t(2) by (simp_all add: not_le [symmetric])
    obtain d where d: "d < 64" "after c d = j" "eligible s c j" "\<forall>e<d. \<not> eligible s c (after c e)"
      using next_ready_Some [OF some(2)] by blast
    have "j < 64" using d(2) by (auto simp: after_def)
    with some d sw t(1) show ?thesis by (auto simp: switched_def not_le)
  qed
qed

theorem schedule_round_robin_witness: "\<exists>t. schedule 0x7100 two_processes = Some (Switched, t) \<and> current_process t = Some 1"
proof -
  have e: "eligible two_processes 0 1" by (simp add: eligible_def)
  have d: "after 0 d = 1" if "eligible two_processes 0 (after 0 d)" "d < 64" for d
    using that by (cases "d = 63") (auto simp: eligible_def after_def split: if_splits)
  have "\<not> (process_count two_processes \<le> 1 \<or> (\<forall>i<64. \<not> eligible two_processes 0 i))"
    using e by (auto simp: word_le_nat_alt intro!: exI [of _ 1])
  then show ?thesis
    using schedule_round_robin [of two_processes 0 "0x7100"] two_processes_live d
    unfolding live_def by (metis two_processes_simps(1))
qed

lemma after_after: "after (after c d) e = after c (d + 1 + e)"
  unfolding after_def using mod_add_left_eq [of "c + 1 + d" 64 "1 + e"] by (simp only: add.assoc)

lemma switched_towards:
  assumes "next_ready s c = Some k" "after c d = j" "d < 64" "eligible s c j" "j \<noteq> k"
  shows "\<exists>e<d. after k e = j"
proof -
  obtain f where f: "f < 64" "after c f = k" "\<forall>e<f. \<not> eligible s c (after c e)" using next_ready_Some [OF assms(1)] by blast
  have "f \<noteq> d" "\<not> d < f" using f assms(2,4,5) by auto
  then have "f < d" by simp
  then have "after k (d - f - 1) = j" using after_after [of c f "d - f - 1"] f(2) assms(2) by simp
  then show ?thesis using \<open>f < d\<close> by (intro exI [of _ "d - f - 1"]) simp
qed

text \<open>
  C13: The scheduler's choice is fair while more than one process is counted, and only then. Call
  \<open>schedule\<close> again and again, with whatever runs in between keeping the invariant, the current
  process, the states of the processes and their number. When more than one process is counted,
  every ready process becomes the current one after at most 64 calls. When at most one is
  counted, which happens with other processes still ready, because an exit counts the caller out and
  a failed creation leaves a ready process that was never counted, the current process never
  changes and every other ready process waits forever.
\<close>

theorem schedule_fair:
  assumes "\<And>n. live (mid n) \<and> current_process (mid n) = current_process (st n) \<and> process_count (mid n) = process_count (st n)
      \<and> (\<forall>i. state (proc i (mid n)) = state (proc i (st n)))"
    and "\<And>n. \<exists>r. schedule (a n) (mid n) = Some (r, st (Suc n))"
    and "j < 64" "state (proc j (st 0)) = PROCESS_READY"
  shows "if 1 < process_count (st 0) then \<exists>n\<le>64. current_process (st n) = Some j
    else \<forall>n. current_process (st n) = current_process (st 0)"
proof -
  have cur: "\<exists>c<64. current_process (mid n) = Some c \<and> proc_ok (mid n)" for n
    using assms(1) [of n] by (auto elim!: liveE)
  have step: "(\<forall>i. state (proc i (st (Suc n))) = state (proc i (st n))) \<and> process_count (st (Suc n)) = process_count (st n)
      \<and> (\<forall>c k. 1 < process_count (st n) \<longrightarrow> current_process (st n) = Some c \<longrightarrow> next_ready (mid n) c = Some k
           \<longrightarrow> current_process (st (Suc n)) = Some k)
      \<and> (process_count (st n) \<le> 1 \<longrightarrow> current_process (st (Suc n)) = current_process (st n))" for n
  proof -
    obtain c where c: "current_process (mid n) = Some c" "proc_ok (mid n)" using cur by blast
    show ?thesis
      using schedule_ok [OF c(2,1), of "a n"] assms(1) [of n] assms(2) [of n] c(1)
      by (auto simp: switched_def not_le split: if_splits option.splits)
  qed
  have const: "state (proc i (st n)) = state (proc i (st 0)) \<and> process_count (st n) = process_count (st 0)" for i n
    using step by (induction n) auto
  show ?thesis
  proof (cases "1 < process_count (st 0)")
    case False
    have "current_process (st (Suc n)) = current_process (st n)" for n
      using step [of n] const [of 0 n] False by (simp add: not_less)
    then have "current_process (st n) = current_process (st 0)" for n by (induction n) simp_all
    then show ?thesis using False by simp
  next
    case many: True
    have "\<exists>m. n \<le> m \<and> m \<le> n + d + 1 \<and> current_process (st m) = Some j"
      if "current_process (st n) = Some c" "after c d = j" "d < 64" for n c d
      using that
    proof (induction d arbitrary: n c rule: less_induct)
      case (less d)
      show ?case
      proof (cases "c = j")
        case True
        then show ?thesis using less.prems(1) by (intro exI [of _ n]) simp
      next
        case False
        then have el: "eligible (mid n) c j" using assms(1) [of n] const [of j n] assms(4) by (simp add: eligible_def)
        have "c < 64" using cur [of n] assms(1) [of n] less.prems(1) by auto
        then obtain k where k: "next_ready (mid n) c = Some k" using next_ready_None [of "mid n" c j] el assms(3) by auto
        have nk: "current_process (st (Suc n)) = Some k" using step [of n] const [of 0 n] many less.prems(1) k by simp
        show ?thesis
        proof (cases "j = k")
          case True
          then show ?thesis using nk by (intro exI [of _ "Suc n"]) simp
        next
          case False
          obtain e where e: "e < d" "after k e = j"
            using switched_towards [OF k less.prems(2,3) el False] by blast
          then obtain m where "Suc n \<le> m" "m \<le> Suc n + e + 1" "current_process (st m) = Some j"
            using less.IH [OF e(1) nk e(2)] less.prems(3) by auto
          then show ?thesis using e(1) by (intro exI [of _ m]) simp
        qed
      qed
    qed
    moreover obtain c where c: "c < 64" "current_process (st 0) = Some c" using cur [of 0] assms(1) [of 0] by auto
    moreover obtain d where "d < 64" "after c d = j" using after_surj [OF c(1) assms(3)] .
    ultimately obtain m where "m \<le> 0 + d + 1" "current_process (st m) = Some j" by blast
    then show ?thesis using \<open>d < 64\<close> many by (auto intro!: exI [of _ m])
  qed
qed

theorem schedule_fair_witness:
  "\<exists>n\<le>64. current_process (((\<lambda>s. snd (the (schedule 0x7100 s))) ^^ n) two_processes) = Some 1"
proof -
  let ?st = "\<lambda>n. ((\<lambda>s. snd (the (schedule 0x7100 s))) ^^ n) two_processes"
  have step: "\<exists>r. schedule 0x7100 (?st n) = Some (r, ?st (Suc n)) \<and> live (?st (Suc n))" if ln: "live (?st n)" for n
  proof -
    obtain c where c: "proc_ok (?st n)" "current_process (?st n) = Some c" using ln by (rule liveE)
    then show ?thesis using schedule_called [OF c, of "0x7100"] called_pids by fastforce
  qed
  have ok: "live (?st n)" for n
  proof (induction n)
    case (Suc n)
    then show ?case using step by blast
  qed (simp add: two_processes_live)
  have "if 1 < process_count (?st 0) then \<exists>n\<le>64. current_process (?st n) = Some 1
      else \<forall>n. current_process (?st n) = current_process (?st 0)"
  proof (rule schedule_fair [where mid = ?st and a = "\<lambda>_. 0x7100"])
    show "\<exists>r. schedule 0x7100 (?st n) = Some (r, ?st (Suc n))" for n using step [OF ok [of n]] by blast
  qed (simp_all add: ok)
  then show ?thesis by simp
qed

subsection \<open>System call handlers\<close>

text \<open>
  C28: \<open>sys_fork_handler\<close>: with a free slot and two free pages it returns the identifier of a
  new ready process, a child of the caller with the caller's saved context except that its
  \<^verbatim>\<open>rax\<close> is 0; otherwise it returns \<^verbatim>\<open>-1\<close>. Processes that existed do not change, and the
  caller stays current.
\<close>

theorem fork_correct:
  assumes "live s" "current_process s = Some c"
  shows "\<exists>v t. sys_fork_handler s = Some (v, t)
    \<and> (if find_free_slot s \<noteq> None \<and> 2 \<le> card (avail_pages s)
       then \<exists>i<64. i \<notin> used s \<and> v = ucast (next_pid s) \<and> pid (proc i t) = next_pid s \<and> parent (proc i t) = Some c
          \<and> state (proc i t) = PROCESS_READY \<and> ctx (proc i t) = (ctx (proc c s))\<lparr>c_rax := 0\<rparr>
          \<and> process_count t = process_count s + 1
       else v = - 1 \<and> process_count t = process_count s)
    \<and> (\<forall>j \<in> used s. proc j t = proc j s) \<and> current_process t = Some c"
proof -
  obtain v t where t: "sys_fork_handler s = Some (v, t)" "forked c s v t" using sys_fork_ok [OF assms] by blast
  have frame: "(\<forall>j \<in> used s. proc j t = proc j s) \<and> current_process t = Some c"
    using t(2) assms(2) unfolding forked_def by simp
  have "if find_free_slot s \<noteq> None \<and> 2 \<le> card (avail_pages s)
       then \<exists>i<64. i \<notin> used s \<and> v = ucast (next_pid s) \<and> pid (proc i t) = next_pid s \<and> parent (proc i t) = Some c
          \<and> state (proc i t) = PROCESS_READY \<and> ctx (proc i t) = (ctx (proc c s))\<lparr>c_rax := 0\<rparr>
          \<and> process_count t = process_count s + 1
       else v = - 1 \<and> process_count t = process_count s"
  proof (cases "find_free_slot s")
    case None
    then show ?thesis using t(2) by (simp add: forked_def)
  next
    case (Some i)
    have "i < 64" "i \<notin> used s" using find_free_slotD [OF Some] by (auto simp: used_def)
    then show ?thesis using t(2) Some by (auto simp: forked_def)
  qed
  with t(1) frame show ?thesis by blast
qed

theorem fork_correct_witness: "\<exists>t. sys_fork_handler two_processes = Some (3, t) \<and> current_process t = Some 0"
proof -
  have "find_free_slot two_processes \<noteq> None \<and> 2 \<le> card (avail_pages two_processes)"
    by (simp add: find_free_slot_def upt_conv_Cons)
  from fork_correct [OF two_processes_live two_processes_simps(1), unfolded if_P [OF this]]
  show ?thesis by auto
qed

text \<open>
  C29: \<open>sys_exit_handler_real\<close> makes the caller a zombie with the given exit code and counts it
  out; then it switches to the next ready process and does not return. When at most one process
  is counted after that, or no other is ready, the call returns 0 instead, with the zombie still
  the current process.
\<close>

theorem exit_correct:
  assumes "live s" "current_process s = Some c"
  shows "\<exists>r t. sys_exit_handler_real a status s = Some (r, t) \<and> state (proc c t) = PROCESS_ZOMBIE \<and> exit_code (proc c t) = status
    \<and> process_count t = process_count s - 1 \<and> (\<forall>i. i \<noteq> c \<longrightarrow> state (proc i t) = state (proc i s))
    \<and> (if process_count s - 1 \<le> 1 \<or> (\<forall>i<64. \<not> eligible s c i) then r = Returns 0 \<and> current_process t = Some c
       else r = Switched \<and>
         (\<exists>d<64. eligible s c (after c d) \<and> (\<forall>e<d. \<not> eligible s c (after c e)) \<and> current_process t = Some (after c d)))"
proof -
  obtain u where u: "kept (avail_pages s) s u" "proc_ok u" "pids_kept s u"
    "sys_exit_handler_real a status s = map_option (\<lambda>(r, t). (map_outcome (\<lambda>_. 0) r, t)) (schedule a (exiting c status u))"
    using sys_exit_parts [OF assms] by blast
  have c: "c \<in> used s" "c < 64" using assms by (auto elim!: liveE)
  let ?e = "exiting c status u"
  note k = keptD [OF u(1)]
  have cu: "c \<in> used u" using u(3) c by (auto simp: pids_kept_def)
  have ok: "proc_ok ?e" "current_process ?e = Some c"
    using exiting_ok [OF u(2) cu, of status] k(2) assms(2) by (simp_all add: exiting_def)
  have l: "length (processes u) = 64" using proc_okD(1) [OF u(2)] .
  have pe: "proc i ?e = (if i = c then (proc c s)\<lparr>state := PROCESS_ZOMBIE, exit_code := status\<rparr> else proc i s)" for i
    using k(11) c(2) l by (auto simp: exiting_def proc_set_proc)
  have el: "eligible ?e c i = eligible s c i" for i by (simp add: eligible_def pe)
  then have "eligible ?e c = eligible s c" by (simp add: fun_eq_iff)
  then have nr: "next_ready ?e c = next_ready s c" by (simp add: next_ready_def)
  have cnt: "process_count ?e = process_count s - 1" using k(4) by (simp add: exiting_def)
  obtain q t where t: "schedule a ?e = Some (q, t)" "if process_count s - 1 \<le> 1 then q = Returns () \<and> t = ?e
      else case next_ready s c of None \<Rightarrow> q = Returns () \<and> t = ?e | Some j \<Rightarrow> q = Switched \<and> switched c j ?e t"
    using schedule_ok [OF ok, of a] unfolding cnt nr by blast
  from t(2) have "t = ?e \<or> (\<exists>j. switched c j ?e t)" by (auto split: if_splits option.splits)
  then have same: "state (proc i t) = state (proc i ?e) \<and> exit_code (proc i t) = exit_code (proc i ?e)
      \<and> process_count t = process_count ?e" for i by (auto simp: switched_def)
  have cur: "if process_count s - 1 \<le> 1 \<or> (\<forall>i<64. \<not> eligible s c i) then q = Returns () \<and> current_process t = Some c
       else q = Switched \<and>
         (\<exists>d<64. eligible s c (after c d) \<and> (\<forall>e<d. \<not> eligible s c (after c e)) \<and> current_process t = Some (after c d))"
  proof (cases "next_ready s c")
    case None
    then have "q = Returns ()" "t = ?e" using t(2) by (simp_all split: if_splits)
    then show ?thesis using next_ready_None [OF None c(2)] ok(2) by auto
  next
    case (Some j)
    obtain d where d: "d < 64" "after c d = j" "eligible s c j" "\<forall>e<d. \<not> eligible s c (after c e)"
      using next_ready_Some [OF Some] by blast
    have "j < 64" using d(2) by (auto simp: after_def)
    with d t(2) Some ok(2) show ?thesis by (auto simp: switched_def split: if_splits)
  qed
  have lift: "if C then map_outcome (\<lambda>_. 0) q = Returns (0 :: u64) \<and> A else map_outcome (\<lambda>_. 0 :: u64) q = Switched \<and> B"
    if "if C then q = Returns () \<and> A else q = Switched \<and> B" for A B C using that by (cases C) auto
  have "sys_exit_handler_real a status s = Some (map_outcome (\<lambda>_. 0) q, t)" using u(4) t(1) by simp
  moreover have "state (proc c t) = PROCESS_ZOMBIE \<and> exit_code (proc c t) = status \<and> process_count t = process_count s - 1
      \<and> (\<forall>i. i \<noteq> c \<longrightarrow> state (proc i t) = state (proc i s))" using same cnt pe by simp
  ultimately show ?thesis using lift [OF cur] by blast
qed

theorem exit_correct_witness:
  "\<exists>t. sys_exit_handler_real 0x7100 9 two_processes = Some (Returns 0, t) \<and> state (proc 0 t) = PROCESS_ZOMBIE
    \<and> current_process t = Some 0"
proof -
  have "process_count two_processes - 1 \<le> 1 \<or> (\<forall>i<64. \<not> eligible two_processes 0 i)" by simp
  from exit_correct [OF two_processes_live two_processes_simps(1), unfolded if_P [OF this]]
  show ?thesis by blast
qed

text \<open>
  \<open>sys_brk_handler\<close> and \<open>sys_getpid_handler_real\<close>: a break that is set is the one read
  back by a later query with a null address, which changes nothing; and the identifier
  returned is that of the current process and not 0.
\<close>

lemma brk_round_trip:
  assumes "live s" "current_process s = Some c" "addr \<noteq> 0"
  shows "case sys_brk_handler addr s of (v, t) \<Rightarrow> v = addr \<and> sys_brk_handler 0 t = (addr, t)
    \<and> sys_getpid_handler_real a t = Some (ucast (pid (proc c s)), t) \<and> pid (proc c s) \<noteq> 0"
proof -
  let ?t = "set_proc c (\<lambda>p. p\<lparr>brk := addr\<rparr>) s"
  have c: "c < 64" "pid (proc c s) \<noteq> 0" "length (processes s) = 64" using assms by (auto elim!: liveE simp: proc_ok_def)
  have b: "sys_brk_handler addr s = (addr, ?t)" "live ?t" using sys_brk_ok [OF assms(1,2), of addr] assms(3) by auto
  moreover have "sys_brk_handler 0 ?t = (addr, ?t)"
    using sys_brk_ok [OF b(2), of c 0] assms(2) c by (simp add: proc_set_proc)
  moreover have "sys_getpid_handler_real a ?t = Some (ucast (pid (proc c s)), ?t)"
    using sys_getpid_ok [OF b(2), of c a] assms(2) c by (simp add: proc_set_proc)
  ultimately show ?thesis using c(2) by simp
qed

text \<open>
  Without a current process: the queries report the error and answer 0, \<open>sys_brk_handler\<close>
  answers 0, but \<open>sys_fork_handler\<close>, and \<open>schedule\<close> once more than one process is counted, use
  the null pointer and have no defined result.
\<close>

lemma null_current_process:
  assumes "alloc_ok s" "cursor_ok s" "current_process s = None"
  shows "(\<exists>t. get_current_pid s = Some (0, t) \<and> kept (avail_pages s) s t) \<and> sys_brk_handler addr s = (0, s)
    \<and> sys_fork_handler s = None \<and> (schedule a s = None \<longleftrightarrow> 1 < process_count s)"
proof -
  obtain t where t: "DEBUGER LIGHT_RED ''CRITICAL: current_process is NULL!'' [] s = Some t" "kept (avail_pages s) s t"
    using DEBUGER_kept [OF assms(1,2), of "''CRITICAL: current_process is NULL!''" "[]"] by auto
  then have g: "get_current_pid s = Some (0, t)" by (simp add: get_current_pid_def assms(3))
  have fmt: "fmt_ok ''sys_fork called from process %d'' [VInt x]" for x by simp
  obtain u where u: "DEBUGER LIGHT_CYAN ''sys_fork called from process %d'' [VInt (ucast (0 :: u32))] t = Some u" "kept (avail_pages t) t u"
    using DEBUGER_kept [OF keptD(7,8) [OF t(2)] fmt] by blast
  have "current_process u = None" using keptD(2) [OF u(2)] keptD(2) [OF t(2)] assms(3) by simp
  then have "sys_fork_handler s = None" using u(1) by (simp add: sys_fork_handler_def g)
  then show ?thesis using g t(2) assms(3) by (auto simp: sys_brk_handler_def schedule_def not_le)
qed

end
