(* ===== verification/Syscall.thy ===== *)
theory Syscall
  imports Process_Invariant
begin

text \<open>
  System calls, \<^verbatim>\<open>kernel/syscall.c\<close>, \<^verbatim>\<open>include/syscall.h\<close> and the entry point of
  \<^verbatim>\<open>kernel/syscall_.asm\<close>. A function pointer of the table is the name of the function, none
  for null. Parameters: the return address of the call of \<open>switch_process\<close> in \<open>schedule\<close>, the
  address of the process table, and the address of the assembly entry point.
\<close>

subsection \<open>Model\<close>

datatype syscall_fn = Sys_dummy | Sys_exit | Sys_write | Sys_getpid | Sys_fork | Sys_exec | Sys_wait | Sys_brk

record syscall_state = process_mgr +
  syscall_table :: "syscall_fn option list"

abbreviation SYSCALL_COUNT :: nat where "SYSCALL_COUNT \<equiv> 10"
abbreviation SYS_EXIT :: nat where "SYS_EXIT \<equiv> 0"
abbreviation SYS_WRITE :: nat where "SYS_WRITE \<equiv> 2"
abbreviation SYS_FORK :: nat where "SYS_FORK \<equiv> 5"
abbreviation SYS_EXEC :: nat where "SYS_EXEC \<equiv> 6"
abbreviation SYS_WAIT :: nat where "SYS_WAIT \<equiv> 7"
abbreviation SYS_GETPID :: nat where "SYS_GETPID \<equiv> 8"
abbreviation SYS_BRK :: nat where "SYS_BRK \<equiv> 9"

function sys_write_loop :: "u64 \<Rightarrow> u64 \<Rightarrow> u64 \<Rightarrow> 'a vga_scheme \<Rightarrow> 'a vga_scheme" where
  "sys_write_loop str count i s =
     (if i < count \<and> mem s (str + i) \<noteq> 0
      then sys_write_loop str count (i + 1) (VGA_Putc (mem s (str + i)) s) else s)"
  by pat_completeness auto
termination
  by (relation "measure (\<lambda>(str, count, i, s). unat (count - i))") (auto intro: word_less_step)

declare sys_write_loop.simps [simp del]

definition sys_write_handler :: "u64 \<Rightarrow> u64 \<Rightarrow> u64 \<Rightarrow> u64 \<Rightarrow> u64 \<Rightarrow> 'a vga_scheme \<Rightarrow> (u64 \<times> 'a vga_scheme) option" where
  "sys_write_handler fd buffer count arg4 arg5 s = Some (count, sys_write_loop buffer count 0 s)"

definition sys_dummy_handler :: "u64 \<Rightarrow> u64 \<Rightarrow> u64 \<Rightarrow> u64 \<Rightarrow> u64 \<Rightarrow> 'a vga_scheme \<Rightarrow> (u64 \<times> 'a vga_scheme) option" where
  "sys_dummy_handler arg1 arg2 arg3 arg4 arg5 s =
     do { s \<leftarrow> DEBUGER LIGHT_RED ''Dummy syscall called'' [] s; Some (0, s) }"

definition sys_fork_wrapper :: "u64 \<Rightarrow> u64 \<Rightarrow> u64 \<Rightarrow> u64 \<Rightarrow> u64 \<Rightarrow> 'a process_mgr_scheme \<Rightarrow> (u64 \<times> 'a process_mgr_scheme) option" where
  "sys_fork_wrapper arg1 arg2 arg3 arg4 arg5 s = sys_fork_handler s"

definition sys_exec_wrapper :: "u64 \<Rightarrow> u64 \<Rightarrow> u64 \<Rightarrow> u64 \<Rightarrow> u64 \<Rightarrow> 'a process_mgr_scheme \<Rightarrow> (u64 \<times> 'a process_mgr_scheme) option" where
  "sys_exec_wrapper arg1 arg2 arg3 arg4 arg5 s = sys_exec_handler (Addr arg1) s"

definition sys_exit_wrapper :: "u64 \<Rightarrow> u64 \<Rightarrow> u64 \<Rightarrow> u64 \<Rightarrow> u64 \<Rightarrow> u64 \<Rightarrow> 'a process_mgr_scheme \<Rightarrow> (u64 outcome \<times> 'a process_mgr_scheme) option" where
  "sys_exit_wrapper return_addr arg1 arg2 arg3 arg4 arg5 s = sys_exit_handler_real return_addr (ucast arg1) s"

definition sys_wait_wrapper :: "u64 \<Rightarrow> u64 \<Rightarrow> u64 \<Rightarrow> u64 \<Rightarrow> u64 \<Rightarrow> 'a process_mgr_scheme \<Rightarrow> (u64 \<times> 'a process_mgr_scheme) option" where
  "sys_wait_wrapper arg1 arg2 arg3 arg4 arg5 s = sys_wait_handler s"

definition sys_getpid_wrapper :: "u64 \<Rightarrow> u64 \<Rightarrow> u64 \<Rightarrow> u64 \<Rightarrow> u64 \<Rightarrow> u64 \<Rightarrow> 'a process_mgr_scheme \<Rightarrow> (u64 \<times> 'a process_mgr_scheme) option" where
  "sys_getpid_wrapper table_addr arg1 arg2 arg3 arg4 arg5 s = sys_getpid_handler_real table_addr s"

definition sys_brk_wrapper :: "u64 \<Rightarrow> u64 \<Rightarrow> u64 \<Rightarrow> u64 \<Rightarrow> u64 \<Rightarrow> 'a process_mgr_scheme \<Rightarrow> (u64 \<times> 'a process_mgr_scheme) option" where
  "sys_brk_wrapper arg1 arg2 arg3 arg4 arg5 s = Some (sys_brk_handler arg1 s)"

fun call_syscall :: "u64 \<Rightarrow> u64 \<Rightarrow> syscall_fn \<Rightarrow> u64 \<Rightarrow> u64 \<Rightarrow> u64 \<Rightarrow> u64 \<Rightarrow> u64 \<Rightarrow> 'a process_mgr_scheme
    \<Rightarrow> (u64 outcome \<times> 'a process_mgr_scheme) option" where
  "call_syscall return_addr table_addr Sys_dummy a1 a2 a3 a4 a5 s = returning (sys_dummy_handler a1 a2 a3 a4 a5 s)"
| "call_syscall return_addr table_addr Sys_exit a1 a2 a3 a4 a5 s = sys_exit_wrapper return_addr a1 a2 a3 a4 a5 s"
| "call_syscall return_addr table_addr Sys_write a1 a2 a3 a4 a5 s = returning (sys_write_handler a1 a2 a3 a4 a5 s)"
| "call_syscall return_addr table_addr Sys_getpid a1 a2 a3 a4 a5 s = returning (sys_getpid_wrapper table_addr a1 a2 a3 a4 a5 s)"
| "call_syscall return_addr table_addr Sys_fork a1 a2 a3 a4 a5 s = returning (sys_fork_wrapper a1 a2 a3 a4 a5 s)"
| "call_syscall return_addr table_addr Sys_exec a1 a2 a3 a4 a5 s = returning (sys_exec_wrapper a1 a2 a3 a4 a5 s)"
| "call_syscall return_addr table_addr Sys_wait a1 a2 a3 a4 a5 s = returning (sys_wait_wrapper a1 a2 a3 a4 a5 s)"
| "call_syscall return_addr table_addr Sys_brk a1 a2 a3 a4 a5 s = returning (sys_brk_wrapper a1 a2 a3 a4 a5 s)"

definition syscall_handler :: "u64 \<Rightarrow> u64 \<Rightarrow> u64 \<Rightarrow> u64 \<Rightarrow> u64 \<Rightarrow> u64 \<Rightarrow> u64 \<Rightarrow> u64 \<Rightarrow> 'a syscall_state_scheme
    \<Rightarrow> (u64 outcome \<times> 'a syscall_state_scheme) option" where
  "syscall_handler return_addr table_addr syscall_num arg1 arg2 arg3 arg4 arg5 s =
     do { s \<leftarrow> DEBUGER LIGHT_CYAN ''Syscall %d called with args: 0x%x, 0x%x, 0x%x''
                [VInt syscall_num, VInt arg1, VInt arg2, VInt arg3] s;
          if unat syscall_num \<ge> SYSCALL_COUNT then
            do { s \<leftarrow> DEBUGER LIGHT_RED ''Invalid syscall number: %d'' [VInt syscall_num] s; Some (Returns (- 1), s) }
          else case syscall_table s ! unat syscall_num of
                 None \<Rightarrow> do { s \<leftarrow> DEBUGER LIGHT_RED ''Unimplemented syscall: %d'' [VInt syscall_num] s; Some (Returns (- 1), s) }
               | Some f \<Rightarrow> call_syscall return_addr table_addr f arg1 arg2 arg3 arg4 arg5 s }"

definition set_syscall :: "nat \<Rightarrow> syscall_fn \<Rightarrow> 'a syscall_state_scheme \<Rightarrow> 'a syscall_state_scheme" where
  "set_syscall i f s = s\<lparr>syscall_table := (syscall_table s)[i := Some f]\<rparr>"

definition Init_Syscall :: "u64 \<Rightarrow> 'a syscall_state_scheme \<Rightarrow> 'a syscall_state_scheme option" where
  "Init_Syscall syscall_entry s =
     (let s = fold (\<lambda>i. set_syscall i Sys_dummy) [0..<SYSCALL_COUNT] s;
          s = set_syscall SYS_EXIT Sys_exit s;
          s = set_syscall SYS_WRITE Sys_write s;
          s = set_syscall SYS_GETPID Sys_getpid s;
          s = set_syscall SYS_FORK Sys_fork s;
          s = set_syscall SYS_EXEC Sys_exec s;
          s = set_syscall SYS_WAIT Sys_wait s;
          s = set_syscall SYS_BRK Sys_brk s;
          star_msr = (push_bit 32 0x08 OR push_bit 48 0x10);
          s = wrmsr 0xC0000081 (star_msr AND 0xFFFFFFFF) (drop_bit 32 star_msr) s;
          s = wrmsr 0xC0000082 (syscall_entry AND 0xFFFFFFFF) (drop_bit 32 syscall_entry) s;
          efer_msr = (rdmsr_rax 0xC0000080 s OR 1);
          s = wrmsr 0xC0000080 (efer_msr AND 0xFFFFFFFF) (drop_bit 32 efer_msr) s
      in DEBUGER LIGHT_RED ''Syscall initialized - %d syscalls registered'' [VInt 10] s)"

text \<open>
  \<^verbatim>\<open>sysret\<close> continues at \<^verbatim>\<open>rcx\<close> with the flags of \<^verbatim>\<open>r11\<close> (the reserved bits, the resume and the
  virtual-8086 flag masked out), at privilege level 3, with the selectors it computes from bits
  48 to 63 of the register \<^verbatim>\<open>STAR\<close>.
\<close>

definition sysret :: "'a machine_scheme \<Rightarrow> 'a machine_scheme" where
  "sysret s =
     (let base = ucast (drop_bit 48 (msr s 0xC0000081))
      in set_seg SS ((base + 8) OR 3) (set_seg CS ((base + 16) OR 3)
           (set_reg RFLAGS ((regs s R11 AND 0x3C7FD7) OR 2) (set_reg RIP (regs s RCX) s))))"

text \<open>
  The assembly entry point, instruction by instruction, around the C handler; when the handler
  switches to another process, the rest is not executed.
  The return address that \<^verbatim>\<open>call\<close> pushes and \<^verbatim>\<open>ret\<close> pops belongs to the handler's own use of the stack.
\<close>

definition syscall_entry :: "u64 \<Rightarrow> (u64 \<Rightarrow> u64 \<Rightarrow> u64 \<Rightarrow> u64 \<Rightarrow> u64 \<Rightarrow> u64 \<Rightarrow> 'a machine_scheme \<Rightarrow> (u64 outcome \<times> 'a machine_scheme) option)
    \<Rightarrow> 'a machine_scheme \<Rightarrow> 'a machine_scheme option" where
  "syscall_entry kernel_stack_top handler s =
     do { let s = push_reg RCX s;
          let s = push_reg R11 s;
          let s = set_reg RCX 0x10 s;
          let s = set_seg DS (ucast (regs s RCX)) s;
          let s = set_seg ES (ucast (regs s RCX)) s;
          let s = set_seg FS (ucast (regs s RCX)) s;
          let s = set_seg GS (ucast (regs s RCX)) s;
          let s = push_reg RSP s;
          let s = set_reg RSP kernel_stack_top s;
          let s = set_reg RDI (regs s RAX) s;
          let s = set_reg RSI (regs s RBX) s;
          (result, s) \<leftarrow> handler (regs s RDI) (regs s RSI) (regs s RDX) (regs s RCX) (regs s R8) (regs s R9) s;
          case result of
            Switched \<Rightarrow> Some s
          | Returns v \<Rightarrow>
              (let s = set_reg RAX v s;
                   s = pop_reg RSP s;
                   s = pop_reg R11 s;
                   s = pop_reg RCX s
               in Some (sysret s)) }"

subsection \<open>Writing\<close>

lemma screen_only_proc_ok:
  assumes "proc_ok s" "screen_only s t" "cursor_ok t"
  shows "proc_ok t \<and> pids_kept s t \<and> current_process t = current_process s \<and> served s t"
proof -
  have "kept (avail_pages s) s t"
    using screen_only_alloc_ok [OF assms(2) proc_okD(2) [OF assms(1)]] screen_only_avail [OF assms(2) proc_okD(2) [OF assms(1)]]
      mm_only_proc_view [OF screen_only_mm_only [OF assms(2)]] mm_only_all_pages [OF screen_only_mm_only [OF assms(2)]] assms(3)
    unfolding kept_def by blast
  then show ?thesis
    using kept_proc_ok [OF assms(1)] keptD(2) kept_served screen_only_frame [OF assms(2) proc_okD(2) [OF assms(1)]] by blast
qed

lemma sys_write_loop_ok: "cursor_ok s \<Longrightarrow> cursor_ok (sys_write_loop str count i s) \<and> screen_only s (sys_write_loop str count i s)"
proof (induction str count i s rule: sys_write_loop.induct)
  case (1 str count i s)
  show ?case
  proof (cases "i < count \<and> mem s (str + i) \<noteq> 0")
    case True
    have p: "cursor_ok (VGA_Putc (mem s (str + i)) s)" "screen_only s (VGA_Putc (mem s (str + i)) s)"
      using VGA_Putc_refines [OF "1.prems"] by blast+
    from "1.IH" [OF True p(1)] screen_only_trans [OF p(2)] show ?thesis
      using True by (subst (1 2) sys_write_loop.simps) simp
  next
    case False
    then show ?thesis using "1.prems" by (subst (1 2) sys_write_loop.simps) auto
  qed
qed

lemma sys_write_loop_prints:
  assumes "cursor_ok s" "\<And>k. unat i \<le> k \<Longrightarrow> k < unat count \<Longrightarrow> str + of_nat k \<notin> screen_bytes"
  shows "sys_write_loop str count i s =
    fold VGA_Putc (takeWhile (\<lambda>b. b \<noteq> 0) (map (\<lambda>k. mem s (str + of_nat k)) [unat i..<unat count])) s"
  using assms
proof (induction str count i s rule: sys_write_loop.induct)
  case (1 str count i s)
  show ?case
  proof (cases "i < count")
    case True
    then have le: "unat i < unat count" by (simp add: word_less_nat_alt)
    have c: "[unat i..<unat count] = unat i # [unat (i + 1)..<unat count]"
      using upt_conv_Cons [OF le] unat_plus_one [OF True] by simp
    show ?thesis
    proof (cases "mem s (str + i) \<noteq> 0")
      case nz: True
      let ?t = "VGA_Putc (mem s (str + i)) s"
      have p: "cursor_ok ?t" "screen_only s ?t" using VGA_Putc_refines [OF "1.prems"(1)] by blast+
      have "mem ?t (str + of_nat k) = mem s (str + of_nat k)" if "k \<in> set [unat (i + 1)..<unat count]" for k
        using agree_offD [OF screen_only_mem [OF p(2)]] "1.prems"(2) [of k] that unat_plus_one [OF True] by auto
      then have m: "map (\<lambda>k. mem ?t (str + of_nat k)) [unat (i + 1)..<unat count] = map (\<lambda>k. mem s (str + of_nat k)) [unat (i + 1)..<unat count]"
        by (intro map_cong) auto
      have "sys_write_loop str count (i + 1) ?t = fold VGA_Putc (takeWhile (\<lambda>b. b \<noteq> 0)
          (map (\<lambda>k. mem ?t (str + of_nat k)) [unat (i + 1)..<unat count])) ?t"
        using "1.prems"(2) unat_plus_one [OF True] True nz p(1) by (intro "1.IH") auto
      moreover have "sys_write_loop str count i s = sys_write_loop str count (i + 1) ?t"
        using True nz by (subst sys_write_loop.simps) simp
      ultimately show ?thesis using nz by (simp add: c m)
    next
      case False
      then show ?thesis by (subst sys_write_loop.simps) (simp add: c)
    qed
  next
    case False
    then have n: "[unat i..<unat count] = []" by (simp add: word_less_nat_alt)
    from False show ?thesis unfolding n by (subst sys_write_loop.simps) simp
  qed
qed

subsection \<open>Dispatch\<close>

text \<open>The table \<open>Init_Syscall\<close> leaves.\<close>

definition syscall_fns :: "syscall_fn list" where
  "syscall_fns = [Sys_exit, Sys_dummy, Sys_write, Sys_dummy, Sys_dummy, Sys_fork, Sys_exec, Sys_wait, Sys_getpid, Sys_brk]"

lemma length_syscall_fns: "length syscall_fns = 10"
  by (simp add: syscall_fns_def)

definition table_ok :: "'a syscall_state_scheme \<Rightarrow> bool" where
  "table_ok s \<longleftrightarrow> syscall_table s = map Some syscall_fns"

lemma fold_set_syscall:
  assumes "n \<le> length (syscall_table s)"
  shows "fold (\<lambda>i. set_syscall i f) [0..<n] s = s\<lparr>syscall_table := replicate n (Some f) @ drop n (syscall_table s)\<rparr>"
  using assms
proof (induction n)
  case (Suc n)
  then have "(replicate n (Some f) @ drop n (syscall_table s))[n := Some f] = replicate (Suc n) (Some f) @ drop (Suc n) (syscall_table s)"
    by (simp add: list_update_append Cons_nth_drop_Suc [symmetric] replicate_append_same)
  with Suc show ?case by (simp add: set_syscall_def)
qed simp

lemma syscall_handler_call:
  assumes "proc_ok s" "table_ok s"
  shows "\<exists>u. kept (avail_pages s) s u \<and> proc_ok u \<and> pids_kept s u \<and> table_ok u \<and> served s u
    \<and> (if unat n < 10 then syscall_handler ra ta n a1 a2 a3 a4 a5 s = call_syscall ra ta (syscall_fns ! unat n) a1 a2 a3 a4 a5 u
       else syscall_handler ra ta n a1 a2 a3 a4 a5 s = Some (Returns (- 1), u))"
proof -
  have tab: "table_ok t" if "screen_only v t" "table_ok v" for v t :: "'a syscall_state_scheme"
    using that by (auto simp: table_ok_def elim!: screen_onlyE)
  have fmt: "fmt_ok ''Syscall %d called with args: 0x%x, 0x%x, 0x%x'' [VInt n, VInt a1, VInt a2, VInt a3]"
    "fmt_ok ''Invalid syscall number: %d'' [VInt n]" by simp_all
  obtain v where v: "DEBUGER LIGHT_CYAN ''Syscall %d called with args: 0x%x, 0x%x, 0x%x'' [VInt n, VInt a1, VInt a2, VInt a3] s = Some v"
    "kept (avail_pages s) s v" "proc_ok v" "pids_kept s v" "table_ok v" "served s v"
    using debug_live [OF assms(1) fmt(1), of LIGHT_CYAN] DEBUGER_ok [OF fmt(1) proc_okD(3) [OF assms(1)], of LIGHT_CYAN] tab [OF _ assms(2)] by auto
  show ?thesis
  proof (cases "unat n < 10")
    case True
    then have "syscall_table v ! unat n = Some (syscall_fns ! unat n)" using v(5) by (simp add: table_ok_def length_syscall_fns)
    then show ?thesis using v True by (intro exI [of _ v]) (simp add: syscall_handler_def)
  next
    case False
    obtain w where w: "DEBUGER LIGHT_RED ''Invalid syscall number: %d'' [VInt n] v = Some w"
      "kept (avail_pages v) v w" "proc_ok w" "pids_kept v w" "table_ok w" "served v w"
      using debug_live [OF v(3) fmt(2), of LIGHT_RED] DEBUGER_ok [OF fmt(2) proc_okD(3) [OF v(3)], of LIGHT_RED] tab [OF _ v(5)] by auto
    then have "kept (avail_pages s) s w" using kept_trans [OF v(2)] keptD(9) [OF v(2)] by simp
    then show ?thesis
      using v w False pids_kept_trans [OF v(4) w(4)] served_trans [OF v(6) w(6)] by (intro exI [of _ w]) (simp add: syscall_handler_def)
  qed
qed

lemma more_table: "process_mgr.more t = process_mgr.more s \<Longrightarrow> syscall_table t = syscall_table s"
  by (cases s; cases t) simp

lemma pids_kept_table:
  assumes "pids_kept s t"
  shows "table_ok t = table_ok s"
proof -
  have "process_mgr.more t = process_mgr.more s" using assms by (simp add: pids_kept_def)
  from more_table [OF this] show ?thesis by (simp add: table_ok_def)
qed

lemma call_syscall_ok:
  assumes "live s" "f \<noteq> Sys_exec"
  shows "\<exists>r t. call_syscall ra ta f a1 a2 a3 a4 a5 s = Some (r, t) \<and> called s r t"
proof -
  obtain c where c: "proc_ok s" "current_process s = Some c" using assms(1) by (rule liveE)
  show ?thesis
  proof (cases f)
    case Sys_dummy
    have "fmt_ok ''Dummy syscall called'' []" by simp
    from debug_live [OF c(1) this, of LIGHT_RED] show ?thesis
      using Sys_dummy keptD(2) c(2) by (fastforce simp: sys_dummy_handler_def live_def)
  next
    case Sys_write
    let ?t = "sys_write_loop a2 a3 0 s"
    have "proc_ok ?t \<and> pids_kept s ?t \<and> current_process ?t = current_process s \<and> served s ?t"
      using sys_write_loop_ok [OF proc_okD(3) [OF c(1)]] by (intro screen_only_proc_ok [OF c(1)]) blast+
    then show ?thesis using Sys_write c(2) by (simp add: sys_write_handler_def live_def)
  next
    case Sys_brk
    then have "call_syscall ra ta f a1 a2 a3 a4 a5 s = Some (Returns (fst (sys_brk_handler a1 s)), snd (sys_brk_handler a1 s))"
      by (simp add: sys_brk_wrapper_def returning_def split_beta)
    then show ?thesis using sys_brk_ok [OF assms(1) c(2), of a1] by auto
  next
    case Sys_exit
    then show ?thesis using sys_exit_ok [OF assms(1), of ra "ucast a1"] by (auto simp: sys_exit_wrapper_def)
  next
    case Sys_getpid
    then show ?thesis using sys_getpid_ok [OF assms(1) c(2), of ta] assms(1) by (simp add: sys_getpid_wrapper_def)
  next
    case Sys_fork
    then show ?thesis using sys_fork_ok [OF assms(1) c(2)] by (auto simp: sys_fork_wrapper_def)
  next
    case Sys_wait
    then show ?thesis using sys_wait_ok [OF assms(1)] by (auto simp: sys_wait_wrapper_def)
  qed (use assms(2) in simp)
qed

text \<open>
  The kernel as a machine driven by system calls, as long as none of them is \<^verbatim>\<open>SYS_EXEC\<close>
  (which prints a string at an address of the caller's choice).
\<close>

definition kernel_ok :: "'a syscall_state_scheme \<Rightarrow> bool" where
  "kernel_ok s \<longleftrightarrow> live s \<and> table_ok s"

lemma syscall_handler_ok:
  assumes "kernel_ok s" "unat n \<noteq> SYS_EXEC"
  shows "\<exists>r t. syscall_handler ra ta n a1 a2 a3 a4 a5 s = Some (r, t) \<and> kernel_ok t \<and> called s r t
    \<and> (10 \<le> unat n \<longrightarrow> r = Returns (- 1))"
proof -
  have ok: "proc_ok s" "table_ok s" "current_process s \<noteq> None" using assms(1) by (auto simp: kernel_ok_def live_def)
  obtain u where u: "kept (avail_pages s) s u" "proc_ok u" "served s u" "table_ok u"
    "if unat n < 10 then syscall_handler ra ta n a1 a2 a3 a4 a5 s = call_syscall ra ta (syscall_fns ! unat n) a1 a2 a3 a4 a5 u
       else syscall_handler ra ta n a1 a2 a3 a4 a5 s = Some (Returns (- 1), u)"
    using syscall_handler_call [OF ok(1,2)] by blast
  have lu: "live u" using u(2) keptD(2) [OF u(1)] ok(3) by (simp add: live_def)
  show ?thesis
  proof (cases "unat n < 10")
    case True
    have "unat n \<in> {..<10}" using True by simp
    then have "unat n \<in> {0, 1, 2, 3, 4, 5, 6, 7, 8, 9}" by (simp add: lessThan_nat_numeral lessThan_Suc) auto
    then have "syscall_fns ! unat n \<noteq> Sys_exec" using assms(2) unfolding syscall_fns_def by auto
    from call_syscall_ok [OF lu this] obtain r t where
      t: "call_syscall ra ta (syscall_fns ! unat n) a1 a2 a3 a4 a5 u = Some (r, t)" "called u r t" by blast
    have "live t" "pids_kept u t" using called_pids [OF t(2)] by simp_all
    then have "kernel_ok t" using pids_kept_table u(4) by (auto simp: kernel_ok_def)
    with True t u(5) served_called [OF u(3) t(2)] show ?thesis by auto
  next
    case False
    then show ?thesis using u lu by (auto simp: kernel_ok_def)
  qed
qed

interpretation sc: call_machine "\<lambda>(n, a1, a2, a3, a4, a5). syscall_handler ra ta n a1 a2 a3 a4 a5"
    "\<lambda>(n, a1, a2, a3, a4, a5). unat n \<noteq> SYS_EXEC" kernel_ok served handed_over for ra ta
proof
  fix e :: "u64 \<times> u64 \<times> u64 \<times> u64 \<times> u64 \<times> u64" and s :: "'a syscall_state_scheme"
  assume e: "case e of (n, a1, a2, a3, a4, a5) \<Rightarrow> unat n \<noteq> SYS_EXEC" and s: "kernel_ok s"
  obtain n a1 a2 a3 a4 a5 where n: "e = (n, a1, a2, a3, a4, a5)" by (cases e)
  with e have "unat n \<noteq> SYS_EXEC" by simp
  from syscall_handler_ok [OF s this, of ra ta a1 a2 a3 a4 a5] obtain r t where
    t: "syscall_handler ra ta n a1 a2 a3 a4 a5 s = Some (r, t)" "kernel_ok t" "called s r t" by blast
  then show "\<exists>r t. (case e of (n, a1, a2, a3, a4, a5) \<Rightarrow> syscall_handler ra ta n a1 a2 a3 a4 a5) s = Some (r, t)
      \<and> (case r of Returns v \<Rightarrow> kernel_ok t \<and> served s t | Switched \<Rightarrow> handed_over s t)"
    by (cases r) (simp_all add: n)
qed (auto intro: served_trans served_handed_over)

end
