(* ===== verification/Syscall_Properties.thy ===== *)
theory Syscall_Properties
  imports Syscall Process_Properties
begin

text \<open>What the system call layer promises.\<close>

subsection \<open>Start\<close>

definition syscall_statics :: "'a \<Rightarrow> 'a syscall_state_scheme" where
  "syscall_statics x = process_statics (syscall_state_ext (replicate 10 None) x)"

definition booted_syscalls :: syscall_state where
  "booted_syscalls = booted_process (syscall_state_ext (replicate 10 None) ())"

lemma booted_syscalls_simps [simp]: "syscall_table booted_syscalls = replicate 10 None" "cursor_ok booted_syscalls"
  by (simp_all add: booted_syscalls_def) (simp add: booted_process_def booted_paging_def booted_memory_def memory_statics_def
      vga_statics_def cleared_def fresh_bitmap_def Let_def)

lemma halves: "((x AND 0xFFFFFFFF) AND 0xFFFFFFFF) OR push_bit 32 (drop_bit 32 x AND 0xFFFFFFFF) = (x :: u64)"
proof -
  have m: "(0xFFFFFFFF :: u64) = mask 32" by (simp add: mask_eq_exp_minus_1)
  show ?thesis unfolding m by (rule bit_word_eqI) (auto simp: bit_simps)
qed

definition syscalls_started :: "u64 \<Rightarrow> 'a syscall_state_scheme \<Rightarrow> 'a syscall_state_scheme" where
  "syscalls_started entry_addr s = s\<lparr>syscall_table := map Some syscall_fns,
     msr := (msr s)(0xC0000081 := 0x10000800000000, 0xC0000082 := entry_addr,
       0xC0000080 := (msr s 0xC0000080 AND 0xFFFFFFFF) OR 1)\<rparr>"

lemma Init_Syscall_result:
  assumes "cursor_ok s" "length (syscall_table s) = 10"
  shows "\<exists>t. Init_Syscall entry_addr s = Some t \<and> cursor_ok t \<and> screen_only (syscalls_started entry_addr s) t"
proof -
  let ?u = "syscalls_started entry_addr s"
  have tab: "fold (\<lambda>i. set_syscall i Sys_dummy) [0..<10] s = s\<lparr>syscall_table := replicate 10 (Some Sys_dummy)\<rparr>"
    using fold_set_syscall [of 10 s Sys_dummy] assms(2) by simp
  have star: "push_bit 32 0x08 OR push_bit 48 0x10 = (0x10000800000000 :: u64)" by simp
  have eq: "Init_Syscall entry_addr s = DEBUGER LIGHT_RED ''Syscall initialized - %d syscalls registered'' [VInt 10] ?u"
    unfolding Init_Syscall_def Let_def tab wrmsr_def rdmsr_rax_def star halves
    by (simp add: syscalls_started_def set_syscall_def syscall_fns_def numeral_nat replicate_app_Cons_same halves)
  have fmt: "fmt_ok ''Syscall initialized - %d syscalls registered'' [VInt 10]" by simp
  have "cursor_ok ?u" using assms(1) cursor_ok_regs [of ?u s] by (simp add: syscalls_started_def)
  then show ?thesis unfolding eq by (rule DEBUGER_ok [OF fmt])
qed

text \<open>
  C32: \<open>Init_Syscall\<close> enters every handler of the header under its number and the dummy handler
  under the others, sets the selectors and the entry point, and enables the instruction in
  \<^verbatim>\<open>EFER\<close>, whose other bits below 32 it keeps; the bits from 32 on it clears.
\<close>

theorem Init_Syscall_correct:
  assumes "cursor_ok s" "length (syscall_table s) = 10"
  shows "\<exists>t. Init_Syscall entry_addr s = Some t \<and> cursor_ok t
    \<and> syscall_table t = map Some [Sys_exit, Sys_dummy, Sys_write, Sys_dummy, Sys_dummy, Sys_fork, Sys_exec, Sys_wait, Sys_getpid, Sys_brk]
    \<and> msr t 0xC0000081 = 0x10000800000000 \<and> msr t 0xC0000082 = entry_addr
    \<and> msr t 0xC0000080 = ((msr s 0xC0000080 AND 0xFFFFFFFF) OR 1)"
proof -
  obtain t where t: "Init_Syscall entry_addr s = Some t" "cursor_ok t" "screen_only (syscalls_started entry_addr s) t"
    using Init_Syscall_result [OF assms] by blast
  from t(3) have "syscall_table t = map Some syscall_fns" "msr t = msr (syscalls_started entry_addr s)"
    by (auto simp: syscalls_started_def elim!: screen_onlyE)
  with t(1,2) show ?thesis by (simp add: syscalls_started_def syscall_fns_def)
qed

theorem Init_Syscall_correct_witness:
  "\<exists>t. Init_Syscall 0x13000 booted_syscalls = Some t \<and> msr t 0xC0000082 = 0x13000"
  using Init_Syscall_correct [of booted_syscalls "0x13000"] by auto

subsection \<open>Calls\<close>

text \<open>A state in which system calls work: the process manager of the concrete table, with the table of handlers.\<close>

definition syscall_ready :: syscall_state where
  "syscall_ready = booted_syscalls\<lparr>processes := processes two_processes, current_process := Some 0, next_pid := 3,
     process_count := 2, syscall_table := map Some syscall_fns\<rparr>"

lemma syscall_ready_ok: "kernel_ok syscall_ready"
proof -
  have p: "proc i syscall_ready = proc i two_processes" for i by (simp add: syscall_ready_def proc_def)
  have r: "regs syscall_ready = regs two_processes" "next_pid syscall_ready = 3" "current_process syscall_ready = Some 0"
    by (simp_all add: syscall_ready_def booted_syscalls_def)
  have u: "used syscall_ready = {0, 1}" using two_processes_used by (simp add: used_def p)
  have "alloc_ok syscall_ready = alloc_ok booted_syscalls" by (rule alloc_view) (simp_all add: syscall_ready_def)
  then have "alloc_ok syscall_ready" by (simp add: booted_syscalls_def)
  moreover have "cursor_ok syscall_ready"
    using cursor_ok_regs [of syscall_ready booted_syscalls] by (simp add: syscall_ready_def)
  moreover have "pids_ok syscall_ready" by (simp add: pids_ok_def u p r inj_on_def)
  moreover have "stacks_ok syscall_ready" by (simp add: stacks_ok_def owned_stacks_def p)
  moreover have "sps_ok syscall_ready" by (simp add: sps_ok_def p r safe_sp_boot safe_sp_fresh)
  moreover have "current_ok syscall_ready" by (simp add: current_ok_def u r)
  moreover have "length (processes syscall_ready) = 64" by (simp add: syscall_ready_def)
  moreover have "table_ok syscall_ready" by (simp add: syscall_ready_def table_ok_def)
  ultimately show ?thesis by (simp add: kernel_ok_def live_def proc_ok_def r)
qed



text \<open>
  A number outside the table is refused: \<open>syscall_handler\<close> returns \<^verbatim>\<open>-1\<close> and changes
  nothing but the screen.
\<close>

lemma invalid_syscall_refused:
  assumes "kernel_ok s" "10 \<le> unat n"
  shows "\<exists>t. syscall_handler ra ta n a1 a2 a3 a4 a5 s = Some (Returns (- 1), t) \<and> kept (avail_pages s) s t"
  using syscall_handler_call [of s n ra ta a1 a2 a3 a4 a5] assms by (auto simp: kernel_ok_def live_def)

text \<open>
  C33: \<open>sys_write_handler\<close> on a buffer outside the screen prints the bytes of the buffer up to
  \<open>count\<close> or the first null byte, as the terminal model says, and returns \<open>count\<close> in either
  case, also when it stopped early.
\<close>

theorem sys_write_prints:
  assumes "cursor_ok s" "\<And>k. k < unat count \<Longrightarrow> buffer + of_nat k \<notin> screen_bytes"
  shows "\<exists>t. sys_write_handler fd buffer count a4 a5 s = Some (count, t) \<and> screen_only s t
    \<and> abs_term t = fold term_putc (takeWhile (\<lambda>b. b \<noteq> 0) (map (\<lambda>k. mem s (buffer + of_nat k)) [0..<unat count])) (abs_term s)"
  using sys_write_loop_prints [of s 0 count buffer] sys_write_loop_ok [OF assms(1), of buffer count 0] assms putcs_refine [OF assms(1)]
  by (simp add: sys_write_handler_def)

theorem sys_write_prints_witness: "\<exists>t. sys_write_handler 1 0x8000 5 0 0 (vga_statics ()) = Some (5, t) \<and> abs_term t = abs_term (vga_statics ())"
proof -
  have "(0x8000 :: u64) + of_nat k \<notin> screen_bytes" if "k < 5" for k
  proof -
    have "unat ((0x8000 :: u64) + of_nat k) = 0x8000 + k"
      using that unat_of_nat_small [of k] by (simp add: unat_word_ariths)
    then show ?thesis using that by (simp add: screen_bytes_iff)
  qed
  moreover have "takeWhile (\<lambda>b. b \<noteq> 0) (map (\<lambda>k. mem (vga_statics ()) (0x8000 + of_nat k)) [0..<5]) = []"
    by (simp add: vga_statics_def cleared_def upt_conv_Cons)
  ultimately show ?thesis
    using sys_write_prints [of "vga_statics ()" 5 "0x8000" 1 0 0] by auto
qed

subsection \<open>Printing a string of the caller\<close>

lemma cstring_agree:
  assumes "cstring m (Addr p) cs" "agree_off screen_bytes m m'" "\<And>k. k \<le> length cs \<Longrightarrow> p + of_nat k \<notin> screen_bytes"
  shows "cstring m' (Addr p) cs"
  using assms
proof (induction cs arbitrary: p)
  case Nil
  then show ?case using agree_offD [of screen_bytes m m' p] Nil.prems(3) [of 0] by simp
next
  case (Cons c cs)
  have "p + 1 + of_nat k \<notin> screen_bytes" if "k \<le> length cs" for k
    using Cons.prems(3) [of "Suc k"] that by (simp add: add.assoc)
  then show ?case using Cons.IH [of "p + 1"] Cons.prems(1,2) agree_offD [of screen_bytes m m' p] Cons.prems(3) [of 0] by simp
qed

lemma kprint_loop_Addr:
  assumes "cstring (mem s) (Addr p) cs" "cursor_ok s" "\<And>k. k \<le> length cs \<Longrightarrow> p + of_nat k \<notin> screen_bytes"
  shows "kprint_loop (Addr p) s = Some (fold VGA_Putc cs s)"
  using assms
proof (induction cs arbitrary: p s)
  case (Cons c cs)
  let ?t = "VGA_Putc c s"
  have p: "cursor_ok ?t" "screen_only s ?t" using VGA_Putc_refines [OF Cons.prems(2)] by blast+
  have off: "p + 1 + of_nat k \<notin> screen_bytes" if "k \<le> length cs" for k
    using Cons.prems(3) [of "Suc k"] that by (simp add: add.assoc)
  have "cstring (mem s) (Addr (p + 1)) cs" using Cons.prems(1) by simp
  from cstring_agree [OF this screen_only_mem [OF p(2)] off] have "cstring (mem ?t) (Addr (p + 1)) cs" .
  from Cons.IH [OF this p(1) off] Cons.prems(1) show ?case by (subst kprint_loop.simps) simp
qed (subst kprint_loop.simps, simp)

lemma kprint_Addr:
  assumes "cstring (mem s) (Addr p) cs" "cursor_ok s" "\<And>k. k \<le> length cs \<Longrightarrow> p + of_nat k \<notin> screen_bytes"
  shows "kprint (Addr p) s = Some (print_string cs s)"
proof -
  have 2: "cstring (mem s) (lit (CHR 0x1B # ''[2k'')) clear_line_seq"
    unfolding clear_line_lit by (rule cstring_Obj) (simp add: clear_line_seq_def)
  from strcmp_cstring [OF assms(1) 2] obtain d where
    "strcmp (mem s) (Addr p) (lit (CHR 0x1B # ''[2k'')) = Some d" "d = 0 \<longleftrightarrow> cs = clear_line_seq" by blast
  then show ?thesis using kprint_loop_Addr [OF assms] by (simp add: kprint_def print_string_def)
qed

lemma vkprintf_plain_prefix:
  "fmt_plain pre \<Longrightarrow> vkprintf (bytes_of pre @ rest) args s = vkprintf rest args (fold VGA_Putc (bytes_of pre) s)"
  by (induction pre arbitrary: s) (auto simp: bytes_of_def of_char_codes)

text \<open>
  C38: \<open>sys_exec_handler\<close> returns, with \<^verbatim>\<open>-1\<close> and nothing changed but the screen, for every
  null-terminated path that lies outside the screen.
\<close>

theorem sys_exec_returns:
  assumes "proc_ok s" "cstring (mem s) (Addr path) cs" "\<And>k. k \<le> length cs \<Longrightarrow> path + of_nat k \<notin> screen_bytes"
  shows "\<exists>t. sys_exec_handler (Addr path) s = Some (- 1, t) \<and> screen_only s t \<and> proc_ok t"
proof -
  let ?pre = "''[DEBUG] sys_exec called with path: ''"
  let ?s1 = "SetColor (color_value LIGHT_CYAN) s"
  let ?s2 = "fold VGA_Putc (bytes_of ?pre) ?s1"
  have c: "cursor_ok ?s1" using proc_okD(3) [OF assms(1)] by simp
  have fmt: "bytes_of (''[DEBUG] '' @ ''sys_exec called with path: %s'' @ [CHR 0x0A]) @ [0] = bytes_of ?pre @ [0x25, 0x73, 0x0A, 0]"
    by (simp add: bytes_of_def)
  have p2: "cursor_ok ?s2" "screen_only ?s1 ?s2" using putcs_ok [OF c, of "bytes_of ?pre"] by blast+
  have "mem ?s1 = mem s" by (simp add: SetColor_def)
  then have "cstring (mem ?s2) (Addr path) cs" using cstring_agree [OF assms(2) _ assms(3)] screen_only_mem [OF p2(2)] by simp
  then have k: "kprint (Addr path) ?s2 = Some (print_string cs ?s2)" by (rule kprint_Addr [OF _ p2(1) assms(3)])
  let ?s3 = "VGA_Putc 0x0A (print_string cs ?s2)"
  have pre: "fmt_plain ?pre" by simp
  have v: "vkprintf (bytes_of ?pre @ [0x25, 0x73, 0x0A, 0]) [VStr (Addr path)] ?s1 = Some ?s3"
    unfolding vkprintf_plain_prefix [OF pre] using k by (simp add: vkprintf_conv_def)
  have s3: "cursor_ok ?s3" "screen_only ?s1 ?s3"
    using print_string_ok [OF p2(1), of cs] VGA_Putc_refines [of "print_string cs ?s2" "0x0A"] p2(2)
    by (blast intro: screen_only_trans)+
  let ?t = "SetColor (ucast (color s)) ?s3"
  have d: "DEBUGER LIGHT_CYAN ''sys_exec called with path: %s'' [VStr (Addr path)] s = Some ?t"
    unfolding DEBUGER_def kprintcolor_def Let_def fmt v by simp
  have "(ucast (ucast (color s) :: u32) :: u8) = color s" by (rule bit_word_eqI) (simp add: bit_simps)
  then have "?t = ?s3\<lparr>color := color s\<rparr>" by (simp add: SetColor_def)
  moreover have "screen_only (s\<lparr>color := ucast (color_value LIGHT_CYAN)\<rparr>) ?s3" using s3(2) by (simp add: SetColor_def)
  ultimately have so: "screen_only s ?t" using recolor_screen_only by metis
  have "cursor_ok ?t" using s3(1) by simp
  from screen_only_proc_ok [OF assms(1) so this] so d show ?thesis by (simp add: sys_exec_handler_def)
qed

theorem sys_exec_returns_witness: "\<exists>t. sys_exec_handler (Addr 0x8000) two_processes = Some (- 1, t) \<and> proc_ok t"
proof -
  have z: "mem two_processes 0x8000 = 0"
  proof -
    let ?y = "paging_ext 0x1000 (idt_state_ext (replicate 256 (gate 0 0 0)) \<lparr>limit = 0, base = 0\<rparr>
        (irq_state_ext (replicate 16 0) (process_mgr_ext (replicate 64 unused_slot) None 1 0 ())))"
    have "agree_off (bitmap_area \<union> screen_bytes) (\<lambda>_. 0) (mem (booted_memory ?y))"
      using fresh_bitmap_agree [of "memory_statics ?y"] by (simp add: booted_memory_def)
    moreover have "0x8000 \<notin> bitmap_area \<union> screen_bytes" by (simp add: bitmap_area_iff screen_bytes_iff)
    ultimately have "mem (booted_memory ?y) 0x8000 = 0" using agree_offD by fastforce
    then show ?thesis by (simp add: two_processes_def booted_process_def booted_paging_def)
  qed
  have "proc_ok two_processes" using two_processes_live by (simp add: live_def)
  then show ?thesis
    using sys_exec_returns [of two_processes "0x8000" "[]"] by (simp add: z screen_bytes_iff) blast
qed

subsection \<open>The entry point\<close>

text \<open>
  C37: The assembly entry point writes only three words of the caller's stack and hands the
  registers to the C handler on the kernel stack with the kernel's data segments, except that
  the third argument, meant to be \<^verbatim>\<open>rcx\<close>, is always \<^verbatim>\<open>0x10\<close>; and it does not restore the caller's stack:
  it saves the stack pointer on the caller's stack but takes it back from the word at the top of
  the kernel stack, and the flags and the return address from there. A handler that switches to
  another process leaves the entry point for good.
\<close>

theorem syscall_entry_loses_stack:
  "\<exists>u. regs u RSP = top_addr \<and> agree_off (region (regs s RSP - 24) 24) (mem s) (mem u) \<and>
    (\<forall>q \<in> {DS, ES, FS, GS}. segs u q = 0x10) \<and>
    (case handler (regs s RAX) (regs s RBX) (regs s RDX) 0x10 (regs s R8) (regs s R9) u of
       None \<Rightarrow> syscall_entry top_addr handler s = None
     | Some (Switched, t) \<Rightarrow> syscall_entry top_addr handler s = Some t
     | Some (Returns v, t) \<Rightarrow> \<exists>s'. syscall_entry top_addr handler s = Some s'
         \<and> (regs t RSP = top_addr \<longrightarrow>
              (let sp = read_u64 (mem t) top_addr
               in regs s' RSP = sp + 16 \<and> regs s' RFLAGS = (read_u64 (mem t) sp AND 0x3C7FD7) OR 2 \<and> regs s' RIP = read_u64 (mem t) (sp + 8)
                  \<and> regs s' RAX = v)))"
proof -
  let ?p = "push_reg RSP (set_seg GS 0x10 (set_seg FS 0x10 (set_seg ES 0x10 (set_seg DS 0x10
    (set_reg RCX 0x10 (push_reg R11 (push_reg RCX s)))))))"
  let ?u1 = "set_reg RSP top_addr ?p"
  let ?u = "set_reg RSI (regs s RBX) (set_reg RDI (regs s RAX) ?u1)"
  have r: "regs ?p RAX = regs s RAX" "regs ?p RBX = regs s RBX" "regs ?p RDX = regs s RDX" "regs ?p RCX = 0x10"
    "regs ?p R8 = regs s R8" "regs ?p R9 = regs s R9"
    by (simp_all add: push_reg_def push_val_simps set_reg_def set_seg_def)
  have e: "syscall_entry top_addr handler s =
      do { (result, s) \<leftarrow> handler (regs s RAX) (regs s RBX) (regs s RDX) 0x10 (regs s R8) (regs s R9) ?u;
           case result of
             Switched \<Rightarrow> Some s
           | Returns v \<Rightarrow> (let s = pop_reg RCX (pop_reg R11 (pop_reg RSP (set_reg RAX v s))) in Some (sysret s)) }"
    unfolding syscall_entry_def Let_def using r by (simp add: set_reg_def set_seg_def)
  show ?thesis
  proof (rule exI [of _ ?u], intro conjI)
    show "regs ?u RSP = top_addr" by (simp add: set_reg_def)
    have sub: "region (regs s RSP - 8) 8 \<subseteq> region (regs s RSP - 24) 24" "region (regs s RSP - 16) 8 \<subseteq> region (regs s RSP - 24) 24"
      "region (regs s RSP - 24) 8 \<subseteq> region (regs s RSP - 24) 24"
      using region_shift [of 16 8 24 "regs s RSP - 24"] region_shift [of 8 8 24 "regs s RSP - 24"] region_shift [of 0 8 24 "regs s RSP - 24"] by simp_all
    have "write_u64 (write_u64 (write_u64 (mem s) (regs s RSP - 8) x) (regs s RSP - 16) y) (regs s RSP - 24) z a = mem s a"
      if "a \<notin> region (regs s RSP - 24) 24" for x y z a
    proof -
      have "a \<notin> region (regs s RSP - 8) 8" "a \<notin> region (regs s RSP - 16) 8" "a \<notin> region (regs s RSP - 24) 8" using that sub by blast+
      then show ?thesis by (simp add: write_u64_off)
    qed
    then show "agree_off (region (regs s RSP - 24) 24) (mem s) (mem ?u)"
      by (simp add: agree_off_def set_reg_def set_seg_def push_reg_def push_val_def Let_def)
    show "\<forall>q \<in> {DS, ES, FS, GS}. segs ?u q = 0x10" by (simp add: push_reg_def push_val_def set_reg_def set_seg_def Let_def)
    show "case handler (regs s RAX) (regs s RBX) (regs s RDX) 0x10 (regs s R8) (regs s R9) ?u of
       None \<Rightarrow> syscall_entry top_addr handler s = None
     | Some (Switched, t) \<Rightarrow> syscall_entry top_addr handler s = Some t
     | Some (Returns v, t) \<Rightarrow> \<exists>s'. syscall_entry top_addr handler s = Some s'
         \<and> (regs t RSP = top_addr \<longrightarrow>
              (let sp = read_u64 (mem t) top_addr
               in regs s' RSP = sp + 16 \<and> regs s' RFLAGS = (read_u64 (mem t) sp AND 0x3C7FD7) OR 2 \<and> regs s' RIP = read_u64 (mem t) (sp + 8)
                  \<and> regs s' RAX = v))"
    proof (cases "handler (regs s RAX) (regs s RBX) (regs s RDX) 0x10 (regs s R8) (regs s R9) ?u")
      case None
      then show ?thesis by (simp add: e)
    next
      case (Some y)
      show ?thesis
      proof (cases "\<exists>t. y = (Switched, t)")
        case True
        then show ?thesis using Some by (auto simp: e)
      next
        case False
        then obtain v t where y: "y = (Returns v, t)" by (cases y) (metis outcome.exhaust)
        let ?s' = "let s = pop_reg RCX (pop_reg R11 (pop_reg RSP (set_reg RAX v t))) in sysret s"
        have "syscall_entry top_addr handler s = Some ?s'" by (simp add: e Some y Let_def)
        moreover have "regs t RSP = top_addr \<longrightarrow> (let sp = read_u64 (mem t) top_addr
                 in regs ?s' RSP = sp + 16 \<and> regs ?s' RFLAGS = (read_u64 (mem t) sp AND 0x3C7FD7) OR 2 \<and> regs ?s' RIP = read_u64 (mem t) (sp + 8)
                    \<and> regs ?s' RAX = v)"
          by (simp add: pop_reg_def sysret_def set_reg_def set_seg_def Let_def add.commute)
        ultimately show ?thesis unfolding Some y by (simp only: option.case prod.case outcome.case) blast
      qed
    qed
  qed
qed

theorem syscall_entry_loses_stack_witness:
  "\<exists>s'. syscall_entry 0x15000 (\<lambda>n a b c d e s. Some (Returns c, s)) two_processes = Some s' \<and> regs s' RAX = 0x10"
  using syscall_entry_loses_stack [where top_addr = "0x15000" and handler = "\<lambda>n a b c d e s. Some (Returns c, s)" and s = two_processes] by (auto simp: Let_def)

end
