(* ===== verification/Kernel.thy ===== *)
theory Kernel
  imports Syscall_Properties Screen_Properties
begin

text \<open>
  The kernel's entry, \<^verbatim>\<open>kernel/main.c\<close>: the order in which the components start. The addresses
  the linker assigns (the descriptor table, the interrupt entries, the idle function and the
  system call entry) are parameters. The result is the machine when the code reaches its
  final loop of \<^verbatim>\<open>hlt\<close>.
\<close>

subsection \<open>Model\<close>

abbreviation (input) OS_NAME :: string where "OS_NAME \<equiv> ''M12 OS''"
abbreviation (input) OS_VERSION :: string where "OS_VERSION \<equiv> ''0.15''"
abbreviation (input) SYSTEM_READY_MESSAGE :: string where
  "SYSTEM_READY_MESSAGE \<equiv> CHR 0x0A # ''System ready for operation! '' @ [CHR 0x0A]"

definition kmain :: "u64 \<Rightarrow> (nat \<Rightarrow> u64) \<Rightarrow> (nat \<Rightarrow> u64) \<Rightarrow> u64 \<Rightarrow> u64 \<Rightarrow> 'a syscall_state_scheme \<Rightarrow> 'a syscall_state_scheme option" where
  "kmain idt_addr isr irq idle_process syscall_entry_addr s =
     do { s \<leftarrow> Init_VGA s;
          s \<leftarrow> Init_Memory s;
          s \<leftarrow> Init_Paging s;
          s \<leftarrow> Init_IDT idt_addr s;
          s \<leftarrow> Init_ISR isr s;
          s \<leftarrow> Init_IRQ irq s;
          s \<leftarrow> InitProcessManager idle_process s;
          s \<leftarrow> Init_Syscall syscall_entry_addr s;
          let s = sti s;
          s \<leftarrow> kprintf (''%s version %s Booted Successfully! '' @ [CHR 0x0A]) [VStr (lit OS_NAME), VStr (lit OS_VERSION)] s;
          s \<leftarrow> MemoryInfo s;
          kprintf SYSTEM_READY_MESSAGE [] s }"

subsection \<open>Steps of the start\<close>

lemma prints_MemoryInfo: "prints MemoryInfo"
proof -
  show ?thesis
    unfolding prints_def
  proof (intro allI impI)
    fix s :: "'a memory_scheme" assume c: "cursor_ok s"
    have "prints (\<lambda>s'. kprintf (CHR 0x0A # ''=== Memory Information ==='' @ [CHR 0x0A]) [] s' \<bind> (\<lambda>t.
      kprintf (''Total Memory:  %d MB'' @ [CHR 0x0A]) [VInt (get_total_memory s div (1024 * 1024))] t \<bind> (\<lambda>t.
      kprintf (''Used Memory:   %d MB (%d pages)'' @ [CHR 0x0A]) [VInt (used_pages s * PAGE_SIZE div (1024 * 1024)), VInt (used_pages t)] t \<bind> (\<lambda>t.
      kprintf (''Free Memory:   %d MB (%d pages)'' @ [CHR 0x0A]) [VInt (get_free_memory s div (1024 * 1024)), VInt (total_pages t - used_pages t)] t \<bind> (\<lambda>t.
      kprintf (''Memory Range:  0x%x - 0x%x'' @ [CHR 0x0A]) [VInt (memory_start t), VInt (memory_end t)] t \<bind> (\<lambda>t.
      kprintf (''Page Size:     %d bytes'' @ [CHR 0x0A]) [VInt PAGE_SIZE] t \<bind>
      kprintf (''=========================='' @ [CHR 0x0A]) []))))))"
      by (intro prints_ok) simp_all
    from printsD [OF this c] show "\<exists>t. MemoryInfo s = Some t \<and> cursor_ok t \<and> screen_only s t"
      by (simp add: MemoryInfo_def Let_def)
  qed
qed

lemma prints_banner: "prints (kprintf (''%s version %s Booted Successfully! '' @ [CHR 0x0A]) [VStr (lit ''M12 OS''), VStr (lit ''0.15'')])"
  by (intro prints_ok) (simp add: lit_def bytes_of_def clear_line_seq_def)

lemma prints_ready: "prints (kprintf (CHR 0x0A # ''System ready for operation! '' @ [CHR 0x0A]) [])"
  by (intro prints_ok) simp

lemma detected_end_cong:
  assumes "\<And>a. 0x5000 \<le> unat a \<Longrightarrow> unat a < 0x5500 \<Longrightarrow> m' a = m a"
  shows "detected_end m' = detected_end m"
proof -
  have n: "read_u16 m' MEMORY_MAP_LOCATION = read_u16 m MEMORY_MAP_LOCATION"
    by (rule read_u16_cong) (use assms in \<open>auto simp: region_iff\<close>)
  have e: "read_entry m' i = read_entry m i" if "i < 50" for i
  proof -
    have "read_u32 m' (MEMORY_MAP_LOCATION + 2 + 24 * of_nat i + k) = read_u32 m (MEMORY_MAP_LOCATION + 2 + 24 * of_nat i + k)" if "unat k < 21" for k
      using entry_addr [of k i] that \<open>i < 50\<close> by (intro read_u32_cong assms) (auto simp: region_iff)
    from this [of 0] this [of 4] this [of 8] this [of 12] this [of 16] this [of 20] show ?thesis
      unfolding read_entry_def Let_def by simp
  qed
  show ?thesis
  proof (cases "read_u16 m MEMORY_MAP_LOCATION > 50")
    case True
    then show ?thesis by (simp add: detected_end_def n Let_def case_prod_beta cong: if_cong)
  next
    case False
    then have "unat (read_u16 m MEMORY_MAP_LOCATION) \<le> 50" by (simp add: not_less word_le_nat_alt)
    then have "map (read_entry m') [0..<unat (read_u16 m MEMORY_MAP_LOCATION)] = map (read_entry m) [0..<unat (read_u16 m MEMORY_MAP_LOCATION)]"
      using e by auto
    then show ?thesis by (simp only: detected_end_def n Let_def)
  qed
qed

lemma detected_end_screen: "agree_off screen_bytes m m' \<Longrightarrow> detected_end m' = detected_end m"
  by (rule detected_end_cong) (simp add: agree_off_def screen_bytes_iff)

lemma fresh_bitmap_screen:
  assumes "screen_only s t"
  shows "screen_only (fresh_bitmap s) (fresh_bitmap t)"
proof -
  obtain m i r where t: "t = s\<lparr>mem := m, crtc_index := i, crtc_regs := r\<rparr>" and m: "agree_off screen_bytes (mem s) m"
    using assms by (rule screen_onlyE)
  have d: "detected_end m = detected_end (mem s)" by (rule detected_end_screen [OF m])
  let ?n = "(detected_end (mem s) - 0x100000) div PAGE_SIZE"
  let ?m = "\<lambda>a. if a - 0x60000 < calculate_bitmap_size ?n then 0xFF else m a"
  have "fresh_bitmap t = (fresh_bitmap s)\<lparr>mem := ?m, crtc_index := i, crtc_regs := r\<rparr>"
    unfolding t by (cases s) (simp add: fresh_bitmap_def Let_def d [unfolded t] cong: if_cong)
  moreover have "agree_off screen_bytes (mem (fresh_bitmap s)) ?m"
    using m by (auto simp: agree_off_def fresh_bitmap_def Let_def)
  ultimately show ?thesis by (rule screen_onlyI)
qed


lemma fresh_bitmap_card:
  assumes "memory_start s = 0x100000" "used_pages s = 0"
  shows "card (avail_pages (fresh_bitmap s)) = unat ((detected_end (mem s) - 0x100000) div PAGE_SIZE)"
proof -
  let ?t = "fresh_bitmap s"
  have ok: "alloc_ok ?t" "free_pages ?t = {i. i < total_pages ?t}" using fresh_bitmap_alloc_ok [OF assms] by blast+
  then have "alloc_bounds ?t" by (simp add: alloc_ok_def)
  then have "inj_on page_addr (free_pages ?t)" using page_addr_inject by (auto simp: inj_on_def ok(2))
  then have "card (avail_pages ?t) = card {i. i < total_pages ?t}" unfolding avail_pages_def ok(2) by (rule card_image)
  then show ?thesis by (simp add: card_word_less fresh_bitmap_def Let_def)
qed

text \<open>The part of the machine that the interrupt tables do not touch.\<close>

definition carried :: "'a irq_state_scheme \<Rightarrow> 'a irq_state_scheme \<Rightarrow> bool" where
  "carried s t \<longleftrightarrow> alloc_ok t \<and> regs t = regs s \<and> cr3 t = cr3 s \<and> kernel_pml4 t = kernel_pml4 s \<and> irq_state.more t = irq_state.more s
     \<and> frame s t"

lemma carried_screen:
  assumes "screen_only u t" "carried s u"
  shows "carried s t"
proof -
  have u: "alloc_ok u" "frame s u" using assms(2) by (simp_all add: carried_def)
  have "frame s t" using frame_trans [OF u(2) screen_only_frame [OF assms(1) u(1)]] .
  then show ?thesis using assms screen_only_alloc_ok [OF assms(1)] by (auto simp: carried_def elim!: screen_onlyE)
qed

lemma carried_trans: "carried s t \<Longrightarrow> carried t u \<Longrightarrow> carried s u"
  using frame_trans by (auto simp: carried_def)

lemma carried_tables:
  assumes "alloc_ok s"
  shows "carried s (s\<lparr>idt_ptr := p, idt := d, idtr := r\<rparr>)" "carried s (s\<lparr>idt := d\<rparr>)"
    "carried s ((Init_PIC s)\<lparr>irq_handlers := h, idt := d\<rparr>)"
  using assms alloc_view(1,2) [of "s\<lparr>idt_ptr := p, idt := d, idtr := r\<rparr>" s] alloc_view(1,2) [of "s\<lparr>idt := d\<rparr>" s]
    alloc_view(1,2) [of "(Init_PIC s)\<lparr>irq_handlers := h, idt := d\<rparr>" s]
  by (simp_all add: carried_def Init_PIC_log frame_same)

lemma interrupts_started:
  assumes "cursor_ok s" "alloc_ok s" "length (idt s) = 256" "length (irq_handlers s) = 16"
  shows "\<exists>s1 s2 t. Init_IDT addr s = Some s1 \<and> Init_ISR isr s1 = Some s2 \<and> Init_IRQ irq s2 = Some t
    \<and> cursor_ok t \<and> carried s t \<and> idtr t = (4095, addr) \<and> irq_handlers t = replicate 16 0
    \<and> idt t = map (\<lambda>v. if v < 32 then gate (isr v) 0x08 0x8E else if v < 48 then gate (irq (v - 32)) 0x08 0x8E else gate 0 0 0) [0..<256]"
proof -
  obtain s1 where s1: "Init_IDT addr s = Some s1" "cursor_ok s1"
    "screen_only (s\<lparr>idt_ptr := \<lparr>limit = 4095, base = addr\<rparr>, idt := replicate 256 (gate 0 0 0), idtr := (4095, addr)\<rparr>) s1"
    using Init_IDT_result [OF assms(1,3)] by blast
  note k1 = screen_only_idt [OF s1(3)] screen_only_irq [OF s1(3)]
  have c1: "carried s s1" by (rule carried_screen [OF s1(3) carried_tables(1) [OF assms(2)]])
  then have a1: "alloc_ok s1" by (simp add: carried_def)
  obtain s2 where s2: "Init_ISR isr s1 = Some s2" "cursor_ok s2"
    "screen_only (s1\<lparr>idt := map (\<lambda>v. if v < 32 then gate (isr v) 0x08 0x8E else idt s1 ! v) [0..<256]\<rparr>) s2"
    using Init_ISR_result [OF s1(2)] k1 by auto
  note k2 = screen_only_idt [OF s2(3)] screen_only_irq [OF s2(3)]
  have c2: "carried s s2" by (rule carried_trans [OF c1 carried_screen [OF s2(3) carried_tables(2) [OF a1]]])
  then have a2: "alloc_ok s2" by (simp add: carried_def)
  obtain t where t: "Init_IRQ irq s2 = Some t" "cursor_ok t"
    "screen_only ((Init_PIC s2)\<lparr>irq_handlers := replicate 16 0,
        idt := map (\<lambda>v. if 32 \<le> v \<and> v < 48 then gate (irq (v - 32)) 0x08 0x8E else idt s2 ! v) [0..<256]\<rparr>) t"
    using Init_IRQ_result [OF s2(2), of irq] k1 k2 assms(4) by auto
  note k3 = screen_only_idt [OF t(3)] screen_only_irq [OF t(3)]
  have "carried s t" by (rule carried_trans [OF c2 carried_screen [OF t(3) carried_tables(3) [OF a2]]])
  moreover have "idtr t = (4095, addr)" "irq_handlers t = replicate 16 0" using k1 k2 k3 by (simp_all add: Init_PIC_log)
  moreover have "idt t = map (\<lambda>v. if v < 32 then gate (isr v) 0x08 0x8E else if v < 48 then gate (irq (v - 32)) 0x08 0x8E else gate 0 0 0) [0..<256]"
    by (rule nth_equalityI) (use k1 k2 k3 in auto)
  ultimately show ?thesis using s1(1) s2(1) t(1,2) by blast
qed


lemma memory_started:
  assumes "memory_start s = 0x100000" "used_pages s = 0" "tables_ok (get_current_pml4 s) (fresh_bitmap s)"
    and "3 \<le> unat ((detected_end (mem s) - 0x100000) div PAGE_SIZE)"
  shows "\<exists>s1 s2 t. Init_VGA s = Some s1 \<and> Init_Memory s1 = Some s2 \<and> Init_Paging s2 = Some t
    \<and> alloc_ok t \<and> cursor_ok t \<and> kernel_pml4 t \<noteq> 0 \<and> get_current_pml4 t = kernel_pml4 t
    \<and> regs t = regs s \<and> paging.more t = paging.more s \<and> tables_ok (kernel_pml4 t) t \<and> kernel_pml4 t < 2 ^ 52"
proof -
  obtain s1 where s1: "Init_VGA s = Some s1" "cursor_ok s1" "screen_only (s\<lparr>color := 0xA\<rparr>) s1"
    using Init_VGA_result by blast
  have m1: "memory_start s1 = 0x100000" "used_pages s1 = 0" using screen_only_memory [OF s1(3)] assms(1,2) by simp_all
  obtain s2 where s2: "Init_Memory s1 = Some s2" "cursor_ok s2" "screen_only (fresh_bitmap s1) s2"
    using Init_Memory_result [OF s1(2) m1] by blast
  let ?u = "fresh_bitmap (s\<lparr>color := 0xA\<rparr>)"
  have u: "screen_only ?u s2" by (rule screen_only_trans [OF fresh_bitmap_screen [OF s1(3)] s2(3)])
  have "mem ?u = mem (fresh_bitmap s)" "memory_map ?u = memory_map (fresh_bitmap s)" "total_pages ?u = total_pages (fresh_bitmap s)"
    "used_pages ?u = used_pages (fresh_bitmap s)" "memory_start ?u = memory_start (fresh_bitmap s)" "memory_end ?u = memory_end (fresh_bitmap s)"
    by (simp_all add: fresh_bitmap_def Let_def cong: if_cong)
  note v = alloc_view [OF this]
  have uo: "alloc_ok ?u" using v(1) fresh_bitmap_alloc_ok [OF assms(1,2)] by simp
  have "get_current_pml4 s2 = get_current_pml4 s" "regs s2 = regs s" "paging.more s2 = paging.more s"
    using u by (auto simp: get_current_pml4_def fresh_bitmap_def Let_def elim!: screen_onlyE)
  moreover have "alloc_ok s2" "card (avail_pages s2) \<ge> 3"
    using screen_only_alloc_ok [OF u uo] screen_only_avail [OF u uo] v(2) fresh_bitmap_card [OF assms(1,2)] assms(4) by simp_all
  moreover have "tables_ok (get_current_pml4 s) s2"
    using screen_only_leaves(1) [OF u uo] v(3) assms(3) by blast
  ultimately obtain t where "Init_Paging s2 = Some t" "kernel_pml4 t \<noteq> 0" "kernel_pml4 t < 2 ^ 52" "regs t = regs s" "paging.more t = paging.more s"
    "paged (mem s2) ((pd_slot (mem s2) (get_current_pml4 s2))(indices KERNEL_VIRTUAL_BASE := 0x183)) t"
    using Init_Paging_result [of s2] s2(2) by auto
  then show ?thesis using s1(1) s2(1) unfolding paged_def by blast
qed


lemma more_tables:
  fixes s t :: "'a syscall_state_scheme"
  shows "paging.more t = paging.more s \<Longrightarrow> idt t = idt s \<and> irq_handlers t = irq_handlers s
      \<and> processes t = processes s \<and> syscall_table t = syscall_table s"
    and "irq_state.more t = irq_state.more s \<Longrightarrow> processes t = processes s \<and> syscall_table t = syscall_table s"
  by (cases s; cases t; simp)+

lemma proc_ok_same:
  assumes "proc_ok s" and "mem t = mem s" "memory_map t = memory_map s" "total_pages t = total_pages s"
    "used_pages t = used_pages s" "memory_start t = memory_start s" "memory_end t = memory_end s"
    and "crtc_regs t = crtc_regs s" "regs t = regs s"
    "processes t = processes s" "current_process t = current_process s" "next_pid t = next_pid s"
  shows "proc_ok t" "used t = used s"
proof -
  note v = alloc_view [OF assms(2-7)] and c = cursor_ok_regs [OF assms(8)]
  have p: "proc i t = proc i s" for i using assms(10) by (simp add: proc_def)
  show u: "used t = used s" by (simp add: used_def p)
  have "all_pages t = all_pages s" using assms(4) by (simp add: all_pages_def)
  then show "proc_ok t"
    using assms(1,9-12) v(1,2) c u
    by (simp add: proc_ok_def pids_ok_def stacks_ok_def sps_ok_def current_ok_def p)
qed

lemma syscalls_started_ok:
  assumes "proc_ok s" "current_process s = Some c" "length (syscall_table s) = 10"
  shows "\<exists>t. Init_Syscall e s = Some t \<and> kernel_ok (sti t) \<and> used t = used s \<and> current_process t = Some c
    \<and> kernel_pml4 t = kernel_pml4 s \<and> cr3 t = cr3 s \<and> msr t 0xC0000082 = e
    \<and> idt t = idt s \<and> idtr t = idtr s \<and> irq_handlers t = irq_handlers s \<and> frame s t \<and> processes t = processes s"
proof -
  obtain t where t: "Init_Syscall e s = Some t" "cursor_ok t" "screen_only (syscalls_started e s) t"
    using Init_Syscall_result [OF proc_okD(3) [OF assms(1)] assms(3)] by blast
  have u: "proc_ok (syscalls_started e s)" "used (syscalls_started e s) = used s"
    using proc_ok_same [OF assms(1), of "syscalls_started e s"] by (simp_all add: syscalls_started_def)
  have p: "proc_ok t" "current_process t = current_process s"
    using screen_only_proc_ok [OF u(1) t(3,2)] by (simp_all add: syscalls_started_def)
  have "frame s (syscalls_started e s)"
    using alloc_view(2) [of "syscalls_started e s" s] by (intro frame_same) (simp_all add: syscalls_started_def)
  then have "frame s t" by (rule frame_trans) (rule screen_only_frame [OF t(3) proc_okD(2) [OF u(1)]])
  moreover have "proc_ok (sti t)" using proc_ok_same(1) [OF p(1), of "sti t"] by (simp add: sti_def)
  moreover have pr: "processes t = processes s" using t(3) by (auto simp: syscalls_started_def elim!: screen_onlyE)
  then have "used t = used s" by (simp add: used_def proc_def)
  moreover have "syscall_table (sti t) = map Some syscall_fns" "kernel_pml4 t = kernel_pml4 s" "cr3 t = cr3 s" "msr t 0xC0000082 = e"
    "idt t = idt s" "idtr t = idtr s" "irq_handlers t = irq_handlers s"
    using t(3) by (auto simp: syscalls_started_def sti_def elim!: screen_onlyE)
  ultimately show ?thesis
    using t(1) p(2) assms(2) pr by (auto simp: kernel_ok_def live_def table_ok_def sti_def)
qed

lemma messages_ok:
  assumes "kernel_ok s"
  shows "\<exists>t. do { s \<leftarrow> kprintf (''%s version %s Booted Successfully! '' @ [CHR 0x0A]) [VStr (lit ''M12 OS''), VStr (lit ''0.15'')] s;
               s \<leftarrow> MemoryInfo s;
               kprintf (CHR 0x0A # ''System ready for operation! '' @ [CHR 0x0A]) [] s } = Some t
    \<and> kernel_ok t \<and> screen_only s t"
proof -
  have p: "proc_ok s" "current_process s \<noteq> None" "table_ok s" using assms by (auto simp: kernel_ok_def live_def)
  have "prints (\<lambda>s. kprintf (''%s version %s Booted Successfully! '' @ [CHR 0x0A]) [VStr (lit ''M12 OS''), VStr (lit ''0.15'')] s
      \<bind> (\<lambda>s. MemoryInfo s \<bind> kprintf (CHR 0x0A # ''System ready for operation! '' @ [CHR 0x0A]) []))"
    by (intro prints_bind prints_banner prints_MemoryInfo prints_ready)
  from printsD [OF this proc_okD(3) [OF p(1)]] obtain t where
    t: "do { s \<leftarrow> kprintf (''%s version %s Booted Successfully! '' @ [CHR 0x0A]) [VStr (lit ''M12 OS''), VStr (lit ''0.15'')] s;
             s \<leftarrow> MemoryInfo s;
             kprintf (CHR 0x0A # ''System ready for operation! '' @ [CHR 0x0A]) [] s } = Some t"
    "cursor_ok t" "screen_only s t" by blast
  have "table_ok t" using t(3) p(3) by (auto simp: table_ok_def elim!: screen_onlyE)
  then show ?thesis using t screen_only_proc_ok [OF p(1) t(3,2)] p(2) by (auto simp: kernel_ok_def live_def)
qed


lemma managers_started:
  assumes "alloc_ok s" "cursor_ok s" "length (processes s) = 64" "sps_ok s" "length (syscall_table s) = 10"
  shows "\<exists>s1 s2. InitProcessManager idle s = Some s1 \<and> Init_Syscall e s1 = Some s2 \<and> kernel_ok (sti s2)
    \<and> used s2 = {0} \<and> current_process s2 = Some 0 \<and> kernel_pml4 s2 = kernel_pml4 s \<and> cr3 s2 = cr3 s \<and> msr s2 0xC0000082 = e
    \<and> idt s2 = idt s \<and> idtr s2 = idtr s \<and> irq_handlers s2 = irq_handlers s
    \<and> frame s s2 \<and> (fresh s \<longrightarrow> fresh s2)"
proof -
  have "proc_start s" using assms(1-4) by (simp add: proc_start_def)
  from InitProcessManager_ok [OF this] obtain s1 where s1: "InitProcessManager idle s = Some s1" "proc_ok s1"
    "current_process s1 = Some 0" "used s1 = {0}" "kernel_pml4 s1 = kernel_pml4 s" "hw_view s1 = hw_view s"
    "process_mgr.more s1 = process_mgr.more s" "frame s s1" "fresh s \<longrightarrow> fresh s1" by blast
  have "length (syscall_table s1) = 10" using more_table [OF s1(7)] assms(5) by simp
  from syscalls_started_ok [OF s1(2,3) this] obtain s2 where s2: "Init_Syscall e s1 = Some s2" "kernel_ok (sti s2)" "used s2 = used s1"
    "current_process s2 = Some 0" "kernel_pml4 s2 = kernel_pml4 s1" "cr3 s2 = cr3 s1" "msr s2 0xC0000082 = e"
    "idt s2 = idt s1" "idtr s2 = idtr s1" "irq_handlers s2 = irq_handlers s1" "frame s1 s2" "processes s2 = processes s1" by blast
  have "fresh s \<longrightarrow> fresh s2" using s1(9) s2(12) by (simp add: fresh_def proc_def)
  then show ?thesis using s1(1,4-6) s2(1-10) frame_trans [OF s1(8) s2(11)] by (auto simp: hw_view_def)
qed

lemma sps_ok_cong: "processes t = processes s \<Longrightarrow> regs t = regs s \<Longrightarrow> sps_ok t = sps_ok s"
  by (simp add: sps_ok_def proc_def)

subsection \<open>The whole start\<close>

text \<open>
  What \<open>kmain\<close> relies on: the static variables have their initial values, the memory map gives
  at least three pages, the page tables in use form a tree outside the page bitmap, and the
  stack pointer leaves the bitmap and the screen alone.
\<close>

definition boot_ready :: "'a syscall_state_scheme \<Rightarrow> bool" where
  "boot_ready s \<longleftrightarrow> memory_start s = 0x100000 \<and> used_pages s = 0 \<and> tables_ok (get_current_pml4 s) (fresh_bitmap s)
     \<and> 3 \<le> unat ((detected_end (mem s) - 0x100000) div PAGE_SIZE)
     \<and> length (idt s) = 256 \<and> length (irq_handlers s) = 16 \<and> length (processes s) = 64 \<and> length (syscall_table s) = 10 \<and> sps_ok s"

lemma kmain_result:
  assumes "boot_ready s"
  shows "\<exists>t. kmain idt_addr isr irq idle entry_addr s = Some t \<and> kernel_ok t \<and> interrupts_enabled t
    \<and> kernel_pml4 t \<noteq> 0 \<and> get_current_pml4 t = kernel_pml4 t \<and> idtr t = (4095, idt_addr) \<and> irq_handlers t = replicate 16 0
    \<and> (\<forall>v<32. gate_offset (idt t ! v) = isr v) \<and> (\<forall>v<16. gate_offset (idt t ! (32 + v)) = irq v)
    \<and> used t = {0} \<and> current_process t = Some 0 \<and> msr t 0xC0000082 = entry_addr
    \<and> tables_ok (kernel_pml4 t) t \<and> kernel_pml4 t < 2 ^ 52 \<and> (fresh s \<longrightarrow> fresh t)"
proof -
  have r: "memory_start s = 0x100000" "used_pages s = 0" "tables_ok (get_current_pml4 s) (fresh_bitmap s)"
    "3 \<le> unat ((detected_end (mem s) - 0x100000) div PAGE_SIZE)" "length (idt s) = 256" "length (irq_handlers s) = 16"
    "length (processes s) = 64" "length (syscall_table s) = 10" "sps_ok s"
    using assms by (simp_all add: boot_ready_def)
  obtain s1 s2 s3 where a: "Init_VGA s = Some s1" "Init_Memory s1 = Some s2" "Init_Paging s2 = Some s3"
    "alloc_ok s3" "cursor_ok s3" "kernel_pml4 s3 \<noteq> 0" "get_current_pml4 s3 = kernel_pml4 s3" "regs s3 = regs s" "paging.more s3 = paging.more s"
    "tables_ok (kernel_pml4 s3) s3" "kernel_pml4 s3 < 2 ^ 52"
    using memory_started [OF r(1-4)] by blast
  note more3 = more_tables(1) [OF a(9)]
  have len: "length (idt s3) = 256" "length (irq_handlers s3) = 16" using more3 r(5,6) by simp_all
  obtain s4 s5 s6 where b: "Init_IDT idt_addr s3 = Some s4" "Init_ISR isr s4 = Some s5" "Init_IRQ irq s5 = Some s6"
    "cursor_ok s6" "carried s3 s6" "idtr s6 = (4095, idt_addr)" "irq_handlers s6 = replicate 16 0"
    "idt s6 = map (\<lambda>v. if v < 32 then gate (isr v) 0x08 0x8E else if v < 48 then gate (irq (v - 32)) 0x08 0x8E else gate 0 0 0) [0..<256]"
    using interrupts_started [OF a(5,4) len] by blast
  have c: "alloc_ok s6" "regs s6 = regs s" "cr3 s6 = cr3 s3" "kernel_pml4 s6 = kernel_pml4 s3" "irq_state.more s6 = irq_state.more s3" "frame s3 s6"
    using b(5) a(8) by (simp_all add: carried_def)
  have p: "processes s6 = processes s" "syscall_table s6 = syscall_table s" using more_tables(2) [OF c(5)] more3 by simp_all
  have "sps_ok s6" using sps_ok_cong [OF p(1) c(2)] r(9) by simp
  then obtain s7 s8 where d: "InitProcessManager idle s6 = Some s7" "Init_Syscall entry_addr s7 = Some s8" "kernel_ok (sti s8)"
    "used s8 = {0}" "current_process s8 = Some 0" "kernel_pml4 s8 = kernel_pml4 s6" "cr3 s8 = cr3 s6" "msr s8 0xC0000082 = entry_addr"
    "idt s8 = idt s6" "idtr s8 = idtr s6" "irq_handlers s8 = irq_handlers s6" "frame s6 s8" "fresh s6 \<longrightarrow> fresh s8"
    using managers_started [OF c(1) b(4)] p r(7,8) by metis
  obtain t where e: "do { s \<leftarrow> kprintf (''%s version %s Booted Successfully! '' @ [CHR 0x0A]) [VStr (lit ''M12 OS''), VStr (lit ''0.15'')] (sti s8);
               s \<leftarrow> MemoryInfo s;
               kprintf (CHR 0x0A # ''System ready for operation! '' @ [CHR 0x0A]) [] s } = Some t"
    "kernel_ok t" "screen_only (sti s8) t"
    using messages_ok [OF d(3)] by blast
  have "kmain idt_addr isr irq idle entry_addr s = Some t" unfolding kmain_def by (simp only: a(1-3) b(1-3) d(1,2) e(1) bind.bind_lunit Let_def)
  moreover have "interrupts_enabled t" "kernel_pml4 t = kernel_pml4 s3" "cr3 t = cr3 s3" "processes t = processes s8"
    "current_process t = Some 0" "msr t 0xC0000082 = entry_addr" "idt t = idt s6" "idtr t = idtr s6" "irq_handlers t = irq_handlers s6"
    using e(3) d(5-11) c(3,4) by (auto simp: sti_def elim!: screen_onlyE)
  moreover from this(4) have "used t = {0}" using d(4) by (simp add: used_def proc_def)
  moreover have "get_current_pml4 t = kernel_pml4 s3" using \<open>cr3 t = cr3 s3\<close> a(7) by (simp add: get_current_pml4_def)
  moreover have "tables_ok (kernel_pml4 s3) t"
  proof -
    have "proc_ok (sti s8)" using d(3) by (simp add: kernel_ok_def live_def)
    from screen_only_frame [OF e(3) proc_okD(2) [OF this]] have "frame (sti s8) t" .
    then have "frame s8 t" using alloc_view(2) [of "sti s8" s8] by (simp add: frame_def sti_def)
    then have f: "frame s3 t" by (rule frame_trans [OF frame_trans [OF c(6) d(12)]])
    then have "\<forall>x \<in> table_bytes (kernel_pml4 s3) (mem s3). mem t x = mem s3 x"
      using tables_off [OF a(4,10)] unfolding frame_def page_bytes_def by (auto intro: agree_offD)
    then show ?thesis by (rule tables_same(1) [OF a(10)]) (use f in \<open>simp add: frame_def\<close>)
  qed
  moreover have "fresh s \<longrightarrow> fresh t" using p(1) d(13) \<open>processes t = processes s8\<close> by (simp add: fresh_def proc_def)
  ultimately show ?thesis using e(2) a(6,11) b(6-8) by (intro exI [of _ t]) (simp add: gate_offset_gate)
qed


text \<open>
  C8: From the static variables' initial values, with any memory map that gives at least three
  pages, boot page tables that form a tree, and a stack outside the page bitmap and the
  screen, \<open>kmain\<close> reaches its final loop: the kernel's own page tables are installed, every
  vector has its gate, interrupts are enabled, exactly the idle process exists and is current,
  the system call entry is set, and the state satisfies the invariant under which system
  calls are safe.
\<close>

theorem kmain_boots:
  assumes "boot_ready s"
  shows "\<exists>t. kmain idt_addr isr irq idle entry_addr s = Some t \<and> kernel_ok t \<and> interrupts_enabled t
    \<and> kernel_pml4 t \<noteq> 0 \<and> get_current_pml4 t = kernel_pml4 t \<and> idtr t = (4095, idt_addr) \<and> irq_handlers t = replicate 16 0
    \<and> (\<forall>v<32. gate_offset (idt t ! v) = isr v) \<and> (\<forall>v<16. gate_offset (idt t ! (32 + v)) = irq v)
    \<and> used t = {0} \<and> current_process t = Some 0 \<and> msr t 0xC0000082 = entry_addr"
  using kmain_result [OF assms, of idt_addr isr irq idle entry_addr] by blast


text \<open>A machine as the boot loader may leave it: no memory map, empty page tables, a stack at \<^verbatim>\<open>0x9000\<close>.\<close>

definition boot_state :: syscall_state where
  "boot_state = (syscall_statics ())\<lparr>cr3 := 0x1000, regs := (\<lambda>_. 0)(RSP := 0x9000)\<rparr>"

lemma boot_state_simps [simp]:
  "memory_start boot_state = 0x100000" "used_pages boot_state = 0" "mem boot_state = (\<lambda>_. 0)" "get_current_pml4 boot_state = 0x1000"
  "length (idt boot_state) = 256" "length (irq_handlers boot_state) = 16" "processes boot_state = replicate 64 unused_slot"
  "length (syscall_table boot_state) = 10" "regs boot_state = (\<lambda>_. 0)(RSP := 0x9000)"
  by (simp_all add: boot_state_def syscall_statics_def process_statics_def irq_statics_def idt_statics_def paging_statics_def
      memory_statics_def vga_statics_def cleared_def get_current_pml4_def)

lemma boot_state_tables: "tables_ok 0x1000 (fresh_bitmap boot_state)"
proof -
  have "tables_ok 0x1000 (fresh_bitmap boot_state) = tables_ok 0x1000 (booted_paging ())"
    by (rule alloc_view)
      (simp_all add: booted_paging_def booted_memory_def fresh_bitmap_def Let_def memory_statics_def vga_statics_def cleared_def
        cong: if_cong)
  then show ?thesis by (simp add: booted_paging_tables)
qed

lemma boot_state_ready: "boot_ready boot_state"
proof -
  have "detected_end (mem boot_state) = 0x20000000" by (simp add: detected_end_def read_u16_def case_prod_beta)
  moreover have "sps_ok boot_state" by (simp add: sps_ok_def proc_def safe_sp_boot safe_sp_fresh)
  ultimately show ?thesis using boot_state_tables by (simp add: boot_ready_def unat_div_distrib)
qed

theorem kmain_boots_witness:
  "\<exists>t. kmain 0x12000 (\<lambda>v. 0x10000 + of_nat v) (\<lambda>v. 0x11000 + of_nat v) 0x7000 0x13000 boot_state = Some t
    \<and> kernel_ok t \<and> interrupts_enabled t \<and> current_process t = Some 0"
  using kmain_boots [OF boot_state_ready, of "0x12000" "\<lambda>v. 0x10000 + of_nat v" "\<lambda>v. 0x11000 + of_nat v" "0x7000" "0x13000"]
  by blast

end
