(* ===== verification/TestSuite.thy ===== *)
theory TestSuite
  imports Kernel
begin

text \<open>
  The kernel's own test suite, \<^verbatim>\<open>kernel/test.c\<close> and \<^verbatim>\<open>include/test.h\<close>. A function pointer of the
  table is the name of the test, none for null; calling through null has no result.
  Parameters: the address of the nested function \<^verbatim>\<open>test_dummy_process\<close> and the address of the
  process table. \<^verbatim>\<open>__FILE__\<close> is the path the makefile passes to the compiler.
\<close>

subsection \<open>Model\<close>

datatype test_fn = Test_basic_paging | Test_kernel_mappings | Test_memory_management | Test_interrupt_system
  | Test_syscall_mechanism | Test_vga_output | Test_process_management | Test_syscall_functions | Test_context_switching

record test_case_t =
  tc_name :: cptr
  tc_function :: "test_fn option"
  tc_description :: cptr

record test_state = syscall_state +
  test_cases :: "test_case_t list"
  test_count :: u32
  tests_passed :: u32
  tests_failed :: u32
  tests_skipped :: u32

abbreviation TEST_PASS :: u32 where "TEST_PASS \<equiv> 0"
abbreviation TEST_FAIL :: u32 where "TEST_FAIL \<equiv> 1"
abbreviation TEST_SKIP :: u32 where "TEST_SKIP \<equiv> 2"

definition test_statics :: "'a \<Rightarrow> 'a test_state_scheme" where
  "test_statics x = syscall_statics (test_state_ext
     (replicate 50 \<lparr>tc_name = Addr 0, tc_function = None, tc_description = Addr 0\<rparr>) 0 0 0 0 x)"

definition add_test :: "string \<Rightarrow> test_fn \<Rightarrow> string \<Rightarrow> 'a test_state_scheme \<Rightarrow> 'a test_state_scheme" where
  "add_test name func desc s =
     (if test_count s < 50 then
        (let s = s\<lparr>test_cases := (test_cases s)[unat (test_count s) :=
               \<lparr>tc_name = lit name, tc_function = Some func, tc_description = lit desc\<rparr>]\<rparr>
         in s\<lparr>test_count := test_count s + 1\<rparr>)
      else s)"

definition init_test_suite :: "'a test_state_scheme \<Rightarrow> 'a test_state_scheme" where
  "init_test_suite s =
     (let s = s\<lparr>test_count := 0, tests_passed := 0, tests_failed := 0, tests_skipped := 0\<rparr>;
          s = add_test ''Basic Paging'' Test_basic_paging ''Test basic paging functionality'' s;
          s = add_test ''Kernel Mappings'' Test_kernel_mappings ''Test kernel virtual address mappings'' s;
          s = add_test ''Memory Management'' Test_memory_management ''Test physical memory allocation'' s;
          s = add_test ''Interrupt System'' Test_interrupt_system ''Test interrupt handling'' s;
          s = add_test ''Syscall Mechanism'' Test_syscall_mechanism ''Test system call infrastructure'' s;
          s = add_test ''VGA Output'' Test_vga_output ''Test VGA text output'' s;
          s = add_test ''Process Management'' Test_process_management ''Test process creation and management'' s;
          s = add_test ''Syscall Functions'' Test_syscall_functions ''Test system call implementations'' s
      in add_test ''Context Switching'' Test_context_switching ''Test process context switching'' s)"

definition test_assert :: "bool \<Rightarrow> string \<Rightarrow> u64 \<Rightarrow> 'a vga_scheme \<Rightarrow> 'a vga_scheme option" where
  "test_assert condition expr line s =
     (if \<not> condition
      then kprintcolor LIGHT_RED ''Assertion failed: %s at %s:%d'' [VStr (lit expr), VStr (lit ''kernel/test.c''), VInt line] s
      else Some s)"

definition test_assert_eq :: "u64 \<Rightarrow> u64 \<Rightarrow> string \<Rightarrow> string \<Rightarrow> u64 \<Rightarrow> 'a vga_scheme \<Rightarrow> 'a vga_scheme option" where
  "test_assert_eq a b a_str b_str line s =
     (if a \<noteq> b
      then kprintcolor LIGHT_RED ''Assertion failed: %s (0x%x) == %s (0x%x) at %s:%d''
             [VStr (lit a_str), VInt a, VStr (lit b_str), VInt b, VStr (lit ''kernel/test.c''), VInt line] s
      else Some s)"

definition test_assert_neq :: "u64 \<Rightarrow> u64 \<Rightarrow> string \<Rightarrow> string \<Rightarrow> u64 \<Rightarrow> 'a vga_scheme \<Rightarrow> 'a vga_scheme option" where
  "test_assert_neq a b a_str b_str line s =
     (if a = b
      then kprintcolor LIGHT_RED ''Assertion failed: %s (0x%x) != %s (0x%x) at %s:%d''
             [VStr (lit a_str), VInt a, VStr (lit b_str), VInt b, VStr (lit ''kernel/test.c''), VInt line] s
      else Some s)"

definition test_basic_paging :: "'a paging_scheme \<Rightarrow> (u32 \<times> 'a paging_scheme) option" where
  "test_basic_paging s =
     do { s \<leftarrow> test_assert (get_kernel_page_table s \<noteq> 0) ''pml4 != NULL'' 104 s;
          s \<leftarrow> test_assert (cr3 s \<noteq> 0) ''cr3 != 0'' 108 s;
          Some (TEST_PASS, s) }"

definition test_kernel_mappings :: "'a vga_scheme \<Rightarrow> (u32 \<times> 'a vga_scheme) option" where
  "test_kernel_mappings s =
     do { s \<leftarrow> kprintf (CHR 0x0A # ''    [Testing kernel mappings...] '') [] s;
          if get_physical_address 0x100000 \<noteq> 0x100000 then
            do { s \<leftarrow> kprintcolor LIGHT_RED ''Basic address translation failed'' [] s; Some (TEST_FAIL, s) }
          else if PML4_INDEX KERNEL_VIRTUAL_BASE \<noteq> 0x1FF then
            do { s \<leftarrow> kprintcolor LIGHT_RED ''PML4 index calculation wrong: %d'' [VInt (PML4_INDEX KERNEL_VIRTUAL_BASE)] s;
                 Some (TEST_FAIL, s) }
          else
            do { s \<leftarrow> kprintcolor LIGHT_GREEN ''Kernel mapping calculations OK'' [] s; Some (TEST_PASS, s) } }"

fun take_pages :: "nat \<Rightarrow> 'a memory_scheme \<Rightarrow> (u64 list \<times> 'a memory_scheme) option" where
  "take_pages 0 s = Some ([], s)"
| "take_pages (Suc n) s =
     (let (page, s) = get_physical_page s
      in do { s \<leftarrow> test_assert (page \<noteq> 0) ''pages[i] != NULL'' 147 s;
              (pages, s) \<leftarrow> take_pages n s;
              Some (page # pages, s) })"

text \<open>
  The assertions only report. Without a free page the test therefore goes on with a null pointer and
  writes the word at address 0, which the page tables map: the model does the same.
\<close>

definition test_memory_management :: "'a memory_scheme \<Rightarrow> (u32 \<times> 'a memory_scheme) option" where
  "test_memory_management s =
     (let (page1, s) = get_physical_page s
      in do { s \<leftarrow> test_assert (page1 \<noteq> 0) ''page1 != NULL'' 136 s;
              let s = s\<lparr>mem := write_u64 (mem s) page1 0x12345678\<rparr>;
              s \<leftarrow> test_assert_eq (read_u64 (mem s) page1) 0x12345678 ''*test_ptr'' ''0x12345678'' 140 s;
              let s = free_physical_page page1 s;
              (pages, s) \<leftarrow> take_pages 3 s;
              Some (TEST_PASS, fold free_physical_page pages s) })"

definition test_interrupt_system :: "'a vga_scheme \<Rightarrow> (u32 \<times> 'a vga_scheme) option" where
  "test_interrupt_system s = Some (TEST_PASS, s)"

definition test_syscall_mechanism :: "'a vga_scheme \<Rightarrow> (u32 \<times> 'a vga_scheme) option" where
  "test_syscall_mechanism s = Some (TEST_PASS, s)"

definition test_vga_output :: "'a vga_scheme \<Rightarrow> (u32 \<times> 'a vga_scheme) option" where
  "test_vga_output s =
     (let original_color = (ucast (color s) :: u32);
          s = SetColor (color_value LIGHT_GREEN) s
      in do { s \<leftarrow> kprintf ''VGA'' [] s;
              let s = SetColor original_color s;
              s \<leftarrow> kprintf '' output test: '' [] s;
              Some (TEST_PASS, s) })"

definition test_process_management :: "u64 \<Rightarrow> 'a process_mgr_scheme \<Rightarrow> (u32 \<times> 'a process_mgr_scheme) option" where
  "test_process_management test_dummy_process s =
     do { s \<leftarrow> kprintf (CHR 0x0A # ''    [Testing process management...] '') [] s;
          (new, s) \<leftarrow> create_process test_dummy_process s;
          case new of
            None \<Rightarrow> do { s \<leftarrow> kprintcolor LIGHT_RED ''Process creation failed'' [] s; Some (TEST_FAIL, s) }
          | Some i \<Rightarrow>
              if pid (proc i s) = 0 then
                do { s \<leftarrow> kprintcolor LIGHT_RED ''Invalid PID assigned'' [] s; Some (TEST_FAIL, s) }
              else if state (proc i s) \<noteq> PROCESS_READY then
                do { s \<leftarrow> kprintcolor LIGHT_RED ''Process state not READY'' [] s; Some (TEST_FAIL, s) }
              else if kernel_stack (proc i s) = 0 \<or> user_stack (proc i s) = 0 then
                do { s \<leftarrow> kprintcolor LIGHT_RED ''Process stacks not allocated'' [] s; Some (TEST_FAIL, s) }
              else if c_rip (ctx (proc i s)) \<noteq> test_dummy_process then
                do { s \<leftarrow> kprintcolor LIGHT_RED ''Process entry point not set correctly'' [] s; Some (TEST_FAIL, s) }
              else
                do { s \<leftarrow> kprintcolor LIGHT_GREEN ''Process creation OK (PID: %d)'' [VInt (ucast (pid (proc i s)))] s;
                     Some (TEST_PASS, s) } }"

definition test_syscall_functions :: "u64 \<Rightarrow> 'a process_mgr_scheme \<Rightarrow> (u32 \<times> 'a process_mgr_scheme) option" where
  "test_syscall_functions table_addr s =
     do { s \<leftarrow> kprintf (CHR 0x0A # ''    [Testing syscall functions...] '') [] s;
          case get_current_process s of
            None \<Rightarrow>
              do { s \<leftarrow> kprintcolor LIGHT_YELLOW ''No current process - skipping syscall tests'' [] s; Some (TEST_SKIP, s) }
          | Some current \<Rightarrow>
              do { s \<leftarrow> kprintf (CHR 0x0A # ''        Current process PID: %d'') [VInt (ucast (pid (proc current s)))] s;
                   (result, s) \<leftarrow> sys_getpid_handler_real table_addr s;
                   let p = (ucast result :: u32);
                   s \<leftarrow> kprintf (CHR 0x0A # ''        sys_getpid returned: %d'') [VInt (ucast p)] s;
                   if p = 0 then
                     do { s \<leftarrow> kprintcolor LIGHT_RED ''sys_getpid returned 0 (should be > 0)'' [] s; Some (TEST_FAIL, s) }
                   else
                     do { s \<leftarrow> kprintcolor LIGHT_GREEN ''Basic syscall functionality OK'' [] s; Some (TEST_PASS, s) } } }"

text \<open>The two contexts of \<^verbatim>\<open>test_context_switching\<close> are local variables that nothing reads.\<close>

definition test_context_switching :: "'a vga_scheme \<Rightarrow> (u32 \<times> 'a vga_scheme) option" where
  "test_context_switching s =
     do { s \<leftarrow> kprintf (CHR 0x0A # ''    [Testing context switching...] '') [] s;
          s \<leftarrow> kprintcolor LIGHT_YELLOW ''Basic context structure OK (full test requires actual switch)'' [] s;
          Some (TEST_PASS, s) }"

fun run_test :: "u64 \<Rightarrow> u64 \<Rightarrow> test_fn \<Rightarrow> 'a process_mgr_scheme \<Rightarrow> (u32 \<times> 'a process_mgr_scheme) option" where
  "run_test dummy table_addr Test_basic_paging s = test_basic_paging s"
| "run_test dummy table_addr Test_kernel_mappings s = test_kernel_mappings s"
| "run_test dummy table_addr Test_memory_management s = test_memory_management s"
| "run_test dummy table_addr Test_interrupt_system s = test_interrupt_system s"
| "run_test dummy table_addr Test_syscall_mechanism s = test_syscall_mechanism s"
| "run_test dummy table_addr Test_vga_output s = test_vga_output s"
| "run_test dummy table_addr Test_process_management s = test_process_management dummy s"
| "run_test dummy table_addr Test_syscall_functions s = test_syscall_functions table_addr s"
| "run_test dummy table_addr Test_context_switching s = test_context_switching s"

definition print_test_results :: "'a test_state_scheme \<Rightarrow> 'a test_state_scheme option" where
  "print_test_results s =
     do { s \<leftarrow> kprintf [CHR 0x0A] [] s;
          s \<leftarrow> kprintcolor LIGHT_CYAN (''=== Test Results ==='' @ [CHR 0x0A]) [] s;
          s \<leftarrow> kprintf (''Total Tests:  %d'' @ [CHR 0x0A]) [VInt (ucast (test_count s))] s;
          s \<leftarrow> kprintcolor LIGHT_GREEN (''Passed:       %d'' @ [CHR 0x0A]) [VInt (ucast (tests_passed s))] s;
          s \<leftarrow> kprintcolor LIGHT_RED (''Failed:       %d'' @ [CHR 0x0A]) [VInt (ucast (tests_failed s))] s;
          s \<leftarrow> kprintcolor LIGHT_YELLOW (''Skipped:      %d'' @ [CHR 0x0A]) [VInt (ucast (tests_skipped s))] s;
          s \<leftarrow> kprintf [CHR 0x0A] [] s;
          s \<leftarrow> (if tests_failed s = 0
               then kprintcolor LIGHT_GREEN (''ALL TESTS PASSED! System is stable.'' @ [CHR 0x0A]) [] s
               else kprintcolor LIGHT_RED (''Some tests failed. System needs debugging.'' @ [CHR 0x0A]) [] s);
          kprintcolor LIGHT_CYAN (''================================'' @ [CHR 0x0A]) [] s }"

definition report_result :: "u32 \<Rightarrow> 'a test_state_scheme \<Rightarrow> 'a test_state_scheme option" where
  "report_result result s =
     (if result = TEST_PASS then do { s \<leftarrow> kprintcolor LIGHT_GREEN ''PASS'' [] s; Some (s\<lparr>tests_passed := tests_passed s + 1\<rparr>) }
      else if result = TEST_FAIL then do { s \<leftarrow> kprintcolor LIGHT_RED ''FAIL'' [] s; Some (s\<lparr>tests_failed := tests_failed s + 1\<rparr>) }
      else if result = TEST_SKIP then do { s \<leftarrow> kprintcolor LIGHT_YELLOW ''SKIP'' [] s; Some (s\<lparr>tests_skipped := tests_skipped s + 1\<rparr>) }
      else Some s)"

partial_function (option) run_tests_loop :: "u64 \<Rightarrow> u64 \<Rightarrow> u32 \<Rightarrow> 'a test_state_scheme \<Rightarrow> 'a test_state_scheme option" where
  "run_tests_loop dummy table_addr i s =
     (if i < test_count s then
        do { s \<leftarrow> kprintf ''[%d/%d] %s: '' [VInt (ucast (i + 1)), VInt (ucast (test_count s)), VStr (tc_name (test_cases s ! unat i))] s;
             f \<leftarrow> tc_function (test_cases s ! unat i);
             (result, s) \<leftarrow> run_test dummy table_addr f s;
             s \<leftarrow> report_result result s;
             s \<leftarrow> kprintf ('' - %s'' @ [CHR 0x0A]) [VStr (tc_description (test_cases s ! unat i))] s;
             run_tests_loop dummy table_addr (i + 1) s }
      else Some s)"

definition run_all_tests :: "u64 \<Rightarrow> u64 \<Rightarrow> 'a test_state_scheme \<Rightarrow> 'a test_state_scheme option" where
  "run_all_tests dummy table_addr s =
     do { s \<leftarrow> kprintf [CHR 0x0A] [] s;
          s \<leftarrow> kprintcolor LIGHT_CYAN (''=== Starting M12 OS Test Suite ==='' @ [CHR 0x0A]) [] s;
          s \<leftarrow> kprintf (''Running %d tests...'' @ [CHR 0x0A, CHR 0x0A]) [VInt (ucast (test_count s))] s;
          s \<leftarrow> run_tests_loop dummy table_addr 0 s;
          print_test_results s }"

end
