(* ===== verification/Test_Properties.thy ===== *)
theory Test_Properties
  imports TestSuite
begin

text \<open>
  What the test suite promises: it returns on every state of a started kernel, its verdicts
  are as stated below, and it leaves the kernel as it was but for the process it creates.
\<close>

subsection \<open>Steps that leave processes and free pages alone\<close>

definition keeps :: "('a process_mgr_scheme \<Rightarrow> 'a process_mgr_scheme option) \<Rightarrow> bool" where
  "keeps f \<longleftrightarrow> (\<forall>s. alloc_ok s \<longrightarrow> cursor_ok s \<longrightarrow> (\<exists>t. f s = Some t \<and> kept (avail_pages s) s t))"

lemma keepsE:
  assumes "keeps f" "alloc_ok s" "cursor_ok s"
  obtains t where "f s = Some t" "kept (avail_pages s) s t"
  using assms unfolding keeps_def by blast

lemma screen_only_kept:
  assumes "alloc_ok s" "screen_only s t" "cursor_ok t"
  shows "kept (avail_pages s) s t"
  using screen_only_alloc_ok [OF assms(2,1)] screen_only_avail [OF assms(2,1)]
    mm_only_proc_view [OF screen_only_mm_only [OF assms(2)]] mm_only_all_pages [OF screen_only_mm_only [OF assms(2)]] assms(3)
  unfolding kept_def by blast

lemma keeps_prints: "prints f \<Longrightarrow> keeps f"
  unfolding keeps_def using printsD screen_only_kept by blast

lemma kept_avail: "kept (avail_pages s) s t \<Longrightarrow> kept A s u \<Longrightarrow> kept (avail_pages t) t v \<Longrightarrow> kept (avail_pages s) s v"
  by (metis kept_trans keptD(9))

lemma prints_assert:
  assumes "fmt_ok ''Assertion failed: %s at %s:%d'' [VStr (lit e), VStr (lit ''kernel/test.c''), VInt l]"
  shows "prints (\<lambda>s. test_assert (P s) e l s)"
  unfolding test_assert_def by (intro prints_ok) (rule assms)

lemma prints_asserts:
  "prints (\<lambda>s. test_assert (P s) ''pml4 != NULL'' 104 s)" "prints (\<lambda>s. test_assert (P s) ''cr3 != 0'' 108 s)"
  "prints (\<lambda>s. test_assert (P s) ''page1 != NULL'' 136 s)" "prints (\<lambda>s. test_assert (P s) ''pages[i] != NULL'' 147 s)"
  by (rule prints_assert; simp add: lit_def bytes_of_def clear_line_seq_def)+

subsection \<open>Pages\<close>

lemma get_physical_page_any:
  assumes "alloc_ok s" "cursor_ok s" "get_physical_page s = (p, t)"
  shows "kept (avail_pages s - {p}) s t" "p = 0 \<or> p \<in> avail_pages s"
proof -
  have "kept (avail_pages s - {p}) s t \<and> (p = 0 \<or> p \<in> avail_pages s)"
  proof (cases "avail_pages s = {}")
    case True
    then have "p = 0" "t = s" using pa.alloc_none [OF assms(1)] assms(3) by auto
    then show ?thesis using True kept_refl [OF assms(1,2)] by simp
  next
    case False
    then show ?thesis using get_physical_page_kept [OF assms False] by blast
  qed
  then show "kept (avail_pages s - {p}) s t" "p = 0 \<or> p \<in> avail_pages s" by blast+
qed

lemma free_physical_page_any:
  assumes "alloc_ok s" "cursor_ok s" "p = 0 \<or> p \<in> all_pages s"
  shows "kept (avail_pages s \<union> ({p} - {0})) s (free_physical_page p s)"
proof (cases "p \<in> all_pages s - avail_pages s")
  case True
  then have "p \<noteq> 0" using pa.null_page [OF assms(1)] by blast
  then show ?thesis using free_physical_page_kept [OF assms(1,2) True] by (simp add: insert_Diff_if)
next
  case False
  then have "avail_pages s \<union> ({p} - {0}) = avail_pages s" using assms(3) by auto
  then show ?thesis using pa.release_other [OF assms(1) False] kept_refl [OF assms(1,2)] by simp
qed

lemma free_all_any:
  assumes "alloc_ok s" "cursor_ok s" "\<forall>p \<in> set ps. p = 0 \<or> p \<in> all_pages s"
  shows "kept (avail_pages s \<union> (set ps - {0})) s (fold free_physical_page ps s)"
  using assms
proof (induction ps arbitrary: s)
  case Nil
  then show ?case using kept_refl by simp
next
  case (Cons p ps)
  let ?t = "free_physical_page p s"
  have k: "kept (avail_pages s \<union> ({p} - {0})) s ?t" using Cons.prems by (intro free_physical_page_any) auto
  have "kept (avail_pages ?t \<union> (set ps - {0})) ?t (fold free_physical_page ps ?t)"
    using Cons.prems(3) keptD(7,8,10) [OF k] by (intro Cons.IH) auto
  then have "kept (avail_pages s \<union> ({p} - {0}) \<union> (set ps - {0})) s (fold free_physical_page ps ?t)"
    using kept_trans [OF k] keptD(9) [OF k] by simp
  moreover have "avail_pages s \<union> ({p} - {0}) \<union> (set ps - {0}) = avail_pages s \<union> (set (p # ps) - {0})" by auto
  ultimately show ?case by simp
qed

lemma take_pages_any:
  assumes "alloc_ok s" "cursor_ok s"
  shows "\<exists>ps t. take_pages n s = Some (ps, t) \<and> kept (avail_pages s - set ps) s t \<and> set ps \<subseteq> insert 0 (avail_pages s)"
  using assms
proof (induction n arbitrary: s)
  case 0
  then show ?case using kept_refl by simp
next
  case (Suc n)
  obtain p t where g: "get_physical_page s = (p, t)" by (rule prod.exhaust)
  note k = get_physical_page_any [OF Suc.prems g]
  obtain u where u: "test_assert (p \<noteq> 0) ''pages[i] != NULL'' 147 t = Some u" "kept (avail_pages t) t u"
    using keepsE [OF keeps_prints [OF prints_asserts(4) [where P = "\<lambda>_. p \<noteq> 0"]] keptD(7,8) [OF k(1)]] by blast
  obtain ps v where v: "take_pages n u = Some (ps, v)" "kept (avail_pages u - set ps) u v" "set ps \<subseteq> insert 0 (avail_pages u)"
    using Suc.IH [OF keptD(7,8) [OF u(2)]] by blast
  have a: "avail_pages u = avail_pages s - {p}" using keptD(9) [OF u(2)] keptD(9) [OF k(1)] by simp
  have "avail_pages u - set ps = avail_pages s - set (p # ps)" unfolding a by auto
  with kept_trans [OF k(1) kept_trans [OF u(2) v(2)]] have "kept (avail_pages s - set (p # ps)) s v" by simp
  then show ?case using g u(1) v(1,3) k(2) a by auto
qed

lemma poke_kept:
  assumes "alloc_ok s" "cursor_ok s" "region p 8 \<inter> bitmap_area = {}"
  shows "kept (avail_pages s) s (s\<lparr>mem := write_u64 (mem s) p v\<rparr>)"
proof -
  let ?t = "s\<lparr>mem := write_u64 (mem s) p v\<rparr>"
  have ag: "agree_off (region p 8) (mem s) (mem ?t)" using write_u64_off by (auto simp: agree_off_def)
  have "alloc_ok ?t" "avail_pages ?t = avail_pages s" using alloc_ok_write [OF assms(1) _ ag assms(3)] by simp_all
  moreover have "cursor_ok ?t" using cursor_ok_regs [of ?t s] assms(2) by simp
  ultimately show ?thesis by (simp add: kept_def proc_view_def hw_view_def all_pages_def)
qed


lemma page_off_bitmap:
  assumes "alloc_ok s" "p = 0 \<or> p \<in> avail_pages s"
  shows "region p 8 \<inter> bitmap_area = {}"
proof (cases "p = 0")
  case True
  then show ?thesis by (auto simp: region_iff bitmap_area_iff)
next
  case False
  then obtain i where i: "p = page_addr i" "i < total_pages s" using assms(2) by (auto simp: avail_pages_def free_pages_def)
  have "alloc_bounds s" using assms(1) by (simp add: alloc_ok_def)
  then have "region p 4096 \<inter> bitmap_area = {}" using page_disjoint(1) i by simp
  moreover have "region p 8 \<subseteq> region p 4096" by (auto simp: region_def)
  ultimately show ?thesis by blast
qed

lemma test_memory_management_ok:
  assumes "alloc_ok s" "cursor_ok s"
  shows "\<exists>t. test_memory_management s = Some (TEST_PASS, t) \<and> kept (avail_pages s) s t"
proof -
  obtain p t where g: "get_physical_page s = (p, t)" by (rule prod.exhaust)
  note k = get_physical_page_any [OF assms g]
  obtain u where u: "test_assert (p \<noteq> 0) ''page1 != NULL'' 136 t = Some u" "kept (avail_pages t) t u"
    using keepsE [OF keeps_prints [OF prints_asserts(3) [where P = "\<lambda>_. p \<noteq> 0"]] keptD(7,8) [OF k(1)]] by blast
  have su: "kept (avail_pages s - {p}) s u" using kept_trans [OF k(1) u(2)] keptD(9) [OF k(1)] by simp
  let ?v = "u\<lparr>mem := write_u64 (mem u) p 0x12345678\<rparr>"
  have "kept (avail_pages u) u ?v"
    using poke_kept [OF keptD(7,8) [OF su] page_off_bitmap [OF assms(1) k(2)]] .
  then have sv: "kept (avail_pages s - {p}) s ?v" using kept_trans [OF su] keptD(9) [OF su] by simp
  let ?w = "free_physical_page p ?v"
  have pg: "avail_pages s \<subseteq> all_pages s" "0 \<notin> avail_pages s" using pa.avail_pages [OF assms(1)] pa.null_page [OF assms(1)] by blast+
  have "kept (avail_pages s - {p} \<union> ({p} - {0})) ?v ?w"
    using free_physical_page_any [OF keptD(7,8) [OF sv]] keptD(9,10) [OF sv] k(2) pg by auto
  moreover have "avail_pages s - {p} \<union> ({p} - {0}) = avail_pages s" using k(2) pg by auto
  ultimately have sw: "kept (avail_pages s) s ?w" using kept_trans [OF sv] by simp
  obtain ps x where x: "take_pages 3 ?w = Some (ps, x)" "kept (avail_pages ?w - set ps) ?w x" "set ps \<subseteq> insert 0 (avail_pages ?w)"
    using take_pages_any [OF keptD(7,8) [OF sw]] by blast
  have sx: "kept (avail_pages s - set ps) s x" using kept_trans [OF sw x(2)] keptD(9) [OF sw] by simp
  have "kept (avail_pages x \<union> (set ps - {0})) x (fold free_physical_page ps x)"
    using x(3) keptD(9) [OF sw] keptD(10) [OF sx] pg by (intro free_all_any [OF keptD(7,8) [OF sx]]) auto
  moreover have "avail_pages x \<union> (set ps - {0}) = avail_pages s"
    using x(3) keptD(9) [OF sw] keptD(9) [OF sx] pg by auto
  ultimately have "kept (avail_pages s) s (fold free_physical_page ps x)" using kept_trans [OF sx] by simp
  moreover have "test_memory_management s = Some (TEST_PASS, fold free_physical_page ps x)"
    by (simp add: test_memory_management_def g u(1) x(1) test_assert_eq_def)
  ultimately show ?thesis by blast
qed

subsection \<open>The tests\<close>

lemma prints_test_vga_output: "\<exists>t. test_vga_output s = Some (TEST_PASS, t) \<and> cursor_ok t \<and> screen_only s t" if "cursor_ok s"
proof -
  let ?c = "s\<lparr>color := ucast (color_value LIGHT_GREEN)\<rparr>"
  have c: "cursor_ok ?c" using that cursor_ok_regs [of ?c s] by simp
  have f: "fmt_ok ''VGA'' []" "fmt_ok '' output test: '' []" by simp_all
  obtain t where t: "kprintf ''VGA'' [] ?c = Some t" "cursor_ok t" "screen_only ?c t" using kprintf_ok [OF f(1) c] by blast
  let ?u = "t\<lparr>color := color s\<rparr>"
  have u: "screen_only s ?u" by (rule recolor_screen_only [OF t(3)])
  have "cursor_ok ?u" using t(2) cursor_ok_regs [of ?u t] by simp
  from kprintf_ok [OF f(2) this] obtain v where v: "kprintf '' output test: '' [] ?u = Some v" "cursor_ok v" "screen_only ?u v" by blast
  have "(ucast (ucast (color s) :: u32) :: u8) = color s" by (rule bit_word_eqI) (simp add: bit_simps)
  then have "test_vga_output s = Some (TEST_PASS, v)"
    using t(1) v(1) by (simp add: test_vga_output_def SetColor_def Let_def)
  then show ?thesis using v(2) screen_only_trans [OF u v(3)] by blast
qed


lemma keeps_return:
  assumes "keeps f" "alloc_ok s" "cursor_ok s"
  shows "\<exists>t. f s \<bind> (\<lambda>s. Some (r, s)) = Some (r, t) \<and> kept (avail_pages s) s t"
  using keepsE [OF assms] by (metis bind.bind_lunit)

lemma test_syscall_functions_ok:
  assumes "live s" "current_process s = Some c"
  shows "\<exists>t. test_syscall_functions a s = Some (TEST_PASS, t) \<and> kept (avail_pages s) s t"
proof -
  have o: "proc_ok s" "pid (proc c s) \<noteq> 0" using assms by (auto elim!: liveE)
  have f: "fmt_ok (CHR 0x0A # ''    [Testing syscall functions...] '') []" "fmt_ok (CHR 0x0A # ''        Current process PID: %d'') [VInt x]"
    "fmt_ok (CHR 0x0A # ''        sys_getpid returned: %d'') [VInt x]" "fmt_ok ''Basic syscall functionality OK'' []" for x by simp_all
  have k: "keeps (kprintf fmt args)" if "fmt_ok fmt args" for fmt args using that by (intro keeps_prints prints_ok)
  have kc: "keeps (kprintcolor col fmt args)" if "fmt_ok fmt args" for col fmt args using that by (intro keeps_prints prints_ok)
  obtain t where t: "kprintf (CHR 0x0A # ''    [Testing syscall functions...] '') [] s = Some t" "kept (avail_pages s) s t"
    using keepsE [OF k [OF f(1)] proc_okD(2,3) [OF o(1)]] .
  obtain u where u: "kprintf (CHR 0x0A # ''        Current process PID: %d'') [VInt (ucast (pid (proc c s)))] t = Some u" "kept (avail_pages t) t u"
    using keepsE [OF k [OF f(2)] keptD(7,8) [OF t(2)]] .
  have su: "kept (avail_pages s) s u" using kept_trans [OF t(2) u(2)] keptD(9) [OF t(2)] by simp
  have lu: "live u" "current_process u = Some c" using kept_proc_ok [OF o(1) su] keptD(2) [OF su] assms(2) by (simp_all add: live_def)
  have g: "sys_getpid_handler_real a u = Some (ucast (pid (proc c s)), u)" using sys_getpid_ok [OF lu] keptD(11) [OF su] by simp
  obtain v where v: "kprintf (CHR 0x0A # ''        sys_getpid returned: %d'') [VInt (ucast (pid (proc c s)))] u = Some v" "kept (avail_pages u) u v"
    using keepsE [OF k [OF f(3)] keptD(7,8) [OF su]] .
  obtain w where w: "kprintcolor LIGHT_GREEN ''Basic syscall functionality OK'' [] v = Some w" "kept (avail_pages v) v w"
    using keepsE [OF kc [OF f(4)] keptD(7,8) [OF v(2)]] .
  have "(ucast (ucast (pid (proc c s)) :: u64) :: u32) = pid (proc c s)" by (rule bit_word_eqI) (simp add: bit_simps)
  then have "test_syscall_functions a s = Some (TEST_PASS, w)"
    unfolding test_syscall_functions_def t(1) get_current_process_def using keptD(2,11) [OF t(2)] assms(2) u(1) g v(1) w(1) o(2) by simp
  moreover have "kept (avail_pages s) s w"
    using kept_trans [OF su kept_trans [OF v(2) w(2)]] keptD(9) [OF v(2)] keptD(9) [OF su] by simp
  ultimately show ?thesis by blast
qed

lemma run_test_quiet:
  assumes "live s" "f \<noteq> Test_process_management"
  shows "\<exists>t. run_test d a f s = Some (TEST_PASS, t) \<and> kept (avail_pages s) s t"
proof -
  obtain c where c: "proc_ok s" "current_process s = Some c" using assms(1) by (rule liveE)
  note o = proc_okD(2,3) [OF c(1)]
  have same: "kept (avail_pages s) s s" by (rule kept_refl [OF o])
  show ?thesis
  proof (cases f)
    case Test_basic_paging
    have "prints (\<lambda>s :: 'a process_mgr_scheme. test_assert (get_kernel_page_table s \<noteq> 0) ''pml4 != NULL'' 104 s \<bind> (\<lambda>s. test_assert (cr3 s \<noteq> 0) ''cr3 != 0'' 108 s))"
      by (intro prints_bind prints_asserts)
    from keeps_return [OF keeps_prints [OF this] o] Test_basic_paging show ?thesis by (simp add: test_basic_paging_def)
  next
    case Test_kernel_mappings
    have "prints (\<lambda>s :: 'a process_mgr_scheme. kprintf (CHR 0x0A # ''    [Testing kernel mappings...] '') [] s \<bind> kprintcolor LIGHT_GREEN ''Kernel mapping calculations OK'' [])"
      by (intro prints_ok) simp_all
    from keeps_return [OF keeps_prints [OF this] o, of TEST_PASS] Test_kernel_mappings show ?thesis
      by (simp add: test_kernel_mappings_def get_physical_address_def PML4_INDEX_def)
  next
    case Test_memory_management
    then show ?thesis using test_memory_management_ok [OF o] by simp
  next
    case Test_vga_output
    then show ?thesis using prints_test_vga_output [OF o(2)] screen_only_kept [OF o(1)] by auto
  next
    case Test_syscall_functions
    then show ?thesis using test_syscall_functions_ok [OF assms(1) c(2)] by simp
  next
    case Test_context_switching
    have "prints (\<lambda>s :: 'a process_mgr_scheme. kprintf (CHR 0x0A # ''    [Testing context switching...] '') [] s
        \<bind> kprintcolor LIGHT_YELLOW ''Basic context structure OK (full test requires actual switch)'' [])"
      by (intro prints_ok) simp_all
    from keeps_return [OF keeps_prints [OF this] o] Test_context_switching show ?thesis by (simp add: test_context_switching_def)
  qed (use assms(2) same in \<open>simp_all add: test_interrupt_system_def test_syscall_mechanism_def\<close>)
qed


definition can_create :: "'a process_mgr_scheme \<Rightarrow> bool" where
  "can_create s \<longleftrightarrow> find_free_slot s \<noteq> None \<and> 2 \<le> card (avail_pages s)"

lemma created_process:
  assumes "proc_ok s" "create_process e s = Some (Some i, t)" "created s (Some i) t"
  shows "kernel_stack (proc i t) \<noteq> 0" "user_stack (proc i t) \<noteq> 0" "c_rip (ctx (proc i t)) = e" "pid (proc i t) \<noteq> 0"
    "state (proc i t) = PROCESS_READY"
proof -
  note o = proc_okD [OF assms(1)] and d = createdD [OF assms(3)]
  have slot: "find_free_slot s = Some i" "2 \<le> card (avail_pages s)" using d(6,12) by auto
  have i: "i < 64" using find_free_slotD(1) [OF slot(1)] .
  obtain w k u where w: "create_process e s = Some (Some i, w)" "k \<in> avail_pages s" "u \<in> avail_pages s"
    and kp: "kept (avail_pages s - {k, u}) ((claim_slot i (\<lambda>p. p\<lparr>kernel_stack := k, user_stack := u, ctx := entry_context e k\<rparr>) s)
        \<lparr>process_count := process_count s + 1\<rparr>) w"
    using create_process_created [OF o(2,3) slot(1) o(1) slot(2)] by blast
  have "t = w" using w(1) assms(2) by simp
  then have p: "proc i t = (claimed s (proc i s))\<lparr>kernel_stack := k, user_stack := u, ctx := entry_context e k\<rparr>"
    using keptD(11) [OF kp, of i] i o(1) by (simp add: proc_claim_slot)
  have "0 \<notin> avail_pages s" using pa.avail_pages [OF o(2)] pa.null_page [OF o(2)] by blast
  with w(2,3) p show "kernel_stack (proc i t) \<noteq> 0" "user_stack (proc i t) \<noteq> 0" "c_rip (ctx (proc i t)) = e"
    by (auto simp: entry_context_def)
  show "state (proc i t) = PROCESS_READY" using d(11) by simp
  have "i \<in> used t" using d(5) slot(1) by simp
  then show "pid (proc i t) \<noteq> 0" using proc_okD(4) [OF d(1)] by (auto simp: pids_ok_def)
qed

lemma test_process_management_ok:
  assumes "live s"
  shows "\<exists>t. test_process_management e s = Some (if can_create s then TEST_PASS else TEST_FAIL, t)
    \<and> live t \<and> pids_kept s t \<and> used t = used s \<union> set_option (find_free_slot s)"
proof -
  obtain c where c: "proc_ok s" "current_process s = Some c" using assms by (rule liveE)
  have f: "fmt_ok (CHR 0x0A # ''    [Testing process management...] '') []" "fmt_ok ''Process creation failed'' []"
    "fmt_ok ''Process creation OK (PID: %d)'' [VInt x]" for x by simp_all
  have "keeps (kprintf (CHR 0x0A # ''    [Testing process management...] '') [])" by (intro keeps_prints prints_ok) (rule f(1))
  then obtain u where u: "kprintf (CHR 0x0A # ''    [Testing process management...] '') [] s = Some u" "kept (avail_pages s) s u"
    using proc_okD(2,3) [OF c(1)] by (rule keepsE)
  have pu: "proc_ok u" "pids_kept s u" "used u = used s" "find_free_slot u = find_free_slot s" "can_create u = can_create s"
    using kept_proc_ok [OF c(1) u(2)] keptD(1,9) [OF u(2)] find_free_slot_cong [OF keptD(1) [OF u(2)]]
    by (auto simp: used_def proc_def can_create_def)
  obtain r w where w: "create_process e u = Some (r, w)" "created u r w" using create_process_ok [OF pu(1)] by blast
  note d = createdD [OF w(2)]
  have r: "r \<noteq> None \<longleftrightarrow> can_create s" using d(12) pu(5) by (simp add: can_create_def)
  let ?msg = "case r of None \<Rightarrow> kprintcolor LIGHT_RED ''Process creation failed'' []
    | Some i \<Rightarrow> kprintcolor LIGHT_GREEN ''Process creation OK (PID: %d)'' [VInt (ucast (pid (proc i w)))]"
  have "keeps ?msg" using f(2,3) by (cases r) (auto intro!: keeps_prints prints_ok)
  then obtain t where t: "?msg w = Some t" "kept (avail_pages w) w t" using proc_okD(2,3) [OF d(1)] by (rule keepsE)
  have pt: "proc_ok t" "pids_kept w t" "used t = used w" "current_process t = Some c"
    using kept_proc_ok [OF d(1) t(2)] keptD(1,2) [OF t(2)] d(3) keptD(2) [OF u(2)] c(2) by (auto simp: used_def proc_def)
  have "test_process_management e s = Some (if can_create s then TEST_PASS else TEST_FAIL, t)"
  proof (cases r)
    case None
    then show ?thesis using r u(1) w(1) t(1) by (simp add: test_process_management_def)
  next
    case (Some i)
    then show ?thesis using r u(1) w(1) t(1) created_process [OF pu(1), of e i w] w(2) by (simp add: test_process_management_def)
  qed
  moreover have "used t = used s \<union> set_option (find_free_slot s)" using pt(3) d(5) pu(3,4) by simp
  ultimately show ?thesis
    using pt(1,4) pids_kept_trans [OF pu(2) pids_kept_trans [OF d(2) pt(2)]] by (auto simp: live_def)
qed


subsection \<open>The suite\<close>

fun case_of :: "string \<times> test_fn \<times> string \<Rightarrow> test_case_t" where
  "case_of (n, f, d) = \<lparr>tc_name = lit n, tc_function = Some f, tc_description = lit d\<rparr>"

definition suite :: "(string \<times> test_fn \<times> string) list" where
  "suite =
     [(''Basic Paging'', Test_basic_paging, ''Test basic paging functionality''),
      (''Kernel Mappings'', Test_kernel_mappings, ''Test kernel virtual address mappings''),
      (''Memory Management'', Test_memory_management, ''Test physical memory allocation''),
      (''Interrupt System'', Test_interrupt_system, ''Test interrupt handling''),
      (''Syscall Mechanism'', Test_syscall_mechanism, ''Test system call infrastructure''),
      (''VGA Output'', Test_vga_output, ''Test VGA text output''),
      (''Process Management'', Test_process_management, ''Test process creation and management''),
      (''Syscall Functions'', Test_syscall_functions, ''Test system call implementations''),
      (''Context Switching'', Test_context_switching, ''Test process context switching'')]"

lemma add_tests:
  assumes "length (test_cases s) = 50" "unat (test_count s) + length ts \<le> 50"
  shows "fold (\<lambda>(n, f, d). add_test n f d) ts s = s\<lparr>test_count := test_count s + of_nat (length ts),
    test_cases := take (unat (test_count s)) (test_cases s) @ map case_of ts @ drop (unat (test_count s) + length ts) (test_cases s)\<rparr>"
  using assms
proof (induction ts arbitrary: s)
  case (Cons c ts)
  obtain n f d where c: "c = (n, f, d)" by (rule prod_cases3)
  let ?i = "unat (test_count s)"
  have lt: "test_count s < 50" "?i < 50" using Cons.prems(2) by (simp_all add: word_less_nat_alt)
  have i1: "unat (test_count s + 1) = ?i + 1" using unat_plus_one [OF lt(1)] by simp
  define t where "t = s\<lparr>test_count := test_count s + 1, test_cases := (test_cases s)[?i := case_of c]\<rparr>"
  have "add_test n f d s = t" using lt(1) by (simp add: add_test_def t_def c)
  then have "fold (\<lambda>(n, f, d). add_test n f d) (c # ts) s = fold (\<lambda>(n, f, d). add_test n f d) ts t" by (simp add: c)
  also have "\<dots> = t\<lparr>test_count := test_count t + of_nat (length ts),
      test_cases := take (unat (test_count t)) (test_cases t) @ map case_of ts @ drop (unat (test_count t) + length ts) (test_cases t)\<rparr>"
    using Cons.prems i1 by (intro Cons.IH) (simp_all add: t_def)
  also have "take (unat (test_count t)) (test_cases t) = take ?i (test_cases s) @ [case_of c]"
    using lt(2) Cons.prems(1) i1 by (simp add: t_def take_Suc_conv_app_nth)
  also have "drop (unat (test_count t) + length ts) (test_cases t) = drop (?i + length (c # ts)) (test_cases s)"
    using i1 by (simp add: t_def)
  finally show ?case by (simp add: t_def)
qed simp

lemma init_test_suite_result:
  assumes "length (test_cases s) = 50"
  shows "init_test_suite s = s\<lparr>test_count := 9, tests_passed := 0, tests_failed := 0, tests_skipped := 0,
    test_cases := map case_of suite @ drop 9 (test_cases s)\<rparr>"
proof -
  let ?s = "s\<lparr>test_count := 0, tests_passed := 0, tests_failed := 0, tests_skipped := 0\<rparr>"
  have "init_test_suite s = fold (\<lambda>(n, f, d). add_test n f d) suite ?s"
    by (simp add: init_test_suite_def suite_def Let_def)
  also have "\<dots> = ?s\<lparr>test_count := test_count ?s + of_nat (length suite),
      test_cases := take (unat (test_count ?s)) (test_cases ?s) @ map case_of suite @ drop (unat (test_count ?s) + length suite) (test_cases ?s)\<rparr>"
    using assms by (intro add_tests) (simp_all add: suite_def)
  also have "length suite = 9" by (simp add: suite_def)
  finally show ?thesis by (cases s) simp
qed

definition bump :: "u32 \<Rightarrow> 'a test_state_scheme \<Rightarrow> 'a test_state_scheme" where
  "bump r s = (if r = TEST_PASS then s\<lparr>tests_passed := tests_passed s + 1\<rparr> else s\<lparr>tests_failed := tests_failed s + 1\<rparr>)"

lemma more_tests:
  fixes s t :: "'a test_state_scheme"
  assumes "process_mgr.more t = process_mgr.more s"
  shows "test_cases t = test_cases s" "test_count t = test_count s" "tests_passed t = tests_passed s"
    "tests_failed t = tests_failed s" "tests_skipped t = tests_skipped s" "syscall_table t = syscall_table s"
  using assms by (cases s, cases t, simp)+

lemma bump_views [simp]:
  "alloc_ok (bump r s) = alloc_ok s" "avail_pages (bump r s) = avail_pages s" "cursor_ok (bump r s) = cursor_ok s"
  "proc i (bump r s) = proc i s" "processes (bump r s) = processes s" "current_process (bump r s) = current_process s"
  "next_pid (bump r s) = next_pid s" "process_count (bump r s) = process_count s" "regs (bump r s) = regs s"
  "kernel_pml4 (bump r s) = kernel_pml4 s" "hw_view (bump r s) = hw_view s" "all_pages (bump r s) = all_pages s"
  "test_cases (bump r s) = test_cases s" "test_count (bump r s) = test_count s"
proof -
  have v: "mem (bump r s) = mem s" "memory_map (bump r s) = memory_map s" "total_pages (bump r s) = total_pages s"
    "used_pages (bump r s) = used_pages s" "memory_start (bump r s) = memory_start s" "memory_end (bump r s) = memory_end s"
    by (simp_all add: bump_def)
  show "alloc_ok (bump r s) = alloc_ok s" "avail_pages (bump r s) = avail_pages s" using alloc_view [OF v] by blast+
  show "cursor_ok (bump r s) = cursor_ok s" by (rule cursor_ok_regs) (simp add: bump_def)
qed (simp_all add: bump_def proc_def hw_view_def all_pages_def)

lemma more_bump:
  assumes "process_mgr.more t = process_mgr.more s"
  shows "process_mgr.more (bump r t) = process_mgr.more (bump r s)"
  using assms by (cases s; cases t) (simp add: bump_def)

lemma kept_bump: "kept A s t \<Longrightarrow> kept A (bump r s) (bump r t)"
  using more_bump [of t s r] by (auto simp: kept_def proc_view_def)

lemma live_bump [simp]: "live (bump r s) = live s" "used (bump r s) = used s" "find_free_slot (bump r s) = find_free_slot s"
proof -
  show u: "used (bump r s) = used s" by (simp add: used_def)
  show "find_free_slot (bump r s) = find_free_slot s" by (simp add: find_free_slot_def)
  show "live (bump r s) = live s" by (simp add: live_def proc_ok_def pids_ok_def stacks_ok_def sps_ok_def current_ok_def u)
qed


definition printable :: "string \<Rightarrow> bool" where
  "printable n \<longleftrightarrow> (0 :: u8) \<in> set (bytes_of n @ [0]) \<and> takeWhile (\<lambda>b. b \<noteq> 0) (bytes_of n @ [0]) \<noteq> clear_line_seq"

lemma printable_suite: "\<forall>(n, f, d) \<in> set suite. printable n \<and> printable d"
  by (simp add: suite_def printable_def bytes_of_def clear_line_seq_def)

text \<open>One pass of the loop: the test runs on a state that differs from \<open>s\<close> in the screen only.\<close>

lemma run_tests_step:
  assumes "live s" "i < test_count s" "test_cases s ! unat i = case_of (n, f, d)" "printable n" "printable d"
  shows "\<exists>u. kept (avail_pages s) s u \<and>
    (\<forall>r v. run_test e a f u = Some (r, v) \<longrightarrow> r = TEST_PASS \<or> r = TEST_FAIL \<longrightarrow> live v \<longrightarrow> pids_kept u v \<longrightarrow>
      (\<exists>t. run_tests_loop e a i s = run_tests_loop e a (i + 1) t \<and> kept (avail_pages v) (bump r v) t))"
proof -
  have o: "alloc_ok s" "cursor_ok s" using assms(1) proc_okD(2,3) by (auto simp: live_def)
  have "keeps (kprintf ''[%d/%d] %s: '' [VInt (ucast (i + 1)), VInt (ucast (test_count s)), VStr (lit n)])"
    by (intro keeps_prints prints_ok) (use assms(4) in \<open>simp add: lit_def printable_def\<close>)
  then obtain u where u: "kprintf ''[%d/%d] %s: '' [VInt (ucast (i + 1)), VInt (ucast (test_count s)), VStr (lit n)] s = Some u"
    "kept (avail_pages s) s u" using o by (rule keepsE)
  note mu = more_tests [OF keptD(12) [OF u(2)]]
  have "\<exists>t. run_tests_loop e a i s = run_tests_loop e a (i + 1) t \<and> kept (avail_pages v) (bump r v) t"
    if v: "run_test e a f u = Some (r, v)" "r = TEST_PASS \<or> r = TEST_FAIL" "live v" "pids_kept u v" for r v
  proof -
    have ov: "alloc_ok v" "cursor_ok v" using v(3) proc_okD(2,3) by (auto simp: live_def)
    let ?p = "if r = TEST_PASS then kprintcolor LIGHT_GREEN ''PASS'' [] else kprintcolor LIGHT_RED ''FAIL'' []"
    have "keeps ?p" by (auto intro!: keeps_prints prints_ok)
    then obtain w where w: "?p v = Some w" "kept (avail_pages v) v w" using ov by (rule keepsE)
    have rep: "report_result r v = Some (bump r w)" using v(2) w(1) by (auto simp: report_result_def bump_def)
    have bw: "kept (avail_pages v) (bump r v) (bump r w)" by (rule kept_bump [OF w(2)])
    have m: "process_mgr.more w = process_mgr.more u" using keptD(12) [OF w(2)] v(4) by (simp add: pids_kept_def)
    have "keeps (kprintf ('' - %s'' @ [CHR 0x0A]) [VStr (lit d)])"
      by (intro keeps_prints prints_ok) (use assms(5) in \<open>simp add: lit_def printable_def\<close>)
    then obtain t where t: "kprintf ('' - %s'' @ [CHR 0x0A]) [VStr (lit d)] (bump r w) = Some t" "kept (avail_pages (bump r w)) (bump r w) t"
      using keptD(7,8) [OF bw] by (rule keepsE)
    have "run_tests_loop e a i s = run_tests_loop e a (i + 1) t"
      using assms(2,3) u(1) v(1) rep t(1) more_tests(1) [OF m] mu(1)
      by (subst run_tests_loop.simps) simp
    then show ?thesis using kept_trans [OF bw t(2)] keptD(9) [OF w(2)] by auto
  qed
  then show ?thesis using u(2) by blast
qed

definition quiet_case :: "test_case_t \<Rightarrow> bool" where
  "quiet_case c \<longleftrightarrow> (\<exists>n f d. c = case_of (n, f, d) \<and> printable n \<and> printable d \<and> f \<noteq> Test_process_management)"

lemma run_tests_quiet:
  assumes "live s" "unat i + k \<le> unat (test_count s)" "\<forall>j. unat i \<le> j \<and> j < unat i + k \<longrightarrow> quiet_case (test_cases s ! j)"
  shows "\<exists>t. run_tests_loop e a i s = run_tests_loop e a (i + of_nat k) t \<and> kept (avail_pages s) ((bump TEST_PASS ^^ k) s) t"
  using assms
proof (induction k arbitrary: i s)
  case 0
  then show ?case using kept_refl proc_okD(2,3) by (fastforce simp: live_def)
next
  case (Suc k)
  have lt: "i < test_count s" using Suc.prems(2) by (simp add: word_less_nat_alt)
  have i1: "unat (i + 1) = Suc (unat i)" using unat_plus_one [OF lt] .
  obtain n f d where c: "test_cases s ! unat i = case_of (n, f, d)" "printable n" "printable d" "f \<noteq> Test_process_management"
    using Suc.prems(3) unfolding quiet_case_def by force
  obtain u where u: "kept (avail_pages s) s u"
    "\<And>r v. run_test e a f u = Some (r, v) \<Longrightarrow> r = TEST_PASS \<or> r = TEST_FAIL \<Longrightarrow> live v \<Longrightarrow> pids_kept u v \<Longrightarrow>
      \<exists>t. run_tests_loop e a i s = run_tests_loop e a (i + 1) t \<and> kept (avail_pages v) (bump r v) t"
    using run_tests_step [OF Suc.prems(1) lt c(1-3)] by blast
  have ps: "proc_ok s" using Suc.prems(1) by (simp add: live_def)
  have lu: "live u" using kept_proc_ok [OF ps u(1)] keptD(2) [OF u(1)] Suc.prems(1) by (simp add: live_def)
  obtain v where v: "run_test e a f u = Some (TEST_PASS, v)" "kept (avail_pages u) u v" using run_test_quiet [OF lu c(4)] by blast
  have sv: "kept (avail_pages s) s v" using kept_trans [OF u(1) v(2)] keptD(9) [OF u(1)] by simp
  have lv: "live v" "pids_kept u v"
    using kept_proc_ok [OF ps sv] kept_proc_ok [OF _ v(2)] keptD(2) [OF sv] Suc.prems(1) lu by (simp_all add: live_def)
  obtain t where t: "run_tests_loop e a i s = run_tests_loop e a (i + 1) t" "kept (avail_pages v) (bump TEST_PASS v) t"
    using u(2) [OF v(1) _ lv] by blast
  have st: "kept (avail_pages s) (bump TEST_PASS s) t"
    using kept_trans [OF kept_bump [OF sv] t(2)] keptD(9) [OF sv] by simp
  have pb: "proc_ok (bump TEST_PASS s)" "live (bump TEST_PASS s)" using Suc.prems(1) live_bump(1) [of TEST_PASS s] by (auto simp: live_def)
  have lt': "live t" using kept_proc_ok [OF pb(1), of t] st keptD(2) [OF st] Suc.prems(1) by (simp add: live_def)
  note mt = more_tests [OF keptD(12) [OF st]]
  have "\<exists>w. run_tests_loop e a (i + 1) t = run_tests_loop e a (i + 1 + of_nat k) w \<and> kept (avail_pages t) ((bump TEST_PASS ^^ k) t) w"
    using Suc.prems(2,3) i1 mt(1,2) by (intro Suc.IH [OF lt']) auto
  then obtain w where w: "run_tests_loop e a (i + 1) t = run_tests_loop e a (i + 1 + of_nat k) w" "kept (avail_pages t) ((bump TEST_PASS ^^ k) t) w"
    by blast
  have "kept (avail_pages s) ((bump TEST_PASS ^^ k) (bump TEST_PASS s)) ((bump TEST_PASS ^^ k) t)"
    using st by (induction k) (auto intro: kept_bump)
  then have "kept (avail_pages s) ((bump TEST_PASS ^^ Suc k) s) w"
    using kept_trans [OF _ w(2)] keptD(9) [OF st] by (simp add: funpow_swap1)
  then show ?case using t(1) w(1) by (auto simp: add.assoc)
qed


lemma bumps: "(bump TEST_PASS ^^ k) s = s\<lparr>tests_passed := tests_passed s + of_nat k\<rparr>"
  by (induction k) (simp_all add: bump_def)

lemma bumps_view:
  "live ((bump TEST_PASS ^^ k) s) = live s" "used ((bump TEST_PASS ^^ k) s) = used s"
  "find_free_slot ((bump TEST_PASS ^^ k) s) = find_free_slot s" "avail_pages ((bump TEST_PASS ^^ k) s) = avail_pages s"
  by (induction k; simp)+

lemmas more_bumps = arg_cong [where f = process_mgr.more, OF bumps]

lemma kept_live:
  assumes "kept (avail_pages s) s t" "live s"
  shows "live t" "used t = used s" "find_free_slot t = find_free_slot s" "avail_pages t = avail_pages s"
  using kept_proc_ok [OF _ assms(1)] keptD(1,2,9) [OF assms(1)] assms(2) find_free_slot_cong [OF keptD(1) [OF assms(1)]]
  by (simp_all add: live_def used_def proc_def)

lemma prints_results: "prints print_test_results"
  unfolding print_test_results_def by (intro prints_ok) simp_all

lemma suite_cases:
  assumes "test_cases s = map case_of suite @ xs" "j < 9"
  shows "test_cases s ! j = case_of (suite ! j)" "j \<noteq> 6 \<Longrightarrow> quiet_case (test_cases s ! j)"
proof -
  have l: "length suite = 9" by (simp add: suite_def)
  show c: "test_cases s ! j = case_of (suite ! j)" using assms by (simp add: nth_append l)
  assume "j \<noteq> 6"
  then have "j \<in> {0, 1, 2, 3, 4, 5, 7, 8}" using assms(2) by auto
  then have "fst (snd (suite ! j)) \<noteq> Test_process_management" by (auto simp: suite_def)
  moreover have "suite ! j \<in> set suite" using assms(2) l by simp
  ultimately show "quiet_case (test_cases s ! j)"
    unfolding quiet_case_def c using printable_suite by (cases "suite ! j") fastforce
qed

lemma loop_end: "test_count s \<le> i \<Longrightarrow> run_tests_loop e a i s = Some s"
  by (subst run_tests_loop.simps) (simp add: not_less [symmetric])

text \<open>The nine registered tests, from a state right after registration.\<close>

lemma run_suite:
  assumes "live s" "test_cases s = map case_of suite @ xs" "test_count s = 9"
  shows "\<exists>t. run_tests_loop e a 0 s = Some t \<and> live t \<and> used t = used s \<union> set_option (find_free_slot s)
    \<and> test_count t = 9 \<and> syscall_table t = syscall_table s
    \<and> tests_passed t = tests_passed s + (if can_create s then 9 else 8)
    \<and> tests_failed t = tests_failed s + (if can_create s then 0 else 1) \<and> tests_skipped t = tests_skipped s"
proof -
  note q = suite_cases(2) [OF assms(2)]
  obtain t1 where t1: "run_tests_loop e a 0 s = run_tests_loop e a 6 t1" "kept (avail_pages s) ((bump TEST_PASS ^^ 6) s) t1"
    using run_tests_quiet [OF assms(1), of 0 6 e a] q assms(3) by auto
  have k1: "kept (avail_pages ((bump TEST_PASS ^^ 6) s)) ((bump TEST_PASS ^^ 6) s) t1" using t1(2) by (simp add: bumps_view)
  have l1: "live t1" "used t1 = used s" "find_free_slot t1 = find_free_slot s" "avail_pages t1 = avail_pages s"
    using kept_live [OF k1] assms(1) by (simp_all add: bumps_view)
  note m1 = more_tests [OF trans [OF keptD(12) [OF k1] more_bumps], simplified]
  have c6: "test_cases t1 ! unat (6 :: u32) = case_of (''Process Management'', Test_process_management, ''Test process creation and management'')"
    using suite_cases(1) [OF assms(2), of 6] m1(1) by (simp add: suite_def)
  have pr: "printable ''Process Management''" "printable ''Test process creation and management''"
    using printable_suite by (simp_all add: suite_def)
  have lt: "6 < test_count t1" using m1(2) assms(3) by simp
  obtain u where u: "kept (avail_pages t1) t1 u"
    "\<And>r v. run_test e a Test_process_management u = Some (r, v) \<Longrightarrow> r = TEST_PASS \<or> r = TEST_FAIL \<Longrightarrow> live v \<Longrightarrow> pids_kept u v \<Longrightarrow>
      \<exists>t. run_tests_loop e a 6 t1 = run_tests_loop e a (6 + 1) t \<and> kept (avail_pages v) (bump r v) t"
    using run_tests_step [OF l1(1) lt c6 pr] by blast
  note lu = kept_live [OF u(1) l1(1)]
  have cu: "can_create u = can_create s" using lu(3,4) l1(3,4) by (simp add: can_create_def)
  let ?r = "if can_create s then TEST_PASS else TEST_FAIL"
  obtain v where v: "run_test e a Test_process_management u = Some (?r, v)" "live v" "pids_kept u v"
    "used v = used s \<union> set_option (find_free_slot s)"
    using test_process_management_ok [OF lu(1), of e] cu lu(2,3) l1(2,3) by auto
  obtain t2 where t2: "run_tests_loop e a 6 t1 = run_tests_loop e a 7 t2" "kept (avail_pages (bump ?r v)) (bump ?r v) t2"
    using u(2) [OF v(1) _ v(2,3)] by (cases "can_create s") auto
  note l2 = kept_live [OF t2(2), simplified, OF v(2)]
  have mv: "process_mgr.more v = process_mgr.more t1" using v(3) keptD(12) [OF u(1)] by (simp add: pids_kept_def)
  note m2 = more_tests [OF trans [OF keptD(12) [OF t2(2)] more_bump [OF mv]]]
  have "unat (7 :: u32) + 2 \<le> unat (test_count t2)" using m2(2) m1(2) assms(3) by simp
  moreover have "\<forall>j. unat (7 :: u32) \<le> j \<and> j < unat (7 :: u32) + 2 \<longrightarrow> quiet_case (test_cases t2 ! j)"
    using q m2(1) m1(1) by auto
  ultimately obtain t where t: "run_tests_loop e a 7 t2 = run_tests_loop e a (7 + of_nat 2) t" "kept (avail_pages t2) ((bump TEST_PASS ^^ 2) t2) t"
    using run_tests_quiet [OF l2(1)] by blast
  have k3: "kept (avail_pages ((bump TEST_PASS ^^ 2) t2)) ((bump TEST_PASS ^^ 2) t2) t" using t(2) by (simp add: bumps_view)
  note l3 = kept_live [OF k3, unfolded bumps_view, OF l2(1)]
  note m3 = more_tests [OF trans [OF keptD(12) [OF k3] more_bumps], simplified]
  have tc: "test_count t = 9" using m3(2) m2(2) m1(2) assms(3) by simp
  have "run_tests_loop e a 0 s = Some t" using t1(1) t2(1) t(1) loop_end [of t 9 e a] tc by simp
  moreover have "used t = used s \<union> set_option (find_free_slot s)" using l3(2) l2(2) v(4) by simp
  moreover have "syscall_table t = syscall_table s" "tests_skipped t = tests_skipped s"
    "tests_passed t = tests_passed s + (if can_create s then 9 else 8)"
    "tests_failed t = tests_failed s + (if can_create s then 0 else 1)"
    using m1(3-6) m2(3-6) m3(3-6) by (simp_all add: bump_def)
  ultimately show ?thesis using l3(1) tc by blast
qed


subsection \<open>Properties\<close>

lemma init_kernel_ok:
  assumes "kernel_ok s" "length (test_cases s) = 50"
  shows "kernel_ok (init_test_suite s)" "can_create (init_test_suite s) = can_create s"
    "used (init_test_suite s) = used s" "find_free_slot (init_test_suite s) = find_free_slot s"
proof -
  let ?t = "init_test_suite s"
  note r = init_test_suite_result [OF assms(2)]
  have p: "proc_ok s" "table_ok s" "current_process s \<noteq> None" using assms(1) by (auto simp: kernel_ok_def live_def)
  have v: "mem ?t = mem s" "memory_map ?t = memory_map s" "total_pages ?t = total_pages s"
    "used_pages ?t = used_pages s" "memory_start ?t = memory_start s" "memory_end ?t = memory_end s"
    "crtc_regs ?t = crtc_regs s" "regs ?t = regs s" "processes ?t = processes s" "current_process ?t = current_process s"
    "next_pid ?t = next_pid s" "syscall_table ?t = syscall_table s"
    by (simp_all add: r)
  show "used ?t = used s" and f: "find_free_slot ?t = find_free_slot s" using v(9) by (simp_all add: used_def find_free_slot_def proc_def)
  show "can_create ?t = can_create s" using f alloc_view(2) [OF v(1-6)] by (simp add: can_create_def)
  show "kernel_ok ?t" using proc_ok_same(1) [OF p(1) v(1-11)] p(2,3) v(10,12) by (simp add: kernel_ok_def live_def table_ok_def)
qed

text \<open>
  C27: The whole suite on a started kernel. Registration enters nine tests; the run returns, keeps
  the kernel's invariant, and every test passes except the process test, which passes exactly
  when a process slot and two pages are free and fails otherwise; none is skipped. The
  process test leaves its process behind: its slot stays in use.
\<close>

theorem suite_verdicts:
  assumes "kernel_ok s" "length (test_cases s) = 50"
  shows "\<exists>t. run_all_tests dummy table_addr (init_test_suite s) = Some t \<and> kernel_ok t \<and> test_count t = 9
    \<and> (let fits = find_free_slot s \<noteq> None \<and> 2 \<le> card (avail_pages s)
       in tests_passed t = (if fits then 9 else 8) \<and> tests_failed t = (if fits then 0 else 1))
    \<and> tests_skipped t = 0 \<and> used t = used s \<union> set_option (find_free_slot s)"
proof -
  let ?i = "init_test_suite s"
  note i = init_kernel_ok [OF assms] and r = init_test_suite_result [OF assms(2)]
  have li: "live ?i" "table_ok ?i" using i(1) by (simp_all add: kernel_ok_def)
  have oi: "alloc_ok ?i" "cursor_ok ?i" using li(1) proc_okD(2,3) by (auto simp: live_def)
  have "prints (\<lambda>s :: 'a test_state_scheme. kprintf [CHR 0x0A] [] s \<bind> (\<lambda>s. kprintcolor LIGHT_CYAN (''=== Starting M12 OS Test Suite ==='' @ [CHR 0x0A]) [] s
      \<bind> (\<lambda>s. kprintf (''Running %d tests...'' @ [CHR 0x0A, CHR 0x0A]) [VInt (ucast (test_count s))] s)))"
    by (intro prints_ok) simp_all
  from keepsE [OF keeps_prints [OF this] oi] obtain u where
    u: "kprintf [CHR 0x0A] [] ?i \<bind> (\<lambda>s. kprintcolor LIGHT_CYAN (''=== Starting M12 OS Test Suite ==='' @ [CHR 0x0A]) [] s
      \<bind> (\<lambda>s. kprintf (''Running %d tests...'' @ [CHR 0x0A, CHR 0x0A]) [VInt (ucast (test_count s))] s)) = Some u" "kept (avail_pages ?i) ?i u" .
  note lu = kept_live [OF u(2) li(1)] and mu = more_tests [OF keptD(12) [OF u(2)]]
  have cu: "can_create u = can_create s" using lu(3,4) i(2) by (simp add: can_create_def)
  have "test_cases u = map case_of suite @ drop 9 (test_cases s)" "test_count u = 9" using mu(1,2) by (simp_all add: r)
  from run_suite [OF lu(1) this] obtain v where v: "run_tests_loop dummy table_addr 0 u = Some v" "live v"
    "used v = used u \<union> set_option (find_free_slot u)" "test_count v = 9" "syscall_table v = syscall_table u"
    "tests_passed v = tests_passed u + (if can_create u then 9 else 8)"
    "tests_failed v = tests_failed u + (if can_create u then 0 else 1)" "tests_skipped v = tests_skipped u" by blast
  have ov: "alloc_ok v" "cursor_ok v" using v(2) proc_okD(2,3) by (auto simp: live_def)
  obtain t where t: "print_test_results v = Some t" "kept (avail_pages v) v t"
    using keepsE [OF keeps_prints [OF prints_results] ov] .
  note lt = kept_live [OF t(2) v(2)] and mt = more_tests [OF keptD(12) [OF t(2)]]
  have "run_all_tests dummy table_addr ?i = Some u \<bind> (\<lambda>s. run_tests_loop dummy table_addr 0 s \<bind> print_test_results)"
    unfolding u(1) [symmetric] by (simp only: run_all_tests_def Option.bind_assoc)
  then have "run_all_tests dummy table_addr ?i = Some t" using v(1) t(1) by simp
  moreover have "kernel_ok t" using lt(1) li(2) v(5) mt(6) mu(6) by (simp add: kernel_ok_def table_ok_def)
  moreover have "used t = used s \<union> set_option (find_free_slot s)" using lt(2) v(3) lu(2,3) i(3,4) by simp
  moreover have "test_count t = 9" "tests_passed t = (if can_create s then 9 else 8)" "tests_failed t = (if can_create s then 0 else 1)"
    "tests_skipped t = 0"
    using mt(2-5) v(4,6-8) mu(3-5) cu by (simp_all add: r)
  ultimately show ?thesis unfolding Let_def can_create_def by blast
qed


text \<open>A started kernel with two processes and the tests not yet registered.\<close>

definition test_ready :: test_state where
  "test_ready = (booted_process (syscall_state_ext (map Some syscall_fns) (test_state_ext
       (replicate 50 \<lparr>tc_name = Addr 0, tc_function = None, tc_description = Addr 0\<rparr>) 0 0 0 0 ())))
     \<lparr>processes := processes two_processes, current_process := Some 0, next_pid := 3, process_count := 2\<rparr>"

lemma test_ready_ok:
  "kernel_ok test_ready" "length (test_cases test_ready) = 50" "find_free_slot test_ready = Some 2" "2 \<le> card (avail_pages test_ready)"
proof -
  let ?y = "syscall_state_ext (map Some syscall_fns) (test_state_ext
       (replicate 50 \<lparr>tc_name = Addr 0, tc_function = None, tc_description = Addr 0\<rparr>) 0 0 0 0 ())"
  have v: "mem test_ready = mem syscall_ready" "memory_map test_ready = memory_map syscall_ready" "total_pages test_ready = total_pages syscall_ready"
    "used_pages test_ready = used_pages syscall_ready" "memory_start test_ready = memory_start syscall_ready" "memory_end test_ready = memory_end syscall_ready"
    "crtc_regs test_ready = crtc_regs syscall_ready" "regs test_ready = regs syscall_ready" "processes test_ready = processes syscall_ready"
    "current_process test_ready = current_process syscall_ready" "next_pid test_ready = next_pid syscall_ready"
    by (simp_all add: test_ready_def syscall_ready_def booted_syscalls_def booted_process_def booted_paging_def booted_memory_def
        fresh_bitmap_def Let_def memory_statics_def vga_statics_def cleared_def cong: if_cong)
  have p: "proc_ok syscall_ready" "current_process syscall_ready \<noteq> None" using syscall_ready_ok by (auto simp: kernel_ok_def live_def)
  have "syscall_table test_ready = map Some syscall_fns"
    by (simp add: test_ready_def booted_process_def booted_paging_def booted_memory_def fresh_bitmap_def Let_def memory_statics_def
        vga_statics_def cleared_def)
  then show "kernel_ok test_ready" using proc_ok_same(1) [OF p(1) v] p(2) v(10) by (simp add: kernel_ok_def live_def table_ok_def)
  show "length (test_cases test_ready) = 50"
    by (simp add: test_ready_def booted_process_def booted_paging_def booted_memory_def fresh_bitmap_def Let_def memory_statics_def
        vga_statics_def cleared_def)
  have "proc i test_ready = proc i two_processes" for i by (simp add: test_ready_def proc_def)
  then show "find_free_slot test_ready = Some 2" by (simp add: find_free_slot_def upt_conv_Cons)
  have "avail_pages test_ready = avail_pages (booted_process ?y)" by (rule alloc_view) (simp_all add: test_ready_def)
  then show "2 \<le> card (avail_pages test_ready)" by simp
qed

theorem suite_verdicts_witness:
  "\<exists>t. run_all_tests 0x7200 0x30000 (init_test_suite test_ready) = Some t \<and> tests_passed t = 9 \<and> tests_failed t = 0"
  using suite_verdicts [OF test_ready_ok(1,2), of "0x7200" "0x30000"] test_ready_ok(3,4) by (auto simp: Let_def)

text \<open>
  C40: The table of tests is well formed: it has 50 entries, at most 50 are counted, and every
  counted entry has a function. \<open>add_test\<close> keeps it so: it appends to a table that is not full
  without changing the other entries, and ignores the call when the table is full.
\<close>

theorem add_test_well_formed:
  assumes "length (test_cases s) = 50" "test_count s \<le> 50" "\<forall>i < unat (test_count s). tc_function (test_cases s ! i) \<noteq> None"
    and "t = add_test name func desc s"
  shows "length (test_cases t) = 50 \<and> test_count t \<le> 50 \<and> (\<forall>i < unat (test_count t). tc_function (test_cases t ! i) \<noteq> None)
    \<and> (if test_count s = 50 then t = s
       else test_count t = test_count s + 1
         \<and> test_cases t ! unat (test_count s) = \<lparr>tc_name = lit name, tc_function = Some func, tc_description = lit desc\<rparr>
         \<and> (\<forall>i. i \<noteq> unat (test_count s) \<longrightarrow> test_cases t ! i = test_cases s ! i))"
proof (cases "test_count s = 50")
  case True
  then show ?thesis using assms by (simp add: add_test_def)
next
  case False
  then have lt: "test_count s < 50" using assms(2) by simp
  have i1: "unat (test_count s + 1) = Suc (unat (test_count s))" using unat_plus_one [OF lt] .
  have n: "unat (test_count s) < 50" using lt by (simp add: word_less_nat_alt)
  have t: "test_cases t = (test_cases s)[unat (test_count s) := \<lparr>tc_name = lit name, tc_function = Some func, tc_description = lit desc\<rparr>]"
    "test_count t = test_count s + 1" using lt assms(4) by (simp_all add: add_test_def)
  have "test_count t \<le> 50" using n i1 t(2) by (simp add: word_le_nat_alt)
  then show ?thesis using False assms(1,3) n i1 by (auto simp: t nth_list_update less_Suc_eq)
qed

theorem add_test_well_formed_witness:
  "test_count (add_test ''A'' Test_vga_output ''B'' test_ready) = 1"
proof -
  have c: "test_count test_ready = 0"
    by (simp add: test_ready_def booted_process_def booted_paging_def booted_memory_def fresh_bitmap_def Let_def memory_statics_def
        vga_statics_def cleared_def)
  show ?thesis using add_test_well_formed [OF test_ready_ok(2) _ _ refl, where name = "''A''" and func = Test_vga_output and desc = "''B''"] c by simp
qed


lemma take_pages_none:
  assumes "alloc_ok s" "cursor_ok s" "avail_pages s = {}"
  shows "\<exists>t. take_pages n s = Some (replicate n 0, t) \<and> cursor_ok t \<and> screen_only s t"
  using assms
proof (induction n arbitrary: s)
  case 0
  then show ?case by simp
next
  case (Suc n)
  have g: "get_physical_page s = (0, s)" by (rule pa.alloc_none [OF Suc.prems(1,3)])
  obtain t where t: "test_assert False ''pages[i] != NULL'' 147 s = Some t" "cursor_ok t" "screen_only s t"
    using printsD [OF prints_asserts(4) [where P = "\<lambda>_. False"] Suc.prems(2)] by blast
  obtain u where u: "take_pages n t = Some (replicate n 0, u)" "cursor_ok u" "screen_only t u"
    using Suc.IH [of t] screen_only_alloc_ok [OF t(3) Suc.prems(1)] screen_only_avail [OF t(3) Suc.prems(1)] t(2) Suc.prems(3) by auto
  have "take_pages (Suc n) s = Some (replicate (Suc n) 0, u)" using g t(1) u(1) by simp
  then show ?case using u(2) screen_only_trans [OF t(3) u(3)] by blast
qed

lemma free_zeros: "alloc_ok s \<Longrightarrow> fold free_physical_page (replicate n 0) s = s"
proof (induction n)
  case (Suc n)
  have "free_physical_page 0 s = s" using pa.release_other [OF Suc.prems] pa.null_page [OF Suc.prems] by blast
  with Suc show ?case by simp
qed simp

text \<open>
  Assertions of the tests only print: \<open>test_basic_paging\<close> passes without any page table
  installed, and \<open>test_memory_management\<close> passes when no page is free, after writing its test
  value through the null pointer it was given.
\<close>

lemma assertions_only_print:
  assumes "alloc_ok s" "cursor_ok s" "kernel_pml4 s = 0" "cr3 s = 0" "avail_pages s = {}"
  shows "(\<exists>t. test_basic_paging s = Some (TEST_PASS, t) \<and> screen_only s t)
    \<and> (\<exists>t. test_memory_management s = Some (TEST_PASS, t) \<and> read_u64 (mem t) 0 = 0x12345678)"
proof
  obtain t where t: "test_assert False ''pml4 != NULL'' 104 s = Some t" "cursor_ok t" "screen_only s t"
    using printsD [OF prints_asserts(1) [where P = "\<lambda>_. False"] assms(2)] by blast
  obtain u where u: "test_assert False ''cr3 != 0'' 108 t = Some u" "cursor_ok u" "screen_only t u"
    using printsD [OF prints_asserts(2) [where P = "\<lambda>_. False"] t(2)] by blast
  have "cr3 t = 0" using t(3) assms(4) by (auto elim!: screen_onlyE)
  then show "\<exists>t. test_basic_paging s = Some (TEST_PASS, t) \<and> screen_only s t"
    using t(1) u(1) assms(3) screen_only_trans [OF t(3) u(3)] by (simp add: test_basic_paging_def get_kernel_page_table_def)
next
  have g: "get_physical_page s = (0, s)" by (rule pa.alloc_none [OF assms(1,5)])
  obtain u where u: "test_assert False ''page1 != NULL'' 136 s = Some u" "cursor_ok u" "screen_only s u"
    using printsD [OF prints_asserts(3) [where P = "\<lambda>_. False"] assms(2)] by blast
  have au: "alloc_ok u" "avail_pages u = {}"
    using screen_only_alloc_ok [OF u(3) assms(1)] screen_only_avail [OF u(3) assms(1)] assms(5) by simp_all
  let ?v = "u\<lparr>mem := write_u64 (mem u) 0 0x12345678\<rparr>"
  have off: "region 0 8 \<inter> bitmap_area = {}" "region 0 8 \<inter> screen_bytes = {}" by (auto simp: region_iff bitmap_area_iff screen_bytes_iff)
  have "agree_off (region 0 8) (mem u) (mem ?v)" using write_u64_off by (auto simp: agree_off_def)
  then have v: "alloc_ok ?v" "avail_pages ?v = {}" using alloc_ok_write [OF au(1) _ _ off(1), of ?v] au(2) by simp_all
  have cv: "cursor_ok ?v" using u(2) cursor_ok_regs [of ?v u] by simp
  have fv: "free_physical_page 0 ?v = ?v" using free_zeros [OF v(1), of 1] by simp
  obtain t where t: "take_pages 3 ?v = Some (replicate 3 0, t)" "cursor_ok t" "screen_only ?v t"
    using take_pages_none [OF v(1) cv v(2)] by blast
  have "fold free_physical_page (replicate 3 0) t = t" using free_zeros screen_only_alloc_ok [OF t(3) v(1)] by blast
  then have "test_memory_management s = Some (TEST_PASS, t)"
    by (simp add: test_memory_management_def g u(1) fv t(1) test_assert_eq_def)
  moreover have "read_u64 (mem t) 0 = read_u64 (mem ?v) 0"
    by (rule read_u64_agree [OF screen_only_mem [OF t(3)] off(2)])
  ultimately show "\<exists>t. test_memory_management s = Some (TEST_PASS, t) \<and> read_u64 (mem t) 0 = 0x12345678" by simp
qed

end
