(* ===== verification/System.thy ===== *)
theory System
  imports Kernel
begin

text \<open>
  The running kernel: after \<open>kmain\<close> has reached its loop, the machine proceeds by steps of the
  running code (the loop, the idle function or a process), processor exceptions, hardware
  interrupts and system calls, in any order. What the processor does when it takes an
  interrupt is part of this theory; the entry stubs and handlers are those of the kernel.
\<close>

subsection \<open>Taking an interrupt\<close>

text \<open>
  The processor aligns the stack, pushes the stack segment, stack pointer, flags, code segment
  and instruction pointer, and for some vectors an error code, loads \<^verbatim>\<open>cs\<close> with the selector
  \<^verbatim>\<open>0x08\<close> that \<open>Init_ISR\<close> and \<open>Init_IRQ\<close> put in every gate, and disables interrupts (the gates
  are interrupt gates); bit 9 of the flags is the interrupt flag, which \<^verbatim>\<open>iretq\<close> loads with the
  others. The interrupted code runs at the kernel's privilege, so that the stack is not
  switched. The error code is arbitrary. The vectors that push one are those the stubs expect.
\<close>

definition flags_word :: "'a machine_scheme \<Rightarrow> u64" where
  "flags_word s = (if interrupts_enabled s then set_bit 9 (regs s RFLAGS) else unset_bit 9 (regs s RFLAGS))"

definition interrupt_entry :: "nat \<Rightarrow> u64 \<Rightarrow> 'a machine_scheme \<Rightarrow> 'a machine_scheme" where
  "interrupt_entry n err s =
     (let t = set_reg RSP (regs s RSP AND NOT 0xF) s;
          t = push_val (ucast (segs s SS)) t;
          t = push_val (regs s RSP) t;
          t = push_val (flags_word s) t;
          t = push_val (ucast (segs s CS)) t;
          t = push_val (regs s RIP) t;
          t = (if has_error_code n then push_val err t else t)
      in (set_seg CS 0x08 t)\<lparr>interrupts_enabled := False\<rparr>)"

definition take_interrupt :: "nat \<Rightarrow> u64 \<Rightarrow> ('a machine_scheme \<Rightarrow> 'a machine_scheme option)
    \<Rightarrow> 'a machine_scheme \<Rightarrow> 'a machine_scheme option" where
  "take_interrupt n err stub s =
     do { t \<leftarrow> stub (interrupt_entry n err s);
          Some (t\<lparr>interrupts_enabled := bit (regs t RFLAGS) 9\<rparr>) }"

text \<open>The stack words an interrupt uses: 176 bytes below the aligned stack pointer.\<close>

definition interrupt_area :: "'a machine_scheme \<Rightarrow> u64 set" where
  "interrupt_area s = region ((regs s RSP AND NOT 0xF) - 176) 176"

lemma interrupt_area_stack: "interrupt_area s \<subseteq> region (regs s RSP - 256) 256"
proof -
  let ?x = "regs s RSP" and ?l = "regs s RSP AND 0xF"
  have l: "?l \<le> 0xF" by (rule word_and_le1)
  have "(?x AND NOT 0xF) + ?l = (?x AND NOT 0xF) OR ?l" by (rule disjunctive_add_eq_or) (auto simp: bit_eq_iff bit_simps)
  also have "\<dots> = ?x" by (rule bit_word_eqI) (auto simp: bit_simps)
  finally have "(?x AND NOT 0xF) + ?l = ?x" .
  then have e: "(?x AND NOT 0xF) - 176 = (?x - 256) + (80 - ?l)" by (simp add: algebra_simps)
  have "unat (80 - ?l) \<le> 80" using l by (simp add: unat_sub word_le_nat_alt)
  then have "region ((?x - 256) + (80 - ?l)) 176 \<subseteq> region (?x - 256) 256" by (intro region_shift) simp_all
  then show ?thesis unfolding interrupt_area_def e .
qed

lemma interrupt_area_below: "safe_sp (regs s RSP) \<Longrightarrow> interrupt_area s \<inter> (bitmap_area \<union> screen_bytes) = {}"
  using interrupt_area_stack [of s] unfolding safe_sp_def by blast

lemma push_vals:
  assumes "length vs \<le> 20"
  shows "\<exists>m. fold push_val vs s = s\<lparr>mem := m, regs := (regs s)(RSP := regs s RSP - 8 * of_nat (length vs))\<rparr>
    \<and> agree_off (region (regs s RSP - 8 * of_nat (length vs)) (8 * length vs)) (mem s) m"
  using assms
proof (induction vs rule: rev_induct)
  case Nil
  have "fold push_val [] s = s\<lparr>mem := mem s, regs := (regs s)(RSP := regs s RSP - 8 * of_nat (length []))\<rparr>" by simp
  then show ?case by fastforce
next
  case (snoc v vs)
  let ?l = "length vs" and ?sp = "regs s RSP - 8 * of_nat (length (vs @ [v]))"
  obtain m where m: "fold push_val vs s = s\<lparr>mem := m, regs := (regs s)(RSP := regs s RSP - 8 * of_nat ?l)\<rparr>"
    "agree_off (region (regs s RSP - 8 * of_nat ?l) (8 * ?l)) (mem s) m" using snoc.IH snoc.prems by (metis Suc_leD length_append_singleton)
  have sp: "regs s RSP - 8 * of_nat ?l = ?sp + 8" by (simp add: algebra_simps)
  let ?R = "region ?sp (8 * length (vs @ [v]))"
  have r: "region (?sp + 8) (8 * ?l) \<subseteq> ?R" by (rule region_shift; use snoc.prems in simp)
  have "region (?sp + 0) 8 \<subseteq> ?R" by (rule region_shift; use snoc.prems in simp)
  then have w: "region ?sp 8 \<subseteq> ?R" by (simp only: add_0_right)
  have "agree_off ?R (mem s) (write_u64 m ?sp v)"
    unfolding agree_off_def
  proof (intro allI impI)
    fix x assume x: "x \<notin> ?R"
    then have "x \<notin> region ?sp 8" "x \<notin> region (?sp + 8) (8 * ?l)" using r w by blast+
    then show "write_u64 m ?sp v x = mem s x" using write_u64_off m(2) [unfolded sp agree_off_def] by metis
  qed
  moreover have "fold push_val (vs @ [v]) s = s\<lparr>mem := write_u64 m ?sp v, regs := (regs s)(RSP := ?sp)\<rparr>"
    using m(1) by (simp add: push_val_def set_reg_def Let_def algebra_simps)
  ultimately show ?case by blast
qed

lemma interrupt_entry_frame:
  fixes s :: "'a machine_scheme" and n err
  defines "e \<equiv> interrupt_entry n err s"
  shows "f_rip (entry_frame n e) = regs s RIP" "f_rflags (entry_frame n e) = flags_word s" "f_rsp (entry_frame n e) = regs s RSP"
    "frame_addr n e = (regs s RSP AND NOT 0xF) - 176" "iret_segs n e (segs e) = segs s"
    "\<exists>m r. e = s\<lparr>mem := m, regs := r, segs := (segs s)(CS := 0x08), interrupts_enabled := False\<rparr> \<and> agree_off (interrupt_area s) (mem s) m
       \<and> (\<forall>q \<in> set saved_regs. r q = regs s q)"
proof -
  have w: "stack_word (t\<lparr>interrupts_enabled := b\<rparr>) k = stack_word t k" "stack_word (set_seg q v t) k = stack_word t k"
    for t :: "'a machine_scheme" and b k q v by (simp_all add: stack_word_def set_seg_def)
  show "f_rip (entry_frame n e) = regs s RIP" "f_rflags (entry_frame n e) = flags_word s" "f_rsp (entry_frame n e) = regs s RSP"
    unfolding e_def interrupt_entry_def Let_def by (simp_all add: entry_frame_def Let_def w stack_word_pushed)
  show "frame_addr n e = (regs s RSP AND NOT 0xF) - 176"
    unfolding e_def interrupt_entry_def Let_def by (simp add: frame_addr_def push_val_simps set_reg_def set_seg_def)
  have g: "segs e = (segs s)(CS := 0x08)"
    unfolding e_def interrupt_entry_def Let_def by (simp add: push_val_def set_reg_def set_seg_def Let_def)
  have "ucast (f_cs (entry_frame n e)) = segs s CS" "ucast (f_ss (entry_frame n e)) = segs s SS"
    unfolding e_def interrupt_entry_def Let_def by (simp_all add: entry_frame_def Let_def w stack_word_pushed ucast_selector)
  then show "iret_segs n e (segs e) = segs s" by (simp add: iret_segs_def g fun_eq_iff)
  show "\<exists>m r. e = s\<lparr>mem := m, regs := r, segs := (segs s)(CS := 0x08), interrupts_enabled := False\<rparr> \<and> agree_off (interrupt_area s) (mem s) m
       \<and> (\<forall>q \<in> set saved_regs. r q = regs s q)"
  proof -
    let ?vs = "[ucast (segs s SS), regs s RSP, flags_word s, ucast (segs s CS), regs s RIP] @ (if has_error_code n then [err] else [])"
    let ?t = "set_reg RSP (regs s RSP AND NOT 0xF) s"
    have e: "e = (set_seg CS 0x08 (fold push_val ?vs ?t))\<lparr>interrupts_enabled := False\<rparr>" by (simp add: e_def interrupt_entry_def Let_def)
    have "length ?vs \<le> 20" by simp
    from push_vals [OF this, of ?t] obtain m where
      m: "fold push_val ?vs ?t = ?t\<lparr>mem := m, regs := (regs ?t)(RSP := regs ?t RSP - 8 * of_nat (length ?vs))\<rparr>"
      "agree_off (region (regs ?t RSP - 8 * of_nat (length ?vs)) (8 * length ?vs)) (mem ?t) m" by blast
    let ?a = "regs s RSP AND NOT 0xF" and ?k = "if has_error_code n then 48 else 40"
    have len: "8 * of_nat (length ?vs) = (if has_error_code n then 48 else 40 :: u64)" "8 * length ?vs = ?k" by simp_all
    have "region (?a - 176 + (if has_error_code n then 128 else 136)) ?k \<subseteq> region (?a - 176) 176"
      by (rule region_shift) simp_all
    then have "region (regs ?t RSP - 8 * of_nat (length ?vs)) (8 * length ?vs) \<subseteq> interrupt_area s"
      unfolding len interrupt_area_def by (simp add: set_reg_def split: if_splits)
    then have ag: "agree_off (interrupt_area s) (mem s) m" using agree_off_mono [OF m(2)] by (simp add: set_reg_def)
    let ?r = "(regs ?t)(RSP := regs ?t RSP - 8 * of_nat (length ?vs))"
    have "e = s\<lparr>mem := m, regs := ?r, segs := (segs s)(CS := 0x08), interrupts_enabled := False\<rparr>"
      unfolding e m(1) by (simp add: set_reg_def set_seg_def)
    moreover have "\<forall>q \<in> set saved_regs. ?r q = regs s q" using saved_regs_facts(1) by (auto simp: set_reg_def)
    ultimately show ?thesis using ag by blast
  qed
qed


subsection \<open>Interrupts leave the interrupted code alone\<close>

text \<open>
  \<open>unnoticed s t\<close>: the interrupted code cannot tell \<open>t\<close> from \<open>s\<close> except by the screen, the log
  of the interrupt controllers' ports and the memory below its stack pointer.
\<close>

definition unnoticed :: "'a syscall_state_scheme \<Rightarrow> 'a syscall_state_scheme \<Rightarrow> bool" where
  "unnoticed s t \<longleftrightarrow>
     (\<exists>m i r l. t = s\<lparr>mem := m, regs := (regs s)(RFLAGS := flags_word s), crtc_index := i, crtc_regs := r, port_log := l\<rparr>
       \<and> agree_off (interrupt_area s \<union> screen_bytes) (mem s) m) \<and> cursor_ok t"

lemma resumed_regs:
  assumes "resumed n e t" "\<forall>q \<in> set saved_regs. regs e q = regs s q"
    and "f_rip (entry_frame n e) = regs s RIP" "f_rflags (entry_frame n e) = flags_word s" "f_rsp (entry_frame n e) = regs s RSP"
  shows "regs t = (regs s)(RFLAGS := flags_word s)"
proof
  fix q show "regs t q = ((regs s)(RFLAGS := flags_word s)) q"
    using assms by (cases q) (auto simp: resumed_def saved_regs_def)
qed

lemma flags_word_bit [simp]: "bit (flags_word s) 9 = interrupts_enabled s"
  by (simp add: flags_word_def bit_simps)

lemma take_exception:
  assumes "n < 32" "cursor_ok s" "safe_sp (regs s RSP)"
  shows "\<exists>t. take_interrupt n err (isr_stub n isr_handler) s = Some t \<and> unnoticed s t"
proof -
  let ?e = "interrupt_entry n err s"
  note f = interrupt_entry_frame [of n err s]
  obtain m r where e: "?e = s\<lparr>mem := m, regs := r, segs := (segs s)(CS := 0x08), interrupts_enabled := False\<rparr>" "agree_off (interrupt_area s) (mem s) m"
    "\<forall>q \<in> set saved_regs. r q = regs s q" using f(6) by blast
  have c: "cursor_ok ?e" using assms(2) cursor_ok_regs [of ?e s] by (simp add: e(1))
  have area: "region (frame_addr n ?e) 176 = interrupt_area s" by (simp add: f(4) interrupt_area_def)
  have off: "region (frame_addr n ?e) 176 \<inter> screen_bytes = {}" unfolding area using interrupt_area_below [OF assms(3)] by blast
  obtain m' u where u: "isr_stub n isr_handler ?e = Some u" "resumed n ?e u" "cursor_ok u" "agree_off (interrupt_area s) (mem ?e) m'"
    "screen_only (?e\<lparr>mem := m'\<rparr>) (u\<lparr>regs := regs ?e, segs := segs ?e\<rparr>)" "segs u = segs s"
    using exception_run [OF assms(1) c off] unfolding area f(5) by blast
  have ru: "regs u = (regs s)(RFLAGS := flags_word s)"
    by (rule resumed_regs [OF u(2) _ f(1-3)]) (use e(1,3) in simp)
  obtain m2 i q where v: "u\<lparr>regs := regs ?e, segs := segs ?e\<rparr> = (?e\<lparr>mem := m'\<rparr>)\<lparr>mem := m2, crtc_index := i, crtc_regs := q\<rparr>"
    "agree_off screen_bytes m' m2" using u(5) by (rule screen_onlyE) simp
  obtain F where F: "(regs s)(RFLAGS := flags_word s) = F" by blast
  have "u = (u\<lparr>regs := regs ?e, segs := segs ?e\<rparr>)\<lparr>regs := regs u, segs := segs u\<rparr>" by (cases u) simp
  also have "\<dots> = s\<lparr>mem := m2, regs := (regs s)(RFLAGS := flags_word s), crtc_index := i, crtc_regs := q, interrupts_enabled := False\<rparr>"
    unfolding v(1) unfolding ru u(6) e(1) F by (cases s) simp
  finally have us: "u = s\<lparr>mem := m2, regs := (regs s)(RFLAGS := flags_word s), crtc_index := i, crtc_regs := q, interrupts_enabled := False\<rparr>" .
  let ?t = "u\<lparr>interrupts_enabled := bit (regs u RFLAGS) 9\<rparr>"
  have "?t = s\<lparr>mem := m2, regs := (regs s)(RFLAGS := flags_word s), crtc_index := i, crtc_regs := q, port_log := port_log s\<rparr>"
    by (simp only: us) (cases s, simp)
  moreover have "agree_off (interrupt_area s \<union> screen_bytes) (mem s) m2"
    using e(1,2) u(4) v(2) by (auto simp: agree_off_def)
  moreover have "cursor_ok ?t" using u(3) cursor_ok_regs [of ?t u] by simp
  ultimately have "unnoticed s ?t" unfolding unnoticed_def by blast
  then show ?thesis using u(1) by (simp add: take_interrupt_def)
qed

lemma take_irq:
  assumes "n < 16" "cursor_ok s" "irq_handlers s = replicate 16 0"
  shows "\<exists>t. take_interrupt (32 + n) 0 (irq_stub n (irq_handler call)) s = Some t \<and> unnoticed s t
    \<and> port_log t = port_log s @ eoi n"
proof -
  let ?e = "interrupt_entry (32 + n) 0 s"
  note f = interrupt_entry_frame [of "32 + n" 0 s]
  obtain m r where e: "?e = s\<lparr>mem := m, regs := r, segs := (segs s)(CS := 0x08), interrupts_enabled := False\<rparr>" "agree_off (interrupt_area s) (mem s) m"
    "\<forall>q \<in> set saved_regs. r q = regs s q" using f(6) by blast
  have area: "region (frame_addr (32 + n) ?e) 176 = interrupt_area s" by (simp add: f(4) interrupt_area_def)
  have "irq_handlers ?e = replicate 16 0" using assms(3) by (simp only: e(1)) simp
  from irq_run [OF assms(1) this, of call] obtain m' u where u: "irq_stub n (irq_handler call) ?e = Some u" "resumed (32 + n) ?e u"
    "agree_off (interrupt_area s) (mem ?e) m'" "u = ?e\<lparr>mem := m', regs := regs u, segs := segs s, port_log := port_log ?e @ eoi n\<rparr>"
    unfolding area f(5) by blast
  have ru: "regs u = (regs s)(RFLAGS := flags_word s)"
    by (rule resumed_regs [OF u(2) _ f(1-3)]) (use e(1,3) in simp)
  have us: "u = s\<lparr>mem := m', regs := (regs s)(RFLAGS := flags_word s), port_log := port_log s @ eoi n, interrupts_enabled := False\<rparr>"
    by (rule trans [OF u(4)], simp only: ru e(1)) (cases s, simp)
  let ?t = "u\<lparr>interrupts_enabled := bit (regs u RFLAGS) 9\<rparr>"
  have "?t = s\<lparr>mem := m', regs := (regs s)(RFLAGS := flags_word s), crtc_index := crtc_index s, crtc_regs := crtc_regs s, port_log := port_log s @ eoi n\<rparr>"
    by (simp only: us) (cases s, simp)
  moreover have "agree_off (interrupt_area s \<union> screen_bytes) (mem s) m'"
    using e(1,2) u(3) by (auto simp: agree_off_def)
  moreover have "cursor_ok ?t" using assms(2) cursor_ok_regs [of ?t s] by (simp only: us) simp
  ultimately have "unnoticed s ?t" unfolding unnoticed_def by blast
  moreover have "port_log ?t = port_log s @ eoi n" by (simp only: us) simp
  ultimately show ?thesis using u(1) by (simp add: take_interrupt_def)
qed


subsection \<open>The kernel's own memory\<close>

text \<open>
  The kernel is linked to start at \<^verbatim>\<open>0x10000\<close>, and its code, constants and static variables must
  end below the page bitmap at \<^verbatim>\<open>0x60000\<close>; its page tables lie elsewhere. In the model the static
  variables are fields of the state, so that a write to memory cannot change them: on the machine
  this is right only for writes that stay off these bytes.
\<close>

definition image_bytes :: "u64 set" where
  "image_bytes = region 0x10000 0x50000"

definition kernel_bytes :: "'a paging_scheme \<Rightarrow> u64 set" where
  "kernel_bytes s = image_bytes \<union> table_bytes (kernel_pml4 s) (mem s)"

text \<open>
  A set of bytes is guarded when the kernel has no reason to write there: it lies outside the
  bitmap, the screen and the free pages. \<open>untouched\<close> says that it kept its contents.
\<close>

definition guarded :: "u64 set \<Rightarrow> 'a memory_scheme \<Rightarrow> bool" where
  "guarded K s \<longleftrightarrow> K \<inter> (bitmap_area \<union> screen_bytes \<union> page_bytes (avail_pages s)) = {}"

definition untouched :: "u64 set \<Rightarrow> 'a memory_scheme \<Rightarrow> 'a memory_scheme \<Rightarrow> bool" where
  "untouched K s t \<longleftrightarrow> (\<forall>x \<in> K. mem t x = mem s x) \<and> avail_pages t \<subseteq> avail_pages s"

lemma guarded_untouched: "guarded K s \<Longrightarrow> untouched K s t \<Longrightarrow> guarded K t"
  by (auto simp: guarded_def untouched_def page_bytes_def)

lemma frame_untouched: "frame s t \<Longrightarrow> guarded K s \<Longrightarrow> untouched K s t"
  by (auto simp: frame_def guarded_def untouched_def agree_off_def)

lemma image_guarded: "image_bytes \<inter> (bitmap_area \<union> screen_bytes) = {}"
  by (auto simp: image_bytes_def region_iff bitmap_area_iff screen_bytes_iff)

lemma kernel_bytes_guarded:
  assumes "alloc_ok s" "tables_ok (kernel_pml4 s) s"
  shows "guarded (kernel_bytes s) s"
proof -
  have b: "alloc_bounds s" using assms(1) by (simp add: alloc_ok_def)
  have "image_bytes \<inter> region p 4096 = {}" if p: "p \<in> avail_pages s" for p
  proof -
    obtain i where i: "p = page_addr i" "i < total_pages s" using p by (auto simp: avail_pages_def free_pages_def)
    note u = page_addr_bounds [OF b i(2)]
    have "unat (page_addr i) + 4096 \<le> 2 ^ 64" using u unsigned_less [of "memory_end s", where ?'a = nat] by simp
    then show ?thesis using u by (auto simp: image_bytes_def region_iff i(1))
  qed
  then show ?thesis
    using image_guarded tables_off [OF assms] unfolding guarded_def kernel_bytes_def page_bytes_def by blast
qed

subsection \<open>Steps of the machine\<close>

text \<open>
  After its start the kernel waits: \<open>kmain\<close> and \<open>idle_process\<close> end in a loop of \<^verbatim>\<open>hlt\<close>. Steps of
  other code may change any general register, segment selector and byte of memory, except
  the page bitmap and the bytes \<open>K\<close> of the kernel, as long as the stack pointer stays away from
  the bitmap and the screen. Exceptions and interrupts may come between any two steps while the
  stack in use is off \<open>K\<close>, interrupts only while they are enabled; and system calls, as calls
  of the C handler, with any arguments, except \<^verbatim>\<open>SYS_EXEC\<close>. A system call that switches to
  another process is not a step: it leaves the running code for good.
\<close>

definition clear_of :: "u64 set \<Rightarrow> u64 \<Rightarrow> bool" where
  "clear_of K sp \<longleftrightarrow> region (sp - 256) 256 \<inter> K = {}"

inductive kernel_step :: "u64 set \<Rightarrow> u64 \<Rightarrow> u64 \<Rightarrow> (u64 \<Rightarrow> u64 \<Rightarrow> 'a syscall_state_scheme \<Rightarrow> 'a syscall_state_scheme option)
    \<Rightarrow> 'a syscall_state_scheme \<Rightarrow> 'a syscall_state_scheme \<Rightarrow> bool" for K ra ta call where
  Halt: "kernel_step K ra ta call s (hlt s)"
| Execute: "\<lbrakk>agree_off (- (bitmap_area \<union> K)) (mem s) m; safe_sp (r RSP)\<rbrakk>
    \<Longrightarrow> kernel_step K ra ta call s (s\<lparr>mem := m, regs := r, segs := g\<rparr>)"
| Exception: "\<lbrakk>n < 32; clear_of K (regs s RSP); take_interrupt n err (isr_stub n isr_handler) s = Some t\<rbrakk>
    \<Longrightarrow> kernel_step K ra ta call s t"
| Interrupt: "\<lbrakk>n < 16; interrupts_enabled s; clear_of K (regs s RSP);
      take_interrupt (32 + n) 0 (irq_stub n (irq_handler call)) s = Some t\<rbrakk>
    \<Longrightarrow> kernel_step K ra ta call s t"
| Syscall: "\<lbrakk>unat k \<noteq> SYS_EXEC; syscall_handler ra ta k a1 a2 a3 a4 a5 s = Some (Returns v, t)\<rbrakk>
    \<Longrightarrow> kernel_step K ra ta call s t"

definition running :: "'a syscall_state_scheme \<Rightarrow> bool" where
  "running s \<longleftrightarrow> kernel_ok s \<and> irq_handlers s = replicate 16 0"

lemma runningD:
  assumes "running s"
  shows "kernel_ok s" "proc_ok s" "cursor_ok s" "safe_sp (regs s RSP)" "irq_handlers s = replicate 16 0"
  using assms by (auto simp: running_def kernel_ok_def live_def proc_ok_def sps_ok_def)

lemma running_kept:
  assumes "running s" "proc_ok t" "pids_kept s t" "current_process t \<noteq> None"
  shows "running t"
  using assms pids_kept_table [OF assms(3)]
  by (auto simp: running_def kernel_ok_def live_def pids_kept_def hw_view_def)

text \<open>A write to memory, the registers and the devices, off the bitmap, keeps the kernel running.\<close>

lemma written_running:
  assumes "running s" "t = s\<lparr>mem := m, regs := r, segs := g, crtc_index := i, crtc_regs := q, port_log := l\<rparr>" "cursor_ok t"
    and m: "agree_off R (mem s) m" "R \<inter> bitmap_area = {}" and "safe_sp (r RSP)"
  shows "running t" "pids_kept s t" "avail_pages t = avail_pages s" "fresh s \<Longrightarrow> fresh t"
proof -
  note r = runningD [OF assms(1)]
  let ?u = "s\<lparr>mem := m, regs := r\<rparr>"
  have u: "proc_ok ?u" "pids_kept s ?u" using proc_ok_stack_write [where r = r, OF r(2) m assms(6)] by simp_all
  have p: "proc j t = proc j ?u" for j by (simp add: assms(2) proc_def)
  have v: "alloc_ok t = alloc_ok ?u" "avail_pages t = avail_pages ?u" by (rule alloc_view; simp add: assms(2))+
  have k: "used t = used ?u" unfolding used_def p by (rule refl)
  have a: "all_pages t = all_pages ?u" by (simp add: all_pages_def assms(2))
  have "proc_ok t" using u(1) assms(3) by (simp add: proc_ok_def pids_ok_def stacks_ok_def sps_ok_def current_ok_def p v k a) (simp add: assms(2))
  moreover show pk: "pids_kept s t" using u(2) by (simp add: pids_kept_def k p) (simp add: assms(2) hw_view_def)
  moreover have "current_process t \<noteq> None" using r(1) by (simp add: assms(2) kernel_ok_def live_def)
  ultimately show "running t" by (rule running_kept [OF assms(1)])
  have "avail_pages ?u = avail_pages (s\<lparr>mem := m\<rparr>)" by (rule alloc_view; simp)
  then show "avail_pages t = avail_pages s"
    using v(2) alloc_ok_write(2) [OF proc_okD(2) [OF r(2)], of "s\<lparr>mem := m\<rparr>" R] m by simp
  show "fresh s \<Longrightarrow> fresh t" by (simp add: fresh_def p) (simp add: proc_def)
qed

lemma unnoticed_running:
  assumes "running s" "unnoticed s t"
  shows "running t" "pids_kept s t" "fresh s \<Longrightarrow> fresh t" "clear_of K (regs s RSP) \<Longrightarrow> guarded K s \<Longrightarrow> untouched K s t"
proof -
  obtain m i q l where t: "t = s\<lparr>mem := m, regs := (regs s)(RFLAGS := flags_word s), crtc_index := i, crtc_regs := q, port_log := l\<rparr>"
    and m: "agree_off (interrupt_area s \<union> screen_bytes) (mem s) m" and c: "cursor_ok t"
    using assms(2) unfolding unnoticed_def by blast
  have sp: "safe_sp (regs s RSP)" using runningD(4) [OF assms(1)] .
  have R: "(interrupt_area s \<union> screen_bytes) \<inter> bitmap_area = {}" using interrupt_area_below [OF sp] bitmap_screen_disjoint by blast
  have "t = s\<lparr>mem := m, regs := (regs s)(RFLAGS := flags_word s), segs := segs s, crtc_index := i, crtc_regs := q, port_log := l\<rparr>"
    by (simp add: t)
  note w = written_running [OF assms(1) this c m R]
  show "running t" "pids_kept s t" "fresh s \<Longrightarrow> fresh t" using w(1,2,4) sp by simp_all
  show "untouched K s t" if "clear_of K (regs s RSP)" "guarded K s"
  proof -
    have "x \<notin> interrupt_area s \<union> screen_bytes" if "x \<in> K" for x
      using that \<open>clear_of K (regs s RSP)\<close> \<open>guarded K s\<close> interrupt_area_stack [of s] unfolding clear_of_def guarded_def by blast
    then have "\<forall>x \<in> K. mem t x = mem s x" using agree_offD [OF m] by (simp add: t)
    then show ?thesis using w(3) sp by (simp add: untouched_def)
  qed
qed

text \<open>Exceptions, interrupts and system calls are never stuck, and every step keeps the invariant.\<close>

lemma running_progress:
  assumes "running s"
  shows "n < 32 \<Longrightarrow> \<exists>t. take_interrupt n err (isr_stub n isr_handler) s = Some t \<and> unnoticed s t"
    and "n < 16 \<Longrightarrow> \<exists>t. take_interrupt (32 + n) 0 (irq_stub n (irq_handler call)) s = Some t \<and> unnoticed s t
      \<and> port_log t = port_log s @ eoi n"
    and "unat k \<noteq> SYS_EXEC \<Longrightarrow> \<exists>r t. syscall_handler ra ta k a1 a2 a3 a4 a5 s = Some (r, t) \<and> running t \<and> called s r t"
proof -
  note r = runningD [OF assms]
  show "n < 32 \<Longrightarrow> \<exists>t. take_interrupt n err (isr_stub n isr_handler) s = Some t \<and> unnoticed s t"
    by (rule take_exception [OF _ r(3,4)])
  show "n < 16 \<Longrightarrow> \<exists>t. take_interrupt (32 + n) 0 (irq_stub n (irq_handler call)) s = Some t \<and> unnoticed s t
      \<and> port_log t = port_log s @ eoi n"
    by (rule take_irq [OF _ r(3,5)])
  assume "unat k \<noteq> SYS_EXEC"
  from syscall_handler_ok [OF r(1) this] obtain q t where
    t: "syscall_handler ra ta k a1 a2 a3 a4 a5 s = Some (q, t)" "kernel_ok t" "called s q t" by blast
  then have "running t" using running_kept [OF assms] called_pids [OF t(3)] by (simp add: kernel_ok_def live_def)
  then show "\<exists>r t. syscall_handler ra ta k a1 a2 a3 a4 a5 s = Some (r, t) \<and> running t \<and> called s r t" using t by blast
qed

definition kept_running :: "u64 set \<Rightarrow> 'a syscall_state_scheme \<Rightarrow> 'a syscall_state_scheme \<Rightarrow> bool" where
  "kept_running K s t \<longleftrightarrow> pids_kept s t \<and> untouched K s t \<and> (fresh s \<longrightarrow> fresh t)"

lemma kept_running_refl: "kept_running K s s"
  by (simp add: kept_running_def untouched_def)

lemma kept_running_trans: "kept_running K s t \<Longrightarrow> kept_running K t u \<Longrightarrow> kept_running K s u"
  by (auto simp: kept_running_def untouched_def intro: pids_kept_trans)

lemma kernel_step_running:
  assumes "kernel_step K ra ta call s t" "running s" "guarded K s"
  shows "running t \<and> kept_running K s t"
  using assms(1)
proof cases
  case Halt
  then show ?thesis using assms(2) by (simp add: hlt_def kept_running_refl)
next
  case (Execute m r g)
  have t: "t = s\<lparr>mem := m, regs := r, segs := g, crtc_index := crtc_index s, crtc_regs := crtc_regs s, port_log := port_log s\<rparr>"
    by (simp add: Execute(1))
  have "cursor_ok t" using runningD(3) [OF assms(2)] cursor_ok_regs [of t s] by (simp add: Execute(1))
  note w = written_running [OF assms(2) t this Execute(2) _ Execute(3)]
  have "untouched K s t" using w(3) Execute(2) by (auto simp: untouched_def Execute(1) agree_off_def)
  then show ?thesis using w(1,2,4) by (auto simp: kept_running_def)
next
  case (Exception n err)
  then have "unnoticed s t" using running_progress(1) [OF assms(2), of n err] by auto
  then show ?thesis using unnoticed_running [OF assms(2)] Exception(2) assms(3) by (simp add: kept_running_def)
next
  case (Interrupt n)
  then have "unnoticed s t" using running_progress(2) [OF assms(2), of n call] by auto
  then show ?thesis using unnoticed_running [OF assms(2)] Interrupt(3) assms(3) by (simp add: kept_running_def)
next
  case (Syscall k a1 a2 a3 a4 a5 v)
  then have "running t" "served s t" using running_progress(3) [OF assms(2), of k ra ta a1 a2 a3 a4 a5] by auto
  then show ?thesis using frame_untouched [OF _ assms(3)] by (simp add: kept_running_def served_def)
qed

interpretation live_kernel: invariant_system "kernel_step K ra ta call" "\<lambda>s. running s \<and> guarded K s" "kept_running K" for K ra ta call
proof
  show "(running t \<and> guarded K t) \<and> kept_running K s t" if "kernel_step K ra ta call s t" "running s \<and> guarded K s"
    for s t :: "'a syscall_state_scheme"
    using kernel_step_running [OF that(1)] that(2) guarded_untouched by (auto simp: kept_running_def)
qed (rule kept_running_refl, rule kept_running_trans)

subsection \<open>Properties of the running kernel\<close>



end
