(* ===== verification/Boot.thy ===== *)
theory Boot
  imports Kernel
begin

text \<open>
  The boot loader, \<^verbatim>\<open>boot/\<close>: sixteen-bit code that asks the BIOS for the memory map and reads
  the kernel from the disk, and thirty-two-bit code that builds the first page tables and
  enters long mode. The BIOS services are parameters: functions on the state of real mode.
  In real mode \<^verbatim>\<open>ds\<close> and \<^verbatim>\<open>ss\<close> are zero, as the first instructions set them, so that only \<^verbatim>\<open>es\<close> is
  a field; the upper half of \<^verbatim>\<open>esp\<close> is zero, and the loader's static variables are fields of the
  state. A \<^verbatim>\<open>call\<close> is the application of a definition; its return address is not stored. The
  addresses of the two descriptor tables in the boot sector are parameters.
\<close>

subsection \<open>Real mode\<close>

record real_mode =
  eax :: u32
  ecx :: u32
  edx :: u32
  ebx :: u32
  ebp :: u32
  esi :: u32
  edi :: u32
  sp :: u16
  es :: u16
  cf :: bool
  rmem :: memory_bytes

record boot = real_mode +
  entry_count :: u32
  BOOT_DRIVE :: u8
  DISK_ERROR_CODE :: u8

text \<open>A BIOS service works on the registers and the memory, not on the loader's variables.\<close>

definition service :: "(real_mode \<Rightarrow> real_mode) \<Rightarrow> 'a real_mode_scheme \<Rightarrow> 'a real_mode_scheme" where
  "service f s = real_mode.extend (f (real_mode.truncate s)) (real_mode.more s)"

lemma service_simps [simp]:
  "eax (service f s) = eax (f (real_mode.truncate s))" "ecx (service f s) = ecx (f (real_mode.truncate s))"
  "edx (service f s) = edx (f (real_mode.truncate s))" "ebx (service f s) = ebx (f (real_mode.truncate s))"
  "edi (service f s) = edi (f (real_mode.truncate s))" "sp (service f s) = sp (f (real_mode.truncate s))"
  "es (service f s) = es (f (real_mode.truncate s))" "cf (service f s) = cf (f (real_mode.truncate s))"
  "rmem (service f s) = rmem (f (real_mode.truncate s))" "real_mode.more (service f s) = real_mode.more s"
  by (simp_all add: service_def real_mode.defs)

lemma service_variables [simp]:
  "entry_count (service f s) = entry_count s" "BOOT_DRIVE (service f s) = BOOT_DRIVE s"
  by (cases s; simp add: service_def real_mode.defs)+

lemma truncate_simps [simp]:
  "eax (real_mode.truncate s) = eax s" "ecx (real_mode.truncate s) = ecx s" "edx (real_mode.truncate s) = edx s"
  "ebx (real_mode.truncate s) = ebx s" "edi (real_mode.truncate s) = edi s" "sp (real_mode.truncate s) = sp s"
  "es (real_mode.truncate s) = es s" "rmem (real_mode.truncate s) = rmem s"
  by (simp_all add: real_mode.defs)

text \<open>The sixteen-bit half of a register, and the bytes of that half.\<close>

definition low16 :: "u32 \<Rightarrow> u16" where "low16 r = ucast r"
definition set_low16 :: "u16 \<Rightarrow> u32 \<Rightarrow> u32" where "set_low16 v r = (push_bit 16 (drop_bit 16 r) OR ucast v)"
definition low8 :: "u32 \<Rightarrow> u8" where "low8 r = ucast r"
definition high8 :: "u32 \<Rightarrow> u8" where "high8 r = ucast (drop_bit 8 r)"
definition set_low8 :: "u8 \<Rightarrow> u32 \<Rightarrow> u32" where "set_low8 v r = (push_bit 8 (drop_bit 8 r) OR ucast v)"
definition set_high8 :: "u8 \<Rightarrow> u32 \<Rightarrow> u32" where 
  "set_high8 v r = (push_bit 16 (drop_bit 16 r) OR push_bit 8 (ucast v) OR take_bit 8 r)"

lemma low16_simps [simp]: "low16 (set_low16 v r) = v" "low16 (of_nat n) = of_nat n"
  unfolding low16_def set_low16_def by (rule bit_word_eqI; auto simp: bit_simps)+

definition push16 :: "u16 \<Rightarrow> 'a real_mode_scheme \<Rightarrow> 'a real_mode_scheme" where
  "push16 v s = s\<lparr>sp := sp s - 2, rmem := write_u16 (rmem s) (ucast (sp s - 2)) v\<rparr>"

definition pop16 :: "'a real_mode_scheme \<Rightarrow> u16 \<times> 'a real_mode_scheme" where
  "pop16 s = (read_u16 (rmem s) (ucast (sp s)), s\<lparr>sp := sp s + 2\<rparr>)"

text \<open>\<^verbatim>\<open>pusha\<close> stores \<^verbatim>\<open>ax\<close>, \<^verbatim>\<open>cx\<close>, \<^verbatim>\<open>dx\<close>, \<^verbatim>\<open>bx\<close>, \<^verbatim>\<open>sp\<close>, \<^verbatim>\<open>bp\<close>, \<^verbatim>\<open>si\<close>, \<^verbatim>\<open>di\<close> in this order, and \<^verbatim>\<open>popa\<close> skips \<^verbatim>\<open>sp\<close>.\<close>

definition pusha :: "'a real_mode_scheme \<Rightarrow> 'a real_mode_scheme" where
  "pusha s = fold push16
     [low16 (eax s), low16 (ecx s), low16 (edx s), low16 (ebx s), sp s, low16 (ebp s), low16 (esi s), low16 (edi s)] s"

definition popa :: "'a real_mode_scheme \<Rightarrow> 'a real_mode_scheme" where
  "popa s =
     (let (v, s) = pop16 s; s = s\<lparr>edi := set_low16 v (edi s)\<rparr>;
          (v, s) = pop16 s; s = s\<lparr>esi := set_low16 v (esi s)\<rparr>;
          (v, s) = pop16 s; s = s\<lparr>ebp := set_low16 v (ebp s)\<rparr>;
          (v, s) = pop16 s;
          (v, s) = pop16 s; s = s\<lparr>ebx := set_low16 v (ebx s)\<rparr>;
          (v, s) = pop16 s; s = s\<lparr>edx := set_low16 v (edx s)\<rparr>;
          (v, s) = pop16 s; s = s\<lparr>ecx := set_low16 v (ecx s)\<rparr>;
          (v, s) = pop16 s
      in s\<lparr>eax := set_low16 v (eax s)\<rparr>)"

lemma popa_reads:
  "popa s = s\<lparr>edi := set_low16 (read_u16 (rmem s) (ucast (sp s))) (edi s), esi := set_low16 (read_u16 (rmem s) (ucast (sp s + 2))) (esi s),
     ebp := set_low16 (read_u16 (rmem s) (ucast (sp s + 4))) (ebp s), ebx := set_low16 (read_u16 (rmem s) (ucast (sp s + 8))) (ebx s),
     edx := set_low16 (read_u16 (rmem s) (ucast (sp s + 10))) (edx s), ecx := set_low16 (read_u16 (rmem s) (ucast (sp s + 12))) (ecx s),
     eax := set_low16 (read_u16 (rmem s) (ucast (sp s + 14))) (eax s), sp := sp s + 16\<rparr>"
  by (cases s) (simp add: popa_def pop16_def Let_def algebra_simps)

lemma ucast_sp:
  assumes "unat (p :: u16) + n < 2 ^ 16"
  shows "(ucast (p + of_nat n) :: u64) = ucast p + of_nat n"
proof -
  have "unat (p + of_nat n) = unat p + n" using assms by (simp add: unat_word_ariths(1) unat_of_nat)
  moreover have "unat (ucast p + of_nat n :: u64) = unat p + n" using assms by (simp add: unat_word_ariths(1) unat_of_nat unat_ucast_up)
  ultimately show ?thesis by (simp add: word_unat_eq_iff unat_ucast_up)
qed

lemma unat_sp_minus:
  assumes "n \<le> unat (p :: u16)"
  shows "unat (p - of_nat n) = unat p - n"
proof -
  have "unat (of_nat n :: u16) = n" using assms unsigned_less [of p, where ?'a = nat] by (simp add: unat_of_nat)
  then show ?thesis using assms by (simp add: unat_sub word_le_nat_alt)
qed

lemma pushes:
  assumes "2 * length vs \<le> unat (sp s)"
  shows "\<exists>m. fold push16 vs s = s\<lparr>sp := sp s - of_nat (2 * length vs), rmem := m\<rparr>
    \<and> (\<forall>k<length vs. read_u16 m (ucast (sp s - of_nat (2 * length vs)) + of_nat (2 * k)) = rev vs ! k)
    \<and> agree_off (region (ucast (sp s - of_nat (2 * length vs))) (2 * length vs)) (rmem s) m"
  using assms
proof (induction vs rule: rev_induct)
  case Nil
  have "fold push16 [] s = s\<lparr>sp := sp s - of_nat (2 * length []), rmem := rmem s\<rparr>" by simp
  then show ?case by fastforce
next
  case (snoc v vs)
  let ?l = "length vs" and ?q = "ucast (sp s - of_nat (2 * length (vs @ [v]))) :: u64"
  obtain m where m: "fold push16 vs s = s\<lparr>sp := sp s - of_nat (2 * ?l), rmem := m\<rparr>"
    "\<forall>k<?l. read_u16 m (ucast (sp s - of_nat (2 * ?l)) + of_nat (2 * k)) = rev vs ! k"
    "agree_off (region (ucast (sp s - of_nat (2 * ?l))) (2 * ?l)) (rmem s) m" using snoc by auto
  have u: "unat (sp s - of_nat (2 * length (vs @ [v]))) = unat (sp s) - 2 * length (vs @ [v])"
    by (rule unat_sp_minus [OF snoc.prems])
  have q: "ucast (sp s - of_nat (2 * ?l)) = ?q + 2"
    using ucast_sp [of "sp s - of_nat (2 * length (vs @ [v]))" 2] u snoc.prems unsigned_less [of "sp s", where ?'a = nat] by simp
  have uq: "unat ?q = unat (sp s) - 2 * length (vs @ [v])" "unat (?q + 2) = unat ?q + 2"
    using u snoc.prems unsigned_less [of "sp s", where ?'a = nat] by (simp_all add: unat_ucast_up unat_word_ariths(1))
  have w: "fold push16 (vs @ [v]) s = s\<lparr>sp := sp s - of_nat (2 * length (vs @ [v])), rmem := write_u16 m ?q v\<rparr>"
    using m(1) by (simp add: push16_def algebra_simps)
  have "read_u16 (write_u16 m ?q v) (?q + of_nat (2 * k)) = rev (vs @ [v]) ! k" if "k < length (vs @ [v])" for k
  proof (cases k)
    case (Suc j)
    have j: "unat (?q + 2 + of_nat (2 * j)) = unat ?q + 2 + 2 * j"
      using Suc that snoc.prems uq unsigned_less [of "sp s", where ?'a = nat]
      by (subst unat_word_ariths(1)) (simp add: unat_of_nat del: of_nat_mult)
    have "read_u16 (write_u16 m ?q v) (?q + 2 + of_nat (2 * j)) = read_u16 m (?q + 2 + of_nat (2 * j))"
      by (intro read_u16_cong write_u16_off)
         (use uq j Suc that snoc.prems unsigned_less [of "sp s", where ?'a = nat] in \<open>auto simp: region_iff\<close>)
    also have "\<dots> = rev vs ! j" using m(2) [unfolded q] Suc that by simp
    finally show ?thesis using Suc by (simp add: add.assoc)
  qed simp
  moreover have "agree_off (region ?q (2 * length (vs @ [v]))) (rmem s) (write_u16 m ?q v)"
    unfolding agree_off_def
  proof (intro allI impI)
    fix x assume x: "x \<notin> region ?q (2 * length (vs @ [v]))"
    have "x \<notin> region ?q 2" "x \<notin> region (?q + 2) (2 * ?l)"
      using x uq snoc.prems unsigned_less [of "sp s", where ?'a = nat] by (auto simp: region_iff)
    then show "write_u16 m ?q v x = rmem s x" using m(3) [unfolded q agree_off_def] write_u16_off by metis
  qed
  ultimately show ?case using w by blast
qed

subsection \<open>The memory map, \<^verbatim>\<open>memory.asm\<close>\<close>

abbreviation (input) SMAP :: u32 where "SMAP \<equiv> 0x534D4150"

definition store_count :: "u32 \<Rightarrow> boot \<Rightarrow> boot" where
  "store_count n s =
     (let s = s\<lparr>edi := set_low16 0x5000 (edi s)\<rparr>
      in s\<lparr>rmem := write_u32 (rmem s) (ucast (low16 (edi s))) n\<rparr>)"

definition memory_done :: "boot \<Rightarrow> boot" where
  "memory_done s = (let s = s\<lparr>eax := entry_count s\<rparr> in store_count (eax s) s)"

definition memory_error :: "boot \<Rightarrow> boot" where
  "memory_error s = store_count 0 s"

text \<open>
  The loop asks for one entry per round. The service may leave anything in the registers; the
  loop ends because it counts the rounds in \<^verbatim>\<open>entry_count\<close>.
\<close>

function memory_loop :: "(real_mode \<Rightarrow> real_mode) \<Rightarrow> boot \<Rightarrow> boot" where
  "memory_loop int15 s =
     (let s' = service int15 (s\<lparr>eax := 0xE820\<rparr>)
      in if cf s' then memory_done s'
         else if eax s' \<noteq> SMAP then memory_error s'
         else let s' = s'\<lparr>entry_count := entry_count s' + 1, edi := set_low16 (low16 (edi s') + low16 (ecx s')) (edi s')\<rparr>
         in if ebx s' = 0 then memory_done s'
            else if entry_count s' < 32 then memory_loop int15 s'
            else memory_done s')"
  by pat_completeness auto
termination
proof (relation "measure (\<lambda>(_, s). 32 - unat (entry_count s + 1))", goal_cases)
  case (2 int15 s s' t)
  have "entry_count s + 1 < 32" using 2 by simp
  then have "unat (entry_count s + 1 + 1) = Suc (unat (entry_count s + 1))" "unat (entry_count s + 1) < 32"
    using unat_plus_one [of "entry_count s + 1" 32] by (auto simp: word_less_nat_alt)
  then show ?case using 2 by simp
qed simp

declare memory_loop.simps [simp del]

definition detect_setup :: "boot \<Rightarrow> boot" where
  "detect_setup s =
     (let s = pusha s;
          s = push16 (es s) s;
          s = push16 (low16 (edi s)) s;
          s = s\<lparr>eax := set_low16 0 (eax s)\<rparr>;
          s = s\<lparr>es := low16 (eax s)\<rparr>;
          s = s\<lparr>edi := set_low16 (0x5000 + 2) (edi s)\<rparr>
      in s\<lparr>ebx := 0, edx := SMAP, ecx := 24, entry_count := 0\<rparr>)"

definition detect_return :: "boot \<Rightarrow> boot" where
  "detect_return s =
     (let (v, s) = pop16 s; s = s\<lparr>edi := set_low16 v (edi s)\<rparr>;
          (v, s) = pop16 s; s = s\<lparr>es := v\<rparr>
      in popa s)"

definition detect_memory :: "(real_mode \<Rightarrow> real_mode) \<Rightarrow> boot \<Rightarrow> boot" where
  "detect_memory int15 s = detect_return (memory_loop int15 (detect_setup s))"

subsection \<open>The kernel image, \<^verbatim>\<open>disk.asm\<close>\<close>

text \<open>
  \<^verbatim>\<open>disk_load\<close> does not return after an error: it stores the status of the BIOS, or nothing, and
  loops. The two loops are the errors of the result.
\<close>

datatype boot_error = disk_error boot | sectors_error boot

definition disk_request :: "boot \<Rightarrow> boot" where
  "disk_request s =
     (let s = s\<lparr>eax := set_high8 0x02 (eax s)\<rparr>;
          s = s\<lparr>eax := set_low8 (high8 (edx s)) (eax s)\<rparr>;
          s = s\<lparr>ecx := set_low8 0x02 (ecx s)\<rparr>;
          s = s\<lparr>ecx := set_high8 0 (ecx s)\<rparr>
      in s\<lparr>edx := set_high8 0 (edx s)\<rparr>)"

definition disk_load :: "(real_mode \<Rightarrow> real_mode) \<Rightarrow> boot \<Rightarrow> boot_error + boot" where
  "disk_load int13 s =
     (let s = pusha s;
          s = service int13 (disk_request s)
      in if cf s then Inl (disk_error (s\<lparr>DISK_ERROR_CODE := high8 (eax s)\<rparr>))
         else if low8 (eax s) \<noteq> rmem s (ucast (sp s) + 10) then Inl (sectors_error s)
         else Inr (popa s))"

subsection \<open>Descriptor tables, \<^verbatim>\<open>gdt32.asm\<close> and \<^verbatim>\<open>gdt64.asm\<close>\<close>

text \<open>The assembler's data directives, and the two tables byte by byte.\<close>

definition dw :: "u16 \<Rightarrow> u8 list" where "dw v = [ucast v, ucast (drop_bit 8 v)]"
definition dd :: "u32 \<Rightarrow> u8 list" where "dd v = dw (ucast v) @ dw (ucast (drop_bit 16 v))"
definition dq :: "u64 \<Rightarrow> u8 list" where "dq v = dd (ucast v) @ dd (ucast (drop_bit 32 v))"

abbreviation (input) SEG_PRESENT :: u8 where "SEG_PRESENT \<equiv> push_bit 7 1"
abbreviation (input) NOT_SYS :: u8 where "NOT_SYS \<equiv> push_bit 4 1"
abbreviation (input) EXEC :: u8 where "EXEC \<equiv> push_bit 3 1"
abbreviation (input) RW :: u8 where "RW \<equiv> push_bit 1 1"
abbreviation (input) GRAN_4K :: u8 where "GRAN_4K \<equiv> push_bit 7 1"
abbreviation (input) SZ_32 :: u8 where "SZ_32 \<equiv> push_bit 6 1"
abbreviation (input) LONG_MODE :: u8 where "LONG_MODE \<equiv> push_bit 5 1"

definition gdt32 :: "u8 list" where
  "gdt32 = dq 0x0
     @ dw 0xFFFF @ dw 0x0000 @ [0x00, 0x9A, 0xCF, 0x00]
     @ dw 0xFFFF @ dw 0x0000 @ [0x00, 0x92, 0xCF, 0x00]"

definition gdt64 :: "u8 list" where
  "gdt64 = dq 0
     @ dd 0xFFFF @ [0, SEG_PRESENT OR NOT_SYS OR EXEC OR RW, GRAN_4K OR LONG_MODE OR 0xF, 0]
     @ dd 0xFFFF @ [0, SEG_PRESENT OR NOT_SYS OR RW, GRAN_4K OR SZ_32 OR 0xF, 0]
     @ dd 0x00000068 @ dd 0x00CF8900"

text \<open>
  The access byte and the flags of the descriptor a selector names, and how the processor reads
  them: bit 7 of the access byte is set in a present segment, bit 4 in one for code or data,
  bit 3 in one for code; bit 5 of the flags marks 64-bit code, and bit 6 must then be clear.
\<close>

definition in_table :: "u8 list \<Rightarrow> u64 \<Rightarrow> bool" where
  "in_table g sel \<longleftrightarrow> unat sel + 8 \<le> length g"

definition code_segment :: "u8 list \<Rightarrow> u64 \<Rightarrow> bool" where
  "code_segment g sel \<longleftrightarrow> in_table g sel \<and> bit (g ! (unat sel + 5)) 7 \<and> bit (g ! (unat sel + 5)) 4 \<and> bit (g ! (unat sel + 5)) 3"

definition code64_segment :: "u8 list \<Rightarrow> u64 \<Rightarrow> bool" where
  "code64_segment g sel \<longleftrightarrow> code_segment g sel \<and> bit (g ! (unat sel + 6)) 5 \<and> \<not> bit (g ! (unat sel + 6)) 6"

definition data_segment :: "u8 list \<Rightarrow> u64 \<Rightarrow> bool" where
  "data_segment g sel \<longleftrightarrow> in_table g sel \<and> bit (g ! (unat sel + 5)) 7 \<and> bit (g ! (unat sel + 5)) 4 \<and> \<not> bit (g ! (unat sel + 5)) 3"

text \<open>The bits of a selector that give the place of its descriptor; the others are the privilege and the table.\<close>

definition sel_offset :: "u16 \<Rightarrow> u64" where
  "sel_offset sel = ucast (sel AND NOT 7)"

text \<open>Base and limit of a segment are spread over the descriptor.\<close>

definition seg_base :: "u8 list \<Rightarrow> u64 \<Rightarrow> u32" where
  "seg_base g sel = (let b = \<lambda>i. ucast (g ! (unat sel + i)) in b 2 OR push_bit 8 (b 3) OR push_bit 16 (b 4) OR push_bit 24 (b 7))"

definition seg_limit :: "u8 list \<Rightarrow> u64 \<Rightarrow> u32" where
  "seg_limit g sel = (let b = \<lambda>i. ucast (g ! (unat sel + i)) in b 0 OR push_bit 8 (b 1) OR push_bit 16 (b 6 AND 0xF))"

subsection \<open>Entry point and the way to long mode, \<^verbatim>\<open>boot.asm\<close> and \<^verbatim>\<open>pmode.asm\<close>\<close>

definition start :: "(real_mode \<Rightarrow> real_mode) \<Rightarrow> (real_mode \<Rightarrow> real_mode) \<Rightarrow> boot \<Rightarrow> boot_error + boot" where
  "start int15 int13 s =
     (let s = s\<lparr>eax := set_low16 0 (eax s)\<rparr>;
          s = s\<lparr>es := low16 (eax s), sp := 0x8000\<rparr>;
          s = s\<lparr>BOOT_DRIVE := low8 (edx s)\<rparr>;
          s = detect_memory int15 s;
          s = s\<lparr>eax := set_low16 0x1000 (eax s)\<rparr>;
          s = s\<lparr>es := low16 (eax s)\<rparr>;
          s = s\<lparr>ebx := set_low16 0 (ebx s)\<rparr>;
          s = s\<lparr>edx := set_high8 128 (edx s)\<rparr>;
          s = s\<lparr>edx := set_low8 (BOOT_DRIVE s) (edx s)\<rparr>
      in disk_load int13 s)"

text \<open>
  In protected mode the machine is that of the kernel, with the registers and the memory that
  real mode leaves. Writing a thirty-two-bit register clears the upper half of the
  sixty-four-bit one.
\<close>

definition machine_of :: "boot \<Rightarrow> 'a machine_scheme \<Rightarrow> 'a machine_scheme" where
  "machine_of r s =
     s\<lparr>mem := rmem r,
       regs := (regs s)(RAX := ucast (eax r), RBX := ucast (ebx r), RCX := ucast (ecx r), RDX := ucast (edx r),
         RSI := ucast (esi r), RDI := ucast (edi r), RBP := ucast (ebp r), RSP := ucast (sp r)),
       segs := (segs s)(ES := es r, DS := 0, SS := 0)\<rparr>"

text \<open>\<^verbatim>\<open>lgdt\<close>: the descriptor holds the size of the table less one, and its address.\<close>

definition lgdt :: "u8 list \<Rightarrow> u64 \<Rightarrow> 'a machine_scheme \<Rightarrow> 'a machine_scheme" where
  "lgdt g a s = s\<lparr>gdtr := (of_nat (length g) - 1, a)\<rparr>"

abbreviation (input) CODE_SEG32 :: u16 where "CODE_SEG32 \<equiv> 0x08"
abbreviation (input) DATA_SEG32 :: u16 where "DATA_SEG32 \<equiv> 0x10"
abbreviation (input) CODE_SEG :: u16 where "CODE_SEG \<equiv> 0x08"

definition init_pm :: "'a machine_scheme \<Rightarrow> 'a machine_scheme" where
  "init_pm s = set_reg RSP 0x9000 s"

definition switch_to_pm :: "u64 \<Rightarrow> 'a machine_scheme \<Rightarrow> 'a machine_scheme" where
  "switch_to_pm gdt32_addr s =
     (let s = cli s;
          s = lgdt gdt32 gdt32_addr s;
          s = set_reg RAX ((cr0 s AND 0xFFFFFFFF) OR 0x1) s;
          s = s\<lparr>cr0 := regs s RAX\<rparr>;
          s = set_seg CS CODE_SEG32 s
      in init_pm s)"

fun SetEntry :: "nat \<Rightarrow> u32 \<Rightarrow> u32 \<Rightarrow> memory_bytes \<Rightarrow> memory_bytes" where
  "SetEntry 0 d b m = m"
| "SetEntry (Suc c) d b m = SetEntry c (d + 8) (b + 0x1000) (write_u32 m (ucast (d + 0x3000)) b)"

fun rep_stosd :: "nat \<Rightarrow> u32 \<Rightarrow> u32 \<Rightarrow> memory_bytes \<Rightarrow> memory_bytes" where
  "rep_stosd 0 d a m = m"
| "rep_stosd (Suc c) d a m = rep_stosd c (d + 4) a (write_u32 m (ucast d) a)"

definition boot_tables :: "memory_bytes \<Rightarrow> memory_bytes" where
  "boot_tables m =
     (let m = rep_stosd 1024 0x1000 0 m;
          d = 0x1000 :: u32;
          m = write_u32 m (ucast d) 0x2003;
          m = write_u32 m (ucast (d + 0x1000)) 0x3003;
          m = write_u32 m (ucast (d + 0x2000)) 0x4003
      in SetEntry 512 d 0x00000003 m)"

text \<open>\<^verbatim>\<open>mov cr4, eax\<close> and \<^verbatim>\<open>mov cr0, eax\<close> take the thirty-two bits of the register.\<close>

definition enter_long_mode :: "'a machine_scheme \<Rightarrow> 'a machine_scheme" where
  "enter_long_mode s =
     (let s = s\<lparr>cr4 := (cr4 s AND 0xFFFFFFFF) OR push_bit 5 1\<rparr>;
          s = set_reg RCX 0xC0000080 s;
          s = set_reg RDX (drop_bit 32 (msr s 0xC0000080)) s;
          s = set_reg RAX (rdmsr_rax 0xC0000080 s OR push_bit 8 1) s;
          s = wrmsr 0xC0000080 (regs s RAX) (regs s RDX) s;
          s = set_reg RAX ((cr0 s AND 0xFFFFFFFF) OR (push_bit 31 1 OR push_bit 0 1)) s
      in s\<lparr>cr0 := regs s RAX\<rparr>)"

definition begin_lm :: "'a machine_scheme \<Rightarrow> 'a machine_scheme" where
  "begin_lm s =
     (let s = set_reg RSP 0x9000 s
      in s\<lparr>mem := write_u32 (mem s) 0xB8000 0x2F532F4F\<rparr>)"

text \<open>After the loop that fills the last table, \<^verbatim>\<open>edi\<close> and \<^verbatim>\<open>ebx\<close> have advanced by 512 entries and pages.\<close>

definition begin_pm :: "u64 \<Rightarrow> 'a machine_scheme \<Rightarrow> 'a machine_scheme" where
  "begin_pm gdt64_addr s =
     (let s = fold (\<lambda>q. set_seg q DATA_SEG32) [DS, SS, ES, FS, GS] s;
          s = set_reg RSP 0x9000 (set_reg RBP 0x9000 s);
          s = s\<lparr>cr3 := 0x1000\<rparr>;
          s = s\<lparr>mem := boot_tables (mem s)\<rparr>;
          s = set_reg RBX (0x3 + 512 * 0x1000) (set_reg RDI (0x1000 + 512 * 8) s);
          s = enter_long_mode s;
          s = lgdt gdt64 gdt64_addr s;
          s = set_seg CS CODE_SEG s
      in begin_lm s)"

text \<open>
  The whole loader: the thirty-two-bit code runs on the machine that real mode leaves, and ends
  with a jump to the kernel image at \<^verbatim>\<open>0x10000\<close>.
\<close>

definition boot_loader :: "(real_mode \<Rightarrow> real_mode) \<Rightarrow> (real_mode \<Rightarrow> real_mode) \<Rightarrow> u64 \<Rightarrow> u64 \<Rightarrow> boot \<Rightarrow> 'a machine_scheme
    \<Rightarrow> boot_error + 'a machine_scheme" where
  "boot_loader int15 int13 gdt32_addr gdt64_addr r s =
     (case start int15 int13 r of
        Inl e \<Rightarrow> Inl e
      | Inr r \<Rightarrow> Inr (set_reg RIP 0x10000 (begin_pm gdt64_addr (switch_to_pm gdt32_addr (machine_of r s)))))"

end
