(* ===== verification/Boot_Memory.thy ===== *)
theory Boot_Memory
  imports Boot
begin

text \<open>
  The memory map the boot loader leaves for the kernel. The contract of the BIOS service
  \<^verbatim>\<open>INT 15h, AX=E820h\<close> is \<open>smap_service\<close>; the theorems follow the entries from the answers of
  the service to the fields the kernel reads.
\<close>

subsection \<open>The service\<close>

fun store_words :: "memory_bytes \<Rightarrow> u64 \<Rightarrow> u32 list \<Rightarrow> memory_bytes" where
  "store_words m a [] = m"
| "store_words m a (w # ws) = store_words (write_u32 m a w) (a + 4) ws"

text \<open>
  The service answers request \<open>i\<close>, named by the continuation value \<open>cont i\<close> in \<^verbatim>\<open>ebx\<close>, with entry
  \<open>i\<close> of its table: \<open>sz\<close> bytes at \<^verbatim>\<open>es:di\<close>, the size in \<^verbatim>\<open>ecx\<close>, and zero in \<^verbatim>\<open>ebx\<close> after the last
  entry. It leaves \<^verbatim>\<open>edx\<close>, \<^verbatim>\<open>di\<close>, \<^verbatim>\<open>es\<close>, the caller's stack and the rest of the memory in which the
  loader builds its tables alone; other memory may change.
\<close>

definition map_area :: "u16 \<Rightarrow> u64 set" where
  "map_area p = {a. 0x1000 \<le> unat a \<and> unat a < 0x5500 \<or> unat p \<le> unat a \<and> unat a < unat p + 20}"

definition smap_service :: "(real_mode \<Rightarrow> real_mode) \<Rightarrow> (nat \<Rightarrow> u32) \<Rightarrow> u32 list list \<Rightarrow> nat \<Rightarrow> bool" where
  "smap_service int15 cont tab w \<longleftrightarrow>
     tab \<noteq> [] \<and> cont 0 = 0 \<and> (\<forall>i. 0 < i \<and> i < length tab \<longrightarrow> cont i \<noteq> 0) \<and> (\<forall>e \<in> set tab. length e = w)
     \<and> (\<forall>s i. i < length tab \<and> eax s = 0xE820 \<and> edx s = SMAP \<and> 4 * w \<le> unat (ecx s) \<and> ebx s = cont i \<longrightarrow>
          (let t = int15 s
           in \<not> cf t \<and> eax t = SMAP \<and> ecx t = of_nat (4 * w) \<and> edx t = SMAP
              \<and> ebx t = (if Suc i = length tab then 0 else cont (Suc i))
              \<and> es t = es s \<and> edi t = edi s \<and> sp t = sp s
              \<and> (\<forall>a \<in> map_area (sp s). rmem t a = store_words (rmem s) (16 * ucast (es s) + ucast (low16 (edi s))) (tab ! i) a)))"

lemma write_u32_at:
  assumes "m x = m' x"
  shows "write_u32 m a v x = write_u32 m' a v x"
  using assms by (simp add: write_u32_def write_u16_def)

lemma store_words_at: "m x = m' x \<Longrightarrow> store_words m a ws x = store_words m' a ws x"
proof (induction ws arbitrary: m m' a)
  case (Cons w ws)
  show ?case using Cons.IH [of "write_u32 m a w" "write_u32 m' a w" "a + 4"] write_u32_at [of m x m', OF Cons.prems] by simp
qed simp

lemma store_words_off: "x \<notin> region a (4 * length ws) \<Longrightarrow> unat a + 4 * length ws \<le> 2 ^ 64 \<Longrightarrow> store_words m a ws x = m x"
proof (induction ws arbitrary: m a)
  case (Cons w ws)
  show ?case
  proof (cases ws)
    case Nil
    then show ?thesis using Cons.prems by (simp add: write_u32_off)
  next
    case (Cons w' ws')
    with Cons.prems(2) have a: "unat (a + 4) = unat a + 4" by (simp add: unat_word_ariths)
    have "x \<notin> region (a + 4) (4 * length ws)" "x \<notin> region a 4"
      using Cons.prems a by (auto simp: region_iff)
    then show ?thesis using Cons.IH [of "a + 4"] Cons.prems(2) a by (simp add: write_u32_off)
  qed
qed simp

lemma store_words_read:
  "k < length ws \<Longrightarrow> unat a + 4 * length ws < 2 ^ 64 \<Longrightarrow> read_u32 (store_words m a ws) (a + 4 * of_nat k) = ws ! k"
proof (induction ws arbitrary: m a k)
  case (Cons w ws)
  have a: "unat (a + 4) = unat a + 4" using Cons.prems(2) by (simp add: unat_word_ariths)
  show ?case
  proof (cases k)
    case 0
    have "read_u32 (store_words (write_u32 m a w) (a + 4) ws) a = read_u32 (write_u32 m a w) a"
      by (intro read_u32_cong store_words_off) (use Cons.prems(2) a in \<open>auto simp: region_iff\<close>)
    then show ?thesis by (simp add: 0)
  next
    case (Suc j)
    then show ?thesis using Cons.IH [of j "a + 4" "write_u32 m a w"] Cons.prems a by (simp add: algebra_simps)
  qed
qed simp

subsection \<open>The stored entries\<close>

definition entry_at :: "nat \<Rightarrow> nat \<Rightarrow> u64" where
  "entry_at w i = 0x5002 + of_nat (4 * w * i)"

definition stored :: "u32 list list \<Rightarrow> nat \<Rightarrow> nat \<Rightarrow> memory_bytes \<Rightarrow> memory_bytes" where
  "stored tab w n m = fold (\<lambda>i m. store_words m (entry_at w i) (tab ! i)) [0..<n] m"

lemma entry_at_unat:
  assumes "w \<le> 6" "i \<le> 32"
  shows "unat (entry_at w i) = 0x5002 + 4 * w * i" "4 * w * i \<le> 768"
    "unat (entry_at w i) + 4 * w \<le> 0x5400"
proof -
  have "4 * w * i \<le> 4 * 6 * 32" using assms by (intro mult_le_mono) simp_all
  then show le: "4 * w * i \<le> 768" by simp
  then show a: "unat (entry_at w i) = 0x5002 + 4 * w * i"
    unfolding entry_at_def by (subst unat_word_ariths(1)) (simp add: unat_of_nat del: of_nat_mult)
  show "unat (entry_at w i) + 4 * w \<le> 0x5400" using le assms(1) unfolding a by linarith
qed

lemma stored_Suc: "stored tab w (Suc n) m = store_words (stored tab w n m) (entry_at w n) (tab ! n)"
  by (simp add: stored_def)

lemma stored_read:
  assumes "w \<le> 6" "n \<le> 32" "\<forall>i<n. length (tab ! i) = w" "i < n" "k < w"
  shows "read_u32 (stored tab w n m) (entry_at w i + 4 * of_nat k) = tab ! i ! k"
  using assms(2-4)
proof (induction n)
  case (Suc n)
  note e = entry_at_unat [OF assms(1), of n]
  show ?case
  proof (cases "i = n")
    case True
    have l: "length (tab ! n) = w" using Suc.prems by simp
    have "unat (entry_at w n) + 4 * length (tab ! n) < 2 ^ 64" unfolding l using e(3) Suc.prems(1) by simp
    from store_words_read [OF _ this, of k] show ?thesis using True l assms(5) by (simp add: stored_Suc)
  next
    case False
    then have i: "i < n" using Suc.prems by simp
    note f = entry_at_unat [OF assms(1), of i]
    have "4 * w * Suc i \<le> 4 * w * n" using i by (intro mult_le_mono) simp_all
    then have le: "4 * w * i + 4 * w \<le> 4 * w * n" by simp
    have a: "unat (entry_at w i + 4 * of_nat k) = 0x5002 + 4 * w * i + 4 * k"
      using f i Suc.prems assms(1,5) by (subst unat_word_ariths(1)) (simp add: unat_word_ariths(2) unat_of_nat)
    have "read_u32 (stored tab w (Suc n) m) (entry_at w i + 4 * of_nat k) = read_u32 (stored tab w n m) (entry_at w i + 4 * of_nat k)"
      unfolding stored_Suc
      by (intro read_u32_cong store_words_off) (use e Suc.prems a le assms(1,5) in \<open>auto simp: region_iff\<close>)
    then show ?thesis using Suc i by simp
  qed
qed simp

lemma stored_off:
  assumes "w \<le> 6" "n \<le> 32" "\<forall>i<n. length (tab ! i) = w" "unat a < 0x5002 \<or> 0x5302 \<le> unat a"
  shows "stored tab w n m a = m a"
  using assms(2,3)
proof (induction n)
  case (Suc n)
  have "4 * w * Suc n \<le> 4 * 6 * 32" using assms(1) Suc.prems(1) by (intro mult_le_mono) simp_all
  then have "a \<notin> region (entry_at w n) (4 * w)"
    using assms(4) entry_at_unat [OF assms(1), of n] Suc.prems assms(1) by (auto simp: region_iff)
  moreover have l: "length (tab ! n) = w" using Suc.prems by simp
  moreover have "unat (entry_at w n) + 4 * length (tab ! n) \<le> 2 ^ 64"
    unfolding l using entry_at_unat(3) [OF assms(1), of n] Suc.prems(1) by simp
  ultimately show ?case using Suc store_words_off [of a "entry_at w n" "tab ! n"] by (simp add: stored_Suc)
qed (simp add: stored_def)

subsection \<open>The loop\<close>

text \<open>The state before request \<open>i\<close>, from memory \<open>m\<close> and with stack pointer \<open>p\<close> at the start.\<close>

definition asking :: "(nat \<Rightarrow> u32) \<Rightarrow> u32 list list \<Rightarrow> nat \<Rightarrow> nat \<Rightarrow> memory_bytes \<Rightarrow> u16 \<Rightarrow> boot \<Rightarrow> bool" where
  "asking cont tab w i m p s \<longleftrightarrow> entry_count s = of_nat i \<and> ebx s = cont i \<and> 4 * w \<le> unat (ecx s) \<and> edx s = SMAP
     \<and> es s = 0 \<and> low16 (edi s) = 0x5002 + of_nat (4 * w * i) \<and> sp s = p \<and> (\<forall>a \<in> map_area p. rmem s a = stored tab w i m a)"

lemma asked:
  assumes "smap_service int15 cont tab w" "w \<le> 6" "i < length tab" "i < 32" "asking cont tab w i m p s"
  defines "t \<equiv> service int15 (s\<lparr>eax := 0xE820\<rparr>)"
  shows "\<not> cf t" "eax t = SMAP" "ebx t = (if Suc i = length tab then 0 else cont (Suc i))" "entry_count t = of_nat i"
    "asking cont tab w (Suc i) m p (t\<lparr>entry_count := entry_count t + 1, edi := set_low16 (low16 (edi t) + low16 (ecx t)) (edi t), ebx := cont (Suc i)\<rparr>)"
proof -
  note a = assms(5) [unfolded asking_def]
  let ?q = "real_mode.truncate (s\<lparr>eax := 0xE820\<rparr>)"
  have "eax ?q = 0xE820" "edx ?q = SMAP" "4 * w \<le> unat (ecx ?q)" "ebx ?q = cont i" using a by simp_all
  with assms(1,3) have r: "let t = int15 ?q
           in \<not> cf t \<and> eax t = SMAP \<and> ecx t = of_nat (4 * w) \<and> edx t = SMAP
              \<and> ebx t = (if Suc i = length tab then 0 else cont (Suc i))
              \<and> es t = es ?q \<and> edi t = edi ?q \<and> sp t = sp ?q
              \<and> (\<forall>a \<in> map_area (sp ?q). rmem t a = store_words (rmem ?q) (16 * ucast (es ?q) + ucast (low16 (edi ?q))) (tab ! i) a)"
    unfolding smap_service_def by blast
  then show c: "\<not> cf t" "eax t = SMAP" "ebx t = (if Suc i = length tab then 0 else cont (Suc i))" "entry_count t = of_nat i"
    using a by (simp_all add: t_def Let_def)
  have u: "ecx t = of_nat (4 * w)" "edx t = SMAP" "es t = 0" "edi t = edi s" "sp t = p"
    "\<forall>a \<in> map_area p. rmem t a = store_words (rmem s) (ucast (low16 (edi s))) (tab ! i) a"
    using r a by (simp_all add: t_def Let_def)
  have e: "ucast (low16 (edi s)) = entry_at w i"
  proof -
    have "unat (low16 (edi s)) = 0x5002 + 4 * w * i"
      using a entry_at_unat(2) [OF assms(2), of i] assms(4) by (simp add: unat_word_ariths(1) unat_of_nat del: of_nat_mult)
    then show ?thesis using entry_at_unat(1) [OF assms(2), of i] assms(4) by (simp add: word_unat_eq_iff unat_ucast_up)
  qed
  have "rmem t a = stored tab w (Suc i) m a" if "a \<in> map_area p" for a
    using u(6) that store_words_at [of "rmem s" a "stored tab w i m" "entry_at w i" "tab ! i"] a e by (simp add: stored_Suc)
  moreover have "4 * w \<le> unat (of_nat (4 * w) :: u32)" using assms(2) by (simp add: unat_of_nat del: of_nat_mult)
  moreover have "low16 (edi s) + low16 (of_nat (4 * w)) = 0x5002 + of_nat (4 * w * Suc i)"
    using a by (simp only: low16_simps) (simp add: algebra_simps)
  ultimately show "asking cont tab w (Suc i) m p (t\<lparr>entry_count := entry_count t + 1,
      edi := set_low16 (low16 (edi t) + low16 (ecx t)) (edi t), ebx := cont (Suc i)\<rparr>)"
    using u c(4) by (simp add: asking_def add.commute)
qed

text \<open>After the loop: the map in memory is complete, and the stack is as before.\<close>

definition answered :: "u32 list list \<Rightarrow> nat \<Rightarrow> nat \<Rightarrow> memory_bytes \<Rightarrow> u16 \<Rightarrow> boot \<Rightarrow> bool" where
  "answered tab w n m p t \<longleftrightarrow> sp t = p \<and> es t = 0 \<and> entry_count t = of_nat n
     \<and> (\<forall>a \<in> map_area p. rmem t a = write_u32 (stored tab w n m) 0x5000 (of_nat n) a)"

lemma memory_done_answered:
  assumes "sp s = p" "es s = 0" "entry_count s = of_nat n" "\<forall>a \<in> map_area p. rmem s a = stored tab w n m a"
  shows "answered tab w n m p (memory_done s)" "BOOT_DRIVE (memory_done s) = BOOT_DRIVE s"
proof -
  show "BOOT_DRIVE (memory_done s) = BOOT_DRIVE s" by (simp add: memory_done_def store_count_def Let_def)
  show "answered tab w n m p (memory_done s)"
    unfolding answered_def
    using assms write_u32_at [of "rmem s" _ "stored tab w n m" "0x5000" "of_nat n"]
    by (simp add: memory_done_def store_count_def Let_def)
qed

lemma memory_loop_answered:
  assumes "smap_service int15 cont tab w" "w \<le> 6" "i < length tab" "i < 32" "asking cont tab w i m p s"
  shows "answered tab w (min (length tab) 32) m p (memory_loop int15 s) \<and> BOOT_DRIVE (memory_loop int15 s) = BOOT_DRIVE s"
  using assms(3-5)
proof (induction "min (length tab) 32 - i" arbitrary: i s)
  case (Suc k)
  let ?t = "service int15 (s\<lparr>eax := 0xE820\<rparr>)"
  let ?u = "?t\<lparr>entry_count := entry_count ?t + 1, edi := set_low16 (low16 (edi ?t) + low16 (ecx ?t)) (edi ?t)\<rparr>"
  note a = asked [OF assms(1,2) Suc.prems]
  have step: "memory_loop int15 s = (if ebx ?t = 0 then memory_done ?u else if entry_count ?u < 32 then memory_loop int15 ?u else memory_done ?u)"
    by (subst memory_loop.simps) (use a(1,2) in \<open>simp add: Let_def\<close>)
  have u: "sp ?u = p" "es ?u = 0" "entry_count ?u = of_nat (Suc i)" "\<forall>a \<in> map_area p. rmem ?u a = stored tab w (Suc i) m a"
    using a(4,5) by (simp_all add: asking_def)
  have b: "BOOT_DRIVE ?u = BOOT_DRIVE s" by simp
  have c: "entry_count ?u < 32 \<longleftrightarrow> Suc i < 32"
    unfolding u(3) using Suc.prems(2) by (simp add: word_less_nat_alt unat_of_nat del: of_nat_Suc)
  show ?case
  proof (cases "Suc i = length tab \<or> Suc i = 32")
    case True
    then have "min (length tab) 32 = Suc i" using Suc.prems by auto
    moreover have "memory_loop int15 s = memory_done ?u" using True step a(3) c by auto
    ultimately show ?thesis using memory_done_answered [OF u] b by simp
  next
    case False
    then have i: "Suc i < length tab" "Suc i < 32" using Suc.prems by auto
    then have n: "ebx ?t = cont (Suc i)" "cont (Suc i) \<noteq> 0" using a(3) assms(1) by (auto simp: smap_service_def)
    then have "asking cont tab w (Suc i) m p ?u" using a(5) by (simp add: asking_def)
    then show ?thesis using Suc.hyps(1) [of "Suc i" ?u] Suc.hyps(2) i step n c b by simp
  qed
qed simp

subsection \<open>The whole routine\<close>

text \<open>The sixteen-bit registers are restored.\<close>

definition regs_restored :: "boot \<Rightarrow> boot \<Rightarrow> bool" where
  "regs_restored s t \<longleftrightarrow> low16 (eax t) = low16 (eax s) \<and> low16 (ecx t) = low16 (ecx s) \<and> low16 (edx t) = low16 (edx s)
     \<and> low16 (ebx t) = low16 (ebx s) \<and> low16 (ebp t) = low16 (ebp s) \<and> low16 (esi t) = low16 (esi s)
     \<and> low16 (edi t) = low16 (edi s) \<and> sp t = sp s"

text \<open>
  The routine around its loop: ten words are pushed, and a loop that leaves the stack pointer and
  these words as they are is followed by the return of all of them.
\<close>

definition requesting :: "memory_bytes \<Rightarrow> boot \<Rightarrow> boot" where
  "requesting m s = s\<lparr>sp := sp s - 20, rmem := m, eax := set_low16 0 (eax s), es := 0, edi := set_low16 0x5002 (edi s),
     ebx := 0, edx := SMAP, ecx := 24, entry_count := 0\<rparr>"

lemma stack_words:
  assumes "20 \<le> unat (sp s)"
  defines "q \<equiv> sp s - 20"
  shows "unat q = unat (sp s) - 20" "unat (ucast q :: u64) = unat q" "unat q + 20 < 2 ^ 16"
    "k < 10 \<Longrightarrow> ucast (q + of_nat (2 * k)) = (ucast q + of_nat (2 * k) :: u64)"
    "k < 10 \<Longrightarrow> unat (ucast q + of_nat (2 * k) :: u64) = unat q + 2 * k"
proof -
  show q: "unat q = unat (sp s) - 20" using unat_sp_minus [of 20 "sp s"] assms by simp
  show b: "unat q + 20 < 2 ^ 16" unfolding q using assms(1) unsigned_less [of "sp s", where ?'a = nat] by simp
  show e: "unat (ucast q :: u64) = unat q" by (simp add: unat_ucast_up)
  show "k < 10 \<Longrightarrow> ucast (q + of_nat (2 * k)) = (ucast q + of_nat (2 * k) :: u64)" using b by (intro ucast_sp) simp
  show "k < 10 \<Longrightarrow> unat (ucast q + of_nat (2 * k) :: u64) = unat q + 2 * k"
    using b by (simp add: unat_word_ariths(1) unat_of_nat e del: of_nat_mult)
qed

lemma detect_return_reads:
  "detect_return u = popa (u\<lparr>edi := set_low16 (read_u16 (rmem u) (ucast (sp u))) (edi u),
      es := read_u16 (rmem u) (ucast (sp u + 2)), sp := sp u + 4\<rparr>)"
  by (cases u) (simp add: detect_return_def pop16_def Let_def add.commute)

lemma detect_memory_frame:
  assumes "20 \<le> unat (sp s)"
  shows "\<exists>m. detect_setup s = requesting m s \<and> agree_off (region (ucast (sp s - 20)) 20) (rmem s) m
    \<and> (\<forall>u. sp u = sp s - 20 \<longrightarrow> (\<forall>a \<in> region (ucast (sp s - 20)) 20. rmem u a = m a) \<longrightarrow> regs_restored s (detect_return u)
         \<and> es (detect_return u) = es s \<and> BOOT_DRIVE (detect_return u) = BOOT_DRIVE u \<and> rmem (detect_return u) = rmem u)"
proof -
  let ?vs = "[low16 (eax s), low16 (ecx s), low16 (edx s), low16 (ebx s), sp s, low16 (ebp s), low16 (esi s), low16 (edi s), es s, low16 (edi s)]"
  let ?q = "sp s - 20"
  note w = stack_words [OF assms]
  obtain m where m: "fold push16 ?vs s = s\<lparr>sp := ?q, rmem := m\<rparr>"
    "\<forall>k<10. read_u16 m (ucast ?q + of_nat (2 * k)) = rev ?vs ! k" "agree_off (region (ucast ?q) 20) (rmem s) m"
    using pushes [of ?vs s] assms by auto
  have "push16 (low16 (edi (push16 (es (pusha s)) (pusha s)))) (push16 (es (pusha s)) (pusha s)) = fold push16 ?vs s"
    by (simp add: pusha_def push16_def)
  then have "detect_setup s = requesting m s" unfolding m(1) by (simp add: detect_setup_def Let_def requesting_def)
  moreover have "regs_restored s (detect_return u) \<and> es (detect_return u) = es s \<and> BOOT_DRIVE (detect_return u) = BOOT_DRIVE u
      \<and> rmem (detect_return u) = rmem u"
    if sp: "sp u = ?q" and keep: "\<forall>a \<in> region (ucast ?q) 20. rmem u a = m a" for u
  proof -
    have r: "read_u16 (rmem u) (ucast (?q + of_nat (2 * k))) = rev ?vs ! k" if k: "k < 10" for k
    proof -
      have "read_u16 (rmem u) (ucast ?q + of_nat (2 * k)) = read_u16 m (ucast ?q + of_nat (2 * k))"
      proof (rule read_u16_cong)
        fix x assume "x \<in> region (ucast ?q + of_nat (2 * k)) 2"
        then have "x \<in> region (ucast ?q) 20" using w(2,3) w(5) [OF k] k by (simp add: region_iff del: of_nat_mult)
        then show "rmem u x = m x" using keep by blast
      qed
      then show ?thesis using m(2) k unfolding w(4) [OF k] by simp
    qed
    have sp': "sp u + 20 = sp s" using sp by simp
    note rs = r [of 0] r [of 1] r [of 2] r [of 3] r [of 4] r [of 6] r [of 7] r [of 8] r [of 9]
    show ?thesis
      unfolding detect_return_reads popa_reads using rs [folded sp] sp' by (simp add: regs_restored_def add.commute)
  qed
  ultimately show ?thesis using m(3) by blast
qed

lemma detect_memory_answered:
  assumes "smap_service int15 cont tab w" "w \<le> 6" "0x6000 \<le> sp s"
  defines "t \<equiv> detect_memory int15 s"
  shows "regs_restored s t" "es t = es s" "BOOT_DRIVE t = BOOT_DRIVE s"
    "\<exists>m. (\<forall>a. unat a < 0x5500 \<longrightarrow> m a = rmem s a) \<and> (\<forall>a. 0x1000 \<le> unat a \<and> unat a < 0x5500 \<longrightarrow>
       rmem t a = write_u32 (stored tab w (min (length tab) 32) m) 0x5000 (of_nat (min (length tab) 32)) a)"
proof -
  let ?q = "sp s - 20" and ?n = "min (length tab) 32"
  have p: "20 \<le> unat (sp s)" "0x6000 \<le> unat (sp s)" using assms(3) by (simp_all add: word_le_nat_alt)
  note q = stack_words(1,2,3) [OF p(1)]
  obtain m where m: "detect_setup s = requesting m s" "agree_off (region (ucast ?q) 20) (rmem s) m"
    and ret: "sp u = ?q \<longrightarrow> (\<forall>a \<in> region (ucast ?q) 20. rmem u a = m a) \<longrightarrow> regs_restored s (detect_return u)
      \<and> es (detect_return u) = es s \<and> BOOT_DRIVE (detect_return u) = BOOT_DRIVE u \<and> rmem (detect_return u) = rmem u" for u
    using detect_memory_frame [OF p(1)] by blast
  define u where "u = memory_loop int15 (requesting m s)"
  have t: "t = detect_return u" by (simp add: t_def detect_memory_def m(1) u_def)
  have "asking cont tab w 0 m ?q (requesting m s)"
    using assms(1,2) by (simp add: asking_def requesting_def stored_def smap_service_def)
  then have u: "answered tab w ?n m ?q u" "BOOT_DRIVE u = BOOT_DRIVE s"
    using memory_loop_answered [OF assms(1,2), of 0 m ?q "requesting m s"] assms(1) by (auto simp: u_def requesting_def smap_service_def)
  have len: "\<forall>i<?n. length (tab ! i) = w" using assms(1) by (simp add: smap_service_def)
  have "rmem u a = m a" if "a \<in> region (ucast ?q) 20" for a
  proof -
    have a: "unat ?q \<le> unat a" "unat a < unat ?q + 20" using that q by (simp_all add: region_iff)
    have "0x5302 \<le> unat a" using a(1) q(1) p(2) by simp
    then have "stored tab w ?n m a = m a" "a \<notin> region 0x5000 4" using stored_off [OF assms(2) _ len] by (auto simp: region_iff)
    moreover have "a \<in> map_area ?q" using a by (simp add: map_area_def)
    ultimately show ?thesis using u(1) by (simp add: answered_def write_u32_off)
  qed
  then have r: "regs_restored s t" "es t = es s" "BOOT_DRIVE t = BOOT_DRIVE s" "rmem t = rmem u"
    using ret [of u] u by (simp_all add: t answered_def)
  then show "regs_restored s t" "es t = es s" "BOOT_DRIVE t = BOOT_DRIVE s" by blast+
  have "m a = rmem s a" if "unat a < 0x5500" for a
    using that q p(2) by (intro agree_offD [OF m(2)]) (simp add: region_iff)
  then show "\<exists>m. (\<forall>a. unat a < 0x5500 \<longrightarrow> m a = rmem s a) \<and> (\<forall>a. 0x1000 \<le> unat a \<and> unat a < 0x5500 \<longrightarrow>
       rmem t a = write_u32 (stored tab w ?n m) 0x5000 (of_nat ?n) a)"
    using u(1) r(4) by (intro exI [of _ m]) (auto simp: answered_def map_area_def)
qed

lemma detect_memory_below:
  assumes "smap_service int15 cont tab w" "w \<le> 6" "0x6000 \<le> sp s" "0x1000 \<le> unat a" "unat a < 0x5000"
  shows "rmem (detect_memory int15 s) a = rmem s a"
proof -
  obtain m where m: "\<forall>a. unat a < 0x5500 \<longrightarrow> m a = rmem s a" "\<forall>a. 0x1000 \<le> unat a \<and> unat a < 0x5500 \<longrightarrow>
      rmem (detect_memory int15 s) a = write_u32 (stored tab w (min (length tab) 32) m) 0x5000 (of_nat (min (length tab) 32)) a"
    using detect_memory_answered(4) [OF assms(1-3)] by blast
  have "\<forall>i < min (length tab) 32. length (tab ! i) = w" using assms(1) by (simp add: smap_service_def)
  then have "stored tab w (min (length tab) 32) m a = m a" using assms(5) by (intro stored_off [OF assms(2)]) simp_all
  then show ?thesis using m assms(4,5) by (simp add: write_u32_off region_iff)
qed

subsection \<open>What the kernel reads\<close>

lemma map_words:
  assumes "smap_service int15 cont tab w" "w \<le> 6" "0x6000 \<le> sp s"
  defines "t \<equiv> detect_memory int15 s" and "n \<equiv> min (length tab) 32"
  shows "read_u16 (rmem t) 0x5000 = of_nat n"
    and "i < n \<Longrightarrow> k < w \<Longrightarrow> 0 < i \<or> 0 < k \<Longrightarrow> read_u32 (rmem t) (entry_at w i + 4 * of_nat k) = tab ! i ! k"
    and "0 < w \<Longrightarrow> read_u32 (rmem t) 0x5002 = push_bit 16 (drop_bit 16 (tab ! 0 ! 0))"
proof -
  obtain m where m: "\<And>a. 0x1000 \<le> unat a \<Longrightarrow> unat a < 0x5500 \<Longrightarrow> rmem t a = write_u32 (stored tab w n m) 0x5000 (of_nat n) a"
    using detect_memory_answered(4) [OF assms(1-3)] unfolding t_def n_def by blast
  let ?m = "write_u32 (stored tab w n m) 0x5000 (of_nat n)"
  have n: "n \<le> 32" "0 < n" "\<forall>i<n. length (tab ! i) = w" using assms(1) by (auto simp: n_def smap_service_def)
  have "read_u16 (rmem t) 0x5000 = read_u16 ?m 0x5000" by (rule read_u16_cong) (use m in \<open>auto simp: region_iff\<close>)
  also have "\<dots> = ucast (read_u32 ?m 0x5000)" by (rule bit_word_eqI) (auto simp: read_u32_def bit_simps)
  also have "\<dots> = low16 (of_nat n)" by (simp add: low16_def)
  finally show "read_u16 (rmem t) 0x5000 = of_nat n" by simp
  show "read_u32 (rmem t) (entry_at w i + 4 * of_nat k) = tab ! i ! k" if i: "i < n" "k < w" "0 < i \<or> 0 < k"
  proof -
    note e = entry_at_unat [OF assms(2), of i]
    have "4 \<le> 4 * w * i + 4 * k" using that by (cases i) auto
    moreover have a: "unat (entry_at w i + 4 * of_nat k) = 0x5002 + 4 * w * i + 4 * k" "0x5002 + 4 * w * i + 4 * k + 4 \<le> 0x5400"
      using e i n(1) by (simp_all add: unat_word_ariths unat_of_nat)
    ultimately have "read_u32 (rmem t) (entry_at w i + 4 * of_nat k) = read_u32 (stored tab w n m) (entry_at w i + 4 * of_nat k)"
      by (intro read_u32_cong trans [OF m] write_u32_off) (auto simp: region_iff)
    then show ?thesis using stored_read [OF assms(2) n(1,3) i(1,2)] by simp
  qed
  show "read_u32 (rmem t) 0x5002 = push_bit 16 (drop_bit 16 (tab ! 0 ! 0))" if "0 < w"
  proof -
    have "drop_bit 16 (of_nat n :: u32) = 0"
      using n(1) by (simp add: word_unat_eq_iff drop_bit_eq_div unat_div_distrib unat_of_nat)
    then have z: "read_u32 ?m 0x5002 = push_bit 16 (ucast (read_u16 (stored tab w n m) 0x5004))"
      by (simp add: read_u32_def write_u32_def read_u16_def write_u16_def)
    have "read_u32 (rmem t) 0x5002 = read_u32 ?m 0x5002" by (rule read_u32_cong) (use m in \<open>auto simp: region_iff\<close>)
    also have "read_u32 ?m 0x5002 = push_bit 16 (ucast (read_u16 (stored tab w n m) 0x5004))" by (rule z)
    also have "\<dots> = push_bit 16 (drop_bit 16 (read_u32 (stored tab w n m) 0x5002))"
      by (rule bit_word_eqI) (auto simp: read_u32_def bit_simps dest: bit_imp_le_length)
    also have "read_u32 (stored tab w n m) 0x5002 = tab ! 0 ! 0"
      using stored_read [OF assms(2) n(1,3,2) that, of m] by (simp add: entry_at_def)
    finally show ?thesis .
  qed
qed

definition words_entry :: "u32 list \<Rightarrow> MemoryMapEntry" where
  "words_entry e = \<lparr>base_low = e ! 0, base_high = e ! 1, length_low = e ! 2, length_high = e ! 3, entry_type = e ! 4, acpi = e ! 5\<rparr>"

lemma read_entry_words:
  assumes "\<And>k. k < 6 \<Longrightarrow> read_u32 m (0x5002 + 24 * of_nat i + 4 * of_nat k) = e ! k"
  shows "read_entry m i = words_entry e"
  using assms [of 0] assms [of 1] assms [of 2] assms [of 3] assms [of 4] assms [of 5]
  by (simp add: read_entry_def words_entry_def Let_def)

text \<open>A BIOS that keeps its table in a list and counts its entries in \<^verbatim>\<open>ebx\<close>.\<close>

definition table_bios :: "u32 list list \<Rightarrow> nat \<Rightarrow> real_mode \<Rightarrow> real_mode" where
  "table_bios tab w s =
     (let i = unat (ebx s)
      in if eax s = 0xE820 \<and> edx s = SMAP \<and> i < length tab
         then s\<lparr>eax := SMAP, ecx := of_nat (4 * w), ebx := (if Suc i = length tab then 0 else of_nat (Suc i)), cf := False,
                rmem := store_words (rmem s) (16 * ucast (es s) + ucast (low16 (edi s))) (tab ! i)\<rparr>
         else s\<lparr>cf := True\<rparr>)"

lemma table_bios_service:
  assumes "tab \<noteq> []" "length tab < 2 ^ 32" "\<forall>e \<in> set tab. length e = w"
  shows "smap_service (table_bios tab w) of_nat tab w"
proof -
  have u: "unat (of_nat i :: u32) = i" if "i < length tab" for i using that assms(2) by (simp add: unat_of_nat)
  have "of_nat i \<noteq> (0 :: u32)" if "0 < i" "i < length tab" for i using u [OF that(2)] that(1) by auto
  then show ?thesis using assms u by (auto simp: smap_service_def table_bios_def Let_def)
qed

definition sample_map :: "u32 list list" where
  "sample_map = [[0x0, 0, 0x9FC00, 0, 1, 1], [0x9FC00, 0, 0x400, 0, 2, 1], [0x100000, 0, 0xFEE0000, 0, 1, 1]]"

definition sample_boot :: boot where
  "sample_boot = \<lparr>eax = 0, ecx = 0, edx = 0x80, ebx = 0, ebp = 0, esi = 0, edi = 0, sp = 0x8000, es = 0, cf = False, rmem = (\<lambda>_. 0),
     entry_count = 0, BOOT_DRIVE = 0x80, DISK_ERROR_CODE = 0\<rparr>"

lemma memory_map_entries:
  assumes "smap_service int15 cont tab 6" "0x6000 \<le> sp s"
  defines "m \<equiv> rmem (detect_memory int15 s)"
  shows "read_u16 m 0x5000 = of_nat (min (length tab) 32)"
    and "i < min (length tab) 32 \<Longrightarrow> read_entry m i =
      (if i = 0 then (words_entry (tab ! 0))\<lparr>base_low := push_bit 16 (drop_bit 16 (tab ! 0 ! 0))\<rparr> else words_entry (tab ! i))"
proof -
  note w = map_words [OF assms(1) _ assms(2), folded m_def]
  show "read_u16 m 0x5000 = of_nat (min (length tab) 32)" using w(1) by simp
  assume i: "i < min (length tab) 32"
  have "read_entry m i = words_entry (tab ! i)" if "i \<noteq> 0"
    using w(2) [of i] that i by (intro read_entry_words) (simp add: entry_at_def)
  moreover have "read_entry m 0 = (words_entry (tab ! 0))\<lparr>base_low := push_bit 16 (drop_bit 16 (tab ! 0 ! 0))\<rparr>"
  proof -
    have "0 < min (length tab) 32" using assms(1) by (simp add: smap_service_def)
    from w(2) [OF _ this, of 1] w(2) [OF _ this, of 2] w(2) [OF _ this, of 3] w(2) [OF _ this, of 4] w(2) [OF _ this, of 5] w(3)
    show ?thesis by (simp add: read_entry_def words_entry_def Let_def entry_at_def)
  qed
  ultimately show "read_entry m i =
      (if i = 0 then (words_entry (tab ! 0))\<lparr>base_low := push_bit 16 (drop_bit 16 (tab ! 0 ! 0))\<rparr> else words_entry (tab ! i))" by simp
qed

text \<open>
  C15: Round trip of the memory map: when the BIOS answers in 24-byte entries, the count and the
  first 32 entries it reports are exactly those the kernel's reader finds, except that the
  low sixteen bits of the first base address are cleared (the count is stored as four bytes at
  \<^verbatim>\<open>0x5000\<close>, the entries start at \<^verbatim>\<open>0x5002\<close>); the caller's registers are restored.
\<close>

theorem memory_map_round_trip:
  assumes "smap_service int15 cont tab 6" "0x6000 \<le> sp s"
  shows "read_u16 (rmem (detect_memory int15 s)) 0x5000 = of_nat (min (length tab) 32)
    \<and> (\<forall>i < min (length tab) 32. read_entry (rmem (detect_memory int15 s)) i =
         (if i = 0 then (words_entry (tab ! 0))\<lparr>base_low := push_bit 16 (drop_bit 16 (tab ! 0 ! 0))\<rparr> else words_entry (tab ! i)))
    \<and> regs_restored s (detect_memory int15 s) \<and> es (detect_memory int15 s) = es s"
  using memory_map_entries [OF assms] detect_memory_answered(1,2) [OF assms(1) _ assms(2)] by simp

theorem memory_map_round_trip_witness:
  "read_u16 (rmem (detect_memory (table_bios sample_map 6) sample_boot)) 0x5000 = 3
    \<and> read_entry (rmem (detect_memory (table_bios sample_map 6) sample_boot)) 2 =
        \<lparr>base_low = 0x100000, base_high = 0, length_low = 0xFEE0000, length_high = 0, entry_type = 1, acpi = 1\<rparr>"
proof -
  have "smap_service (table_bios sample_map 6) of_nat sample_map 6" by (rule table_bios_service) (simp_all add: sample_map_def)
  from memory_map_round_trip [OF this, of sample_boot] show ?thesis
    by (simp add: sample_boot_def) (simp add: sample_map_def words_entry_def)
qed

text \<open>
  C34: The reader and the loader disagree on the size of an entry: a BIOS that answers with the
  original 20-byte entries stores the second entry at \<^verbatim>\<open>0x5016\<close>, but the kernel reads its second
  entry at \<^verbatim>\<open>0x501A\<close>, so every field is the next one of the map and the type is the low half of
  the third entry's base address.
\<close>

theorem short_entries_misread:
  assumes "smap_service int15 cont tab 5" "0x6000 \<le> sp s" "3 \<le> length tab"
  shows "read_entry (rmem (detect_memory int15 s)) 1 =
    \<lparr>base_low = tab ! 1 ! 1, base_high = tab ! 1 ! 2, length_low = tab ! 1 ! 3, length_high = tab ! 1 ! 4,
     entry_type = tab ! 2 ! 0, acpi = tab ! 2 ! 1\<rparr>"
proof -
  note w = map_words(2) [OF assms(1) _ assms(2)]
  have "1 < min (length tab) 32" "2 < min (length tab) 32" using assms(3) by simp_all
  from w [OF _ this(1), of 1] w [OF _ this(1), of 2] w [OF _ this(1), of 3] w [OF _ this(1), of 4]
    w [OF _ this(2), of 0] w [OF _ this(2), of 1]
  show ?thesis by (simp add: read_entry_def Let_def entry_at_def)
qed

theorem short_entries_misread_witness:
  "entry_base (read_entry (rmem (detect_memory (table_bios (map (take 5) sample_map) 5) sample_boot)) 1) = 0x40000000000"
proof -
  have "smap_service (table_bios (map (take 5) sample_map) 5) of_nat (map (take 5) sample_map) 5"
    by (rule table_bios_service) (simp_all add: sample_map_def)
  from short_entries_misread [OF this, of sample_boot] show ?thesis
    by (simp add: sample_boot_def) (simp add: sample_map_def entry_base_def)
qed

end
