(* ===== verification/Boot_Disk.thy ===== *)
theory Boot_Disk
  imports Boot_Memory
begin

text \<open>
  Loading the kernel: the request \<^verbatim>\<open>disk_load\<close> makes to the BIOS service \<^verbatim>\<open>INT 13h\<close> and the test of
  its answer.
\<close>

lemma byte_halves [simp]:
  "low8 (set_low8 v r) = v" "high8 (set_high8 v r) = v" "low8 (set_high8 v r) = low8 r" "high8 (set_low8 v r) = high8 r"
  unfolding low8_def high8_def set_low8_def set_high8_def by (rule bit_word_eqI; auto simp: bit_simps dest: bit_imp_le_length)+

lemma saved_frame:
  assumes "16 \<le> unat (sp (s :: boot))"
  shows "\<exists>m. pusha s = s\<lparr>sp := sp s - 16, rmem := m\<rparr>
    \<and> (\<forall>t :: boot. sp t = sp s - 16 \<longrightarrow> (\<forall>a \<in> region (ucast (sp s - 16)) 16. rmem t a = m a) \<longrightarrow>
         regs_restored s (popa t) \<and> rmem t (ucast (sp t) + 10) = low8 (edx s))"
proof -
  let ?vs = "[low16 (eax s), low16 (ecx s), low16 (edx s), low16 (ebx s), sp s, low16 (ebp s), low16 (esi s), low16 (edi s)]"
  let ?q = "sp s - 16"
  obtain m where m: "pusha s = s\<lparr>sp := ?q, rmem := m\<rparr>" "\<forall>k<8. read_u16 m (ucast ?q + of_nat (2 * k)) = rev ?vs ! k"
    using pushes [of ?vs s] assms by (auto simp: pusha_def simp del: fold_simps)
  have q: "unat ?q = unat (sp s) - 16" using unat_sp_minus [of 16 "sp s"] assms by simp
  note less = unsigned_less [of "sp s", where ?'a = nat]
  have "regs_restored s (popa t) \<and> rmem t (ucast (sp t) + 10) = low8 (edx s)"
    if t: "sp t = ?q" "\<forall>a \<in> region (ucast ?q) 16. rmem t a = m a" for t :: boot
  proof -
    have r: "read_u16 (rmem t) (ucast (?q + of_nat (2 * k))) = rev ?vs ! k" if "k < 8" for k
    proof -
      have e: "ucast (?q + of_nat (2 * k)) = (ucast ?q + of_nat (2 * k) :: u64)" using that q assms less by (intro ucast_sp) simp
      have "region (ucast ?q + of_nat (2 * k)) 2 \<subseteq> region (ucast ?q) 16"
        by (rule region_shift) (use that in \<open>simp_all add: unat_of_nat del: of_nat_mult\<close>)
      then have "read_u16 (rmem t) (ucast (?q + of_nat (2 * k))) = read_u16 m (ucast ?q + of_nat (2 * k))"
        unfolding e using t(2) by (intro read_u16_cong) blast
      then show ?thesis using m(2) that by simp
    qed
    have "sp t + 16 = sp s" using t(1) by simp
    then have "regs_restored s (popa t)"
      using r [of 0, folded t(1)] r [of 1, folded t(1)] r [of 2, folded t(1)] r [of 4, folded t(1)]
        r [of 5, folded t(1)] r [of 6, folded t(1)] r [of 7, folded t(1)]
      by (simp add: popa_reads regs_restored_def add.commute)
    moreover have "rmem t (ucast (sp t) + 10) = low8 (edx s)"
    proof -
      have "ucast (?q + 10) = (ucast ?q + 10 :: u64)" using ucast_sp [of ?q 10] q assms less by simp
      then have "read_u16 (rmem t) (ucast (sp t) + 10) = low16 (edx s)" using r [of 5] t(1) by simp
      then have "ucast (read_u16 (rmem t) (ucast (sp t) + 10)) = low8 (edx s)"
        by (simp add: low16_def low8_def) (rule bit_word_eqI, auto simp: bit_simps)
      moreover have "ucast (read_u16 (rmem t) a) = rmem t a" for a by (rule bit_word_eqI) (auto simp: read_u16_def bit_simps)
      ultimately show ?thesis by simp
    qed
    ultimately show ?thesis ..
  qed
  then show ?thesis using m(1) by blast
qed

lemma disk_load_result:
  assumes "16 \<le> unat (sp s)" and q: "q = real_mode.truncate (disk_request (pusha s))"
    and "sp (int13 q) = sp q" "\<forall>a \<in> region (ucast (sp q)) 16. rmem (int13 q) a = rmem q a"
  shows "high8 (eax q) = 0x02 \<and> low8 (eax q) = high8 (edx s) \<and> low8 (ecx q) = 2 \<and> high8 (ecx q) = 0
    \<and> high8 (edx q) = 0 \<and> low8 (edx q) = low8 (edx s) \<and> ebx q = ebx s \<and> es q = es s
    \<and> (if cf (int13 q) then \<exists>u. disk_load int13 s = Inl (disk_error u) \<and> DISK_ERROR_CODE u = high8 (eax (int13 q))
       else if low8 (eax (int13 q)) = low8 (edx s)
       then \<exists>t. disk_load int13 s = Inr t \<and> regs_restored s t \<and> rmem t = rmem (int13 q) \<and> es t = es (int13 q)
       else \<exists>u. disk_load int13 s = Inl (sectors_error u))"
proof -
  obtain m where m: "pusha s = s\<lparr>sp := sp s - 16, rmem := m\<rparr>"
    and f: "\<And>t :: boot. sp t = sp s - 16 \<Longrightarrow> (\<forall>a \<in> region (ucast (sp s - 16)) 16. rmem t a = m a) \<Longrightarrow>
         regs_restored s (popa t) \<and> rmem t (ucast (sp t) + 10) = low8 (edx s)" using saved_frame [OF assms(1)] by blast
  have sq: "sp q = sp s - 16" "rmem q = m" by (simp_all add: q m disk_request_def Let_def)
  let ?t = "service int13 (disk_request (pusha s))"
  have "regs_restored s (popa ?t)" "rmem ?t (ucast (sp ?t) + 10) = low8 (edx s)"
    using f [of ?t] assms(3,4) sq by (simp_all add: q [symmetric])
  then show ?thesis
    by (auto simp: disk_load_def Let_def q [symmetric] popa_reads) (simp_all add: q m disk_request_def Let_def)
qed

text \<open>
  C25: \<open>disk_load\<close> asks the BIOS for the number of sectors in \<^verbatim>\<open>DH\<close>, from sector 2 of cylinder and
  head 0 of the drive in \<^verbatim>\<open>DL\<close>. An error is recorded and the loader stops. After a successful
  read the count in \<^verbatim>\<open>AL\<close> is compared with byte 10 of the saved registers, which is \<^verbatim>\<open>DL\<close> and not
  \<^verbatim>\<open>DH\<close>: the loader goes on, with the caller's registers and the sectors in memory, exactly if
  the count equals the number of the drive. The 128 sectors of the kernel can therefore only
  be loaded from drive \<^verbatim>\<open>0x80\<close>.
\<close>

theorem disk_load_compares_drive:
  assumes "16 \<le> unat (sp s)" and q: "q = real_mode.truncate (disk_request (pusha s))"
    and "sp (int13 q) = sp q" "\<forall>a \<in> region (ucast (sp q)) 16. rmem (int13 q) a = rmem q a"
  shows "high8 (eax q) = 0x02 \<and> low8 (eax q) = high8 (edx s) \<and> low8 (ecx q) = 2 \<and> high8 (ecx q) = 0
    \<and> high8 (edx q) = 0 \<and> low8 (edx q) = low8 (edx s) \<and> ebx q = ebx s \<and> es q = es s
    \<and> (if cf (int13 q) then \<exists>u. disk_load int13 s = Inl (disk_error u) \<and> DISK_ERROR_CODE u = high8 (eax (int13 q))
       else if low8 (eax (int13 q)) = low8 (edx s)
       then \<exists>t. disk_load int13 s = Inr t \<and> regs_restored s t \<and> rmem t = rmem (int13 q) \<and> es t = es (int13 q)
       else \<exists>u. disk_load int13 s = Inl (sectors_error u))"
  by (rule disk_load_result) (fact assms)+

theorem disk_load_compares_drive_witness:
  "(\<exists>u. disk_load (\<lambda>q. q\<lparr>cf := False\<rparr>) (sample_boot\<lparr>edx := 0x8000\<rparr>) = Inl (sectors_error u))
    \<and> (\<exists>t. disk_load (\<lambda>q. q\<lparr>cf := False\<rparr>) (sample_boot\<lparr>edx := 0x8080\<rparr>) = Inr t)"
proof -
  let ?d = "disk_load (\<lambda>q. q\<lparr>cf := False\<rparr>)"
  let ?q = "\<lambda>v. real_mode.truncate (disk_request (pusha (sample_boot\<lparr>edx := v\<rparr>)))"
  have r: "low8 (eax (?q v)) = high8 v \<and>
      (if low8 (eax (?q v)) = low8 v then \<exists>t. ?d (sample_boot\<lparr>edx := v\<rparr>) = Inr t
       else \<exists>u. ?d (sample_boot\<lparr>edx := v\<rparr>) = Inl (sectors_error u))" for v
    using disk_load_compares_drive [of "sample_boot\<lparr>edx := v\<rparr>", OF _ refl, of "\<lambda>q. q\<lparr>cf := False\<rparr>"]
    by (auto simp: sample_boot_def split: if_splits)
  show ?thesis using r [of "0x8000"] r [of "0x8080"] by (simp add: low8_def high8_def)
qed

subsection \<open>The sixteen-bit part as a whole\<close>

text \<open>
  A disk service that reads what it is asked for into the image's memory at \<^verbatim>\<open>0x10000\<close>: it reports
  the requested count, and leaves the caller's stack and the loader's tables alone.
\<close>

definition loads_image :: "(real_mode \<Rightarrow> real_mode) \<Rightarrow> bool" where
  "loads_image int13 \<longleftrightarrow>
     (\<forall>q. high8 (eax q) = 2 \<and> es q = 0x1000 \<and> low16 (ebx q) = 0 \<longrightarrow>
        \<not> cf (int13 q) \<and> low8 (eax (int13 q)) = low8 (eax q) \<and> sp (int13 q) = sp q
        \<and> (\<forall>a \<in> map_area (sp q). rmem (int13 q) a = rmem q a))"

text \<open>The state in which the loader asks for the memory map, and the whole part after the answer.\<close>

definition detecting :: "boot \<Rightarrow> boot" where
  "detecting r = r\<lparr>eax := set_low16 0 (eax r), es := 0, sp := 0x8000, BOOT_DRIVE := low8 (edx r)\<rparr>"

lemma detecting_sp: "0x6000 \<le> sp (detecting r)"
  by (simp add: detecting_def)

lemma start_after_map:
  assumes "regs_restored (detecting r) d" "BOOT_DRIVE d = BOOT_DRIVE (detecting r)" "d = detect_memory int15 (detecting r)"
    and "loads_image int13" "low8 (edx r) = 0x80"
  shows "\<exists>t. start int15 int13 r = Inr t \<and> (\<forall>a. 0x1000 \<le> unat a \<and> unat a < 0x5500 \<longrightarrow> rmem t a = rmem d a)"
proof -
  define u where "u = d\<lparr>eax := set_low16 0x1000 (eax d), es := 0x1000, ebx := set_low16 0 (ebx d),
    edx := set_low8 0x80 (set_high8 128 (edx d))\<rparr>"
  have dd: "sp d = 0x8000" "BOOT_DRIVE d = 0x80" using assms(1,2,5) by (simp_all add: regs_restored_def detecting_def)
  have st: "start int15 int13 r = disk_load int13 u"
    using dd(2) unfolding u_def assms(3) detecting_def start_def Let_def by (simp add: assms(5))
  let ?q = "real_mode.truncate (disk_request (pusha u))"
  obtain m where m: "pusha u = u\<lparr>sp := sp u - 16, rmem := m\<rparr>" "agree_off (region (ucast (sp u - 16)) 16) (rmem u) m"
    using pushes [of "[low16 (eax u), low16 (ecx u), low16 (edx u), low16 (ebx u), sp u, low16 (ebp u), low16 (esi u), low16 (edi u)]" u] dd(1)
    by (auto simp: pusha_def u_def simp del: fold_simps)
  have q: "high8 (eax ?q) = 2" "es ?q = 0x1000" "low16 (ebx ?q) = 0" "sp ?q = 0x7FF0" "rmem ?q = m" "low8 (eax ?q) = 128"
    unfolding m(1) using dd(1) by (simp_all add: disk_request_def Let_def u_def)
  have i: "\<not> cf (int13 ?q)" "low8 (eax (int13 ?q)) = 128" "sp (int13 ?q) = sp ?q" "\<forall>a \<in> map_area 0x7FF0. rmem (int13 ?q) a = m a"
    using assms(4) q unfolding loads_image_def by auto
  have "\<forall>a \<in> region (ucast (sp ?q)) 16. rmem (int13 ?q) a = rmem ?q a"
    using i(4) q(4,5) by (auto simp: map_area_def region_iff)
  moreover have "16 \<le> unat (sp u)" "low8 (edx u) = 128" using dd(1) by (simp_all add: u_def)
  ultimately obtain t where t: "disk_load int13 u = Inr t" "rmem t = rmem (int13 ?q)"
    using disk_load_result [of u ?q int13] i(1-3) by auto
  have "rmem t a = rmem d a" if "0x1000 \<le> unat a" "unat a < 0x5500" for a
  proof -
    have "m a = rmem u a" using that dd(1) by (intro agree_offD [OF m(2)]) (simp add: u_def region_iff)
    then show ?thesis using i(4) that t(2) by (simp add: map_area_def u_def)
  qed
  then show ?thesis using st t(1) by auto
qed

lemma start_loads:
  assumes "smap_service int15 cont tab 6" "loads_image int13" "low8 (edx r) = 0x80"
  shows "\<exists>t. start int15 int13 r = Inr t
    \<and> (\<forall>a. 0x1000 \<le> unat a \<and> unat a < 0x5000 \<longrightarrow> rmem t a = rmem r a)
    \<and> (\<exists>s. 0x6000 \<le> sp s \<and> (\<forall>a. 0x1000 \<le> unat a \<and> unat a < 0x5500 \<longrightarrow> rmem t a = rmem (detect_memory int15 s) a))"
proof -
  note a = detect_memory_answered(1,3) [OF assms(1) _ detecting_sp [of r]]
  obtain t where t: "start int15 int13 r = Inr t" "\<forall>a. 0x1000 \<le> unat a \<and> unat a < 0x5500 \<longrightarrow> rmem t a = rmem (detect_memory int15 (detecting r)) a"
    using start_after_map [OF a(1,2) refl assms(2,3)] by auto
  moreover have "rmem t a = rmem r a" if "0x1000 \<le> unat a" "unat a < 0x5000" for a
    using t(2) detect_memory_below [OF assms(1) _ detecting_sp [of r], of a] that by (simp add: detecting_def)
  ultimately show ?thesis using detecting_sp by blast
qed

end
