(* ===== verification/Boot_Tables.thy ===== *)
theory Boot_Tables
  imports Boot_Disk
begin

text \<open>
  The page tables of the boot loader: one chain of tables at \<^verbatim>\<open>0x1000\<close> to \<^verbatim>\<open>0x4FFF\<close> that maps the
  first two megabytes to themselves.
\<close>

subsection \<open>The stores\<close>

lemma write_u32_zero: "write_u32 m a 0 x = (if x \<in> region a 4 then 0 else m x)"
proof (cases "x \<in> region a 4")
  case True
  then have "unat (x - a) \<in> {0, 1, 2, 3}" by (auto simp: region_def)
  then have "x - a \<in> {0, 1, 2, 3}" by (auto simp: word_unat_eq_iff)
  then have "x \<in> {a, a + 1, a + 2, a + 3}" by (auto simp: algebra_simps)
  then show ?thesis using True by (auto simp: write_u32_def write_u16_def add.assoc)
qed (simp add: write_u32_off)

lemma rep_stosd_zero:
  assumes "unat d + 4 * n < 2 ^ 32"
  shows "rep_stosd n d 0 m x = (if unat d \<le> unat x \<and> unat x < unat d + 4 * n then 0 else m x)"
  using assms
proof (induction n arbitrary: d m)
  case (Suc n)
  have d: "unat (d + 4) = unat d + 4" using Suc.prems by (simp add: unat_word_ariths(1))
  have "write_u32 m (ucast d) 0 x = (if unat d \<le> unat x \<and> unat x < unat d + 4 then 0 else m x)"
    using Suc.prems by (simp add: write_u32_zero region_iff unat_ucast_up)
  then show ?case using Suc.IH [of "d + 4" "write_u32 m (ucast d) 0"] Suc.prems d by auto
qed auto

definition slot :: "u32 \<Rightarrow> nat \<Rightarrow> u64" where
  "slot d j = ucast (d + 0x3000) + 8 * of_nat j"

lemma slot_facts:
  assumes "unat d + 0x3000 + 8 * Suc j < 2 ^ 32"
  shows "unat (slot d j) = unat d + 0x3000 + 8 * j" "slot d (Suc j) = slot (d + 8) j" "unat (d + 8) = unat d + 8"
proof -
  show d: "unat (d + 8) = unat d + 8" using assms by (simp add: unat_word_ariths(1))
  have e: "unat (slot e k) = unat e + 0x3000 + 8 * k" if "unat e + 0x3000 + 8 * k < 2 ^ 32" for e k
  proof -
    have "unat (e + 0x3000) = unat e + 0x3000" using that by (simp add: unat_word_ariths(1))
    moreover have "unat (8 * of_nat k :: u64) = 8 * k" using that by (simp add: unat_word_ariths(2) unat_of_nat)
    ultimately show ?thesis using that by (simp add: slot_def unat_word_ariths(1) unat_ucast_up)
  qed
  show "unat (slot d j) = unat d + 0x3000 + 8 * j" using e assms by simp
  show "slot d (Suc j) = slot (d + 8) j" using e [of d "Suc j"] e [of "d + 8" j] d assms by (simp add: word_unat_eq_iff)
qed

lemma SetEntry_off:
  assumes "unat d + 0x3000 + 8 * n < 2 ^ 32" "\<And>j. j < n \<Longrightarrow> x \<notin> region (slot d j) 4"
  shows "SetEntry n d b m x = m x"
  using assms
proof (induction n arbitrary: d b m)
  case (Suc n)
  have f: "slot d (Suc j) = slot (d + 8) j" "unat (d + 8) = unat d + 8" if "j \<le> n" for j
    using slot_facts [of d j] Suc.prems(1) that by simp_all
  have "x \<notin> region (slot (d + 8) j) 4" if "j < n" for j using Suc.prems(2) [of "Suc j"] f [of j] that by simp
  moreover have "x \<notin> region (ucast (d + 0x3000)) 4" using Suc.prems(2) [of 0] by (simp add: slot_def)
  ultimately show ?case using Suc.IH [of "d + 8"] Suc.prems(1) f(2) [of 0] by (simp add: write_u32_off)
qed simp

lemma SetEntry_read:
  assumes "unat d + 0x3000 + 8 * n < 2 ^ 32" "j < n"
  shows "read_u32 (SetEntry n d b m) (slot d j) = b + 0x1000 * of_nat j"
  using assms
proof (induction n arbitrary: d b m j)
  case (Suc n)
  let ?m = "write_u32 m (ucast (d + 0x3000)) b"
  have f: "unat (slot d j) = unat d + 0x3000 + 8 * j" "slot d (Suc j) = slot (d + 8) j" "unat (d + 8) = unat d + 8" if "j \<le> n" for j
    using slot_facts [of d j] Suc.prems(1) that by simp_all
  show ?case
  proof (cases j)
    case 0
    have "SetEntry n (d + 8) (b + 0x1000) ?m x = ?m x" if "x \<in> region (slot d 0) 4" for x
    proof (rule SetEntry_off)
      show "x \<notin> region (slot (d + 8) j) 4" if "j < n" for j
        using \<open>x \<in> region (slot d 0) 4\<close> f(1) [of 0] f(1) [of "Suc j"] f(2) [of j] that Suc.prems(1) by (auto simp: region_iff)
    qed (use Suc.prems(1) f(3) [of 0] in simp)
    then have "read_u32 (SetEntry n (d + 8) (b + 0x1000) ?m) (slot d 0) = read_u32 ?m (slot d 0)" by (rule read_u32_cong)
    then show ?thesis using 0 by (simp add: slot_def)
  next
    case (Suc i)
    then show ?thesis using Suc.IH [of "d + 8" i "b + 0x1000" ?m] Suc.prems f(2) [of i] f(3) [of 0] by (simp add: algebra_simps)
  qed
qed simp

subsection \<open>The tables\<close>

text \<open>
  The bytes of the tables: the loader clears the first table only, and writes the lower half of
  the entries of the others.
\<close>

lemma boot_tables_bytes:
  shows "0x1004 \<le> unat x \<and> unat x < 0x2000 \<Longrightarrow> boot_tables m x = 0"
    and "unat x < 0x1000 \<or> 0x2004 \<le> unat x \<and> unat x < 0x3000 \<or> 0x3004 \<le> unat x \<and> unat x < 0x4000 \<or> 0x5000 \<le> unat x
      \<Longrightarrow> boot_tables m x = m x"
    and "j < 512 \<Longrightarrow> x \<in> region (0x4004 + 8 * of_nat j) 4 \<Longrightarrow> boot_tables m x = m x"
    and "read_u32 (boot_tables m) 0x1000 = 0x2003" "read_u32 (boot_tables m) 0x2000 = 0x3003" "read_u32 (boot_tables m) 0x3000 = 0x4003"
    and "j < 512 \<Longrightarrow> read_u32 (boot_tables m) (0x4000 + 8 * of_nat j) = 0x1000 * of_nat j + 3"
proof -
  let ?z = "rep_stosd 1024 0x1000 0 m"
  let ?m = "write_u32 (write_u32 (write_u32 ?z 0x1000 0x2003) 0x2000 0x3003) 0x3000 0x4003"
  have b: "boot_tables m = SetEntry 512 0x1000 3 ?m" by (simp add: boot_tables_def Let_def)
  have z: "?z x = (if 0x1000 \<le> unat x \<and> unat x < 0x2000 then 0 else m x)" for x using rep_stosd_zero [of "0x1000" 1024 m x] by simp
  have s: "slot 0x1000 j = 0x4000 + 8 * of_nat j" for j by (simp add: slot_def)
  have u: "unat (slot 0x1000 j) = 0x4000 + 8 * j" if "j < 512" for j using slot_facts(1) [of "0x1000" j] that by simp
  have off: "boot_tables m x = ?m x" if "\<And>j. j < 512 \<Longrightarrow> x \<notin> region (slot 0x1000 j) 4" for x
    unfolding b by (rule SetEntry_off) (use that in simp_all)
  have low: "boot_tables m x = ?m x" if "unat x < 0x4000 \<or> 0x5000 \<le> unat x" for x
    by (rule off) (use that u in \<open>auto simp: region_iff\<close>)
  have w: "?m x = ?z x" if "x \<notin> region 0x1000 4" "x \<notin> region 0x2000 4" "x \<notin> region 0x3000 4" for x using that by (simp add: write_u32_off)
  show "boot_tables m x = 0" if "0x1004 \<le> unat x \<and> unat x < 0x2000" for x
    using low [of x] w [of x] z [of x] that by (simp add: region_iff)
  show "boot_tables m x = m x" if "unat x < 0x1000 \<or> 0x2004 \<le> unat x \<and> unat x < 0x3000 \<or> 0x3004 \<le> unat x \<and> unat x < 0x4000 \<or> 0x5000 \<le> unat x" for x
    using low [of x] w [of x] z [of x] that by (auto simp: region_iff)
  show "boot_tables m x = m x" if j: "j < 512" and x: "x \<in> region (0x4004 + 8 * of_nat j) 4" for x j
  proof -
    have "unat (0x4004 + 8 * of_nat j :: u64) = 0x4004 + 8 * j" using j by (simp add: unat_word_ariths unat_of_nat)
    then have r: "0x4004 + 8 * j \<le> unat x" "unat x < 0x4008 + 8 * j" using x j by (simp_all add: region_iff)
    have "x \<notin> region (slot 0x1000 i) 4" if "i < 512" for i
    proof
      assume "x \<in> region (slot 0x1000 i) 4"
      then have "0x4000 + 8 * i \<le> unat x" "unat x < 0x4004 + 8 * i" using u [OF that] that by (simp_all add: region_iff)
      then have "j < i" "i < Suc j" using r by linarith+
      then show False by simp
    qed
    then have "boot_tables m x = ?m x" by (rule off)
    then show ?thesis using w [of x] z [of x] r j by (simp add: region_iff)
  qed
  show "read_u32 (boot_tables m) 0x1000 = 0x2003" "read_u32 (boot_tables m) 0x2000 = 0x3003" "read_u32 (boot_tables m) 0x3000 = 0x4003"
  proof -
    have e: "read_u32 (boot_tables m) a = read_u32 ?m a" if "unat a + 4 \<le> 0x4000" for a
      by (rule read_u32_cong) (use low that in \<open>auto simp: region_iff\<close>)
    have f: "read_u32 (write_u32 k b v) a = read_u32 k a" if "region a 4 \<inter> region b 4 = {}" for k a b v
      by (intro read_u32_cong write_u32_off) (use that in blast)
    have d: "region 0x1000 4 \<inter> region 0x2000 4 = {}" "region 0x1000 4 \<inter> region 0x3000 4 = {}" "region 0x2000 4 \<inter> region 0x3000 4 = {}"
      by (auto simp: region_iff)
    show "read_u32 (boot_tables m) 0x1000 = 0x2003" "read_u32 (boot_tables m) 0x2000 = 0x3003" "read_u32 (boot_tables m) 0x3000 = 0x4003"
      by (simp_all add: e f d)
  qed
  show "read_u32 (boot_tables m) (0x4000 + 8 * of_nat j) = 0x1000 * of_nat j + 3" if "j < 512" for j
  proof -
    have "unat (0x1000 :: u32) + 0x3000 + 8 * 512 < 2 ^ 32" by simp
    from SetEntry_read [OF this that, of 3 ?m] show ?thesis by (simp add: b s add.commute)
  qed
qed

text \<open>
  Memory that holds the four tables: each of the first three has one entry, for the next one, and
  the last maps page \<open>i\<close> to itself.
\<close>

definition chain :: "memory_bytes \<Rightarrow> bool" where
  "chain m \<longleftrightarrow> (\<forall>i<512. entry m 0x1000 i = (if i = 0 then 0x2003 else 0) \<and> entry m 0x2000 i = (if i = 0 then 0x3003 else 0)
     \<and> entry m 0x3000 i = (if i = 0 then 0x4003 else 0) \<and> entry m 0x4000 i = (push_bit 12 i OR 3))"

lemma read_u64_zero_high:
  assumes "\<And>x. x \<in> region (a + 4) 4 \<Longrightarrow> m x = 0"
  shows "read_u64 m a = ucast (read_u32 m a)"
  using assms by (simp add: read_u64_def read_u32_def [of m "a + 4"] read_u16_def region_def add.assoc)

lemma entry_zero:
  assumes "\<And>x. x \<in> region (t + 8 * i) 8 \<Longrightarrow> m x = 0"
  shows "entry m t i = 0"
  unfolding entry_def by (rule trans [OF read_u64_cong [where m = "\<lambda>_. 0"]]) (use assms in \<open>simp_all add: read_u64_def read_u32_def read_u16_def\<close>)

lemma boot_tables_chain:
  assumes "\<And>x. 0x2000 \<le> unat x \<Longrightarrow> unat x < 0x5000 \<Longrightarrow> m x = 0"
  shows "chain (boot_tables m)"
proof -
  note b = boot_tables_bytes [where m = m]
  have z: "boot_tables m x = 0" if "0x1004 \<le> unat x" "unat x < 0x4000" "x \<notin> region 0x2000 4" "x \<notin> region 0x3000 4" for x
    using b(1) [of x] b(2) [of x] assms [of x] that by (auto simp: region_iff)
  have one: "entry (boot_tables m) t i = (if i = 0 then ucast (read_u32 (boot_tables m) t) else 0)"
    if "t \<in> {0x1000, 0x2000, 0x3000}" "i < 512" for t i :: u64
  proof -
    have t: "aligned t" "unat t \<in> {0x1000, 0x2000, 0x3000}" using that(1) by (auto simp: aligned_def)
    note s = unat_slot [OF t(1) that(2)]
    have a: "unat (t + 4) = unat t + 4" using t(2) by (auto simp: unat_word_ariths(1))
    show ?thesis
    proof (cases "i = 0")
      case True
      have "boot_tables m x = 0" if "x \<in> region (t + 4) 4" for x
        using that a t(2) by (intro z) (auto simp: region_iff)
      then show ?thesis using True by (simp add: entry_def read_u64_zero_high)
    next
      case False
      then have "1 \<le> unat i" by (simp add: word_unat_eq_iff Suc_leI)
      then have "boot_tables m x = 0" if "x \<in> region (t + 8 * i) 8" for x
        using that s t(2) by (intro z) (auto simp: region_iff)
      then show ?thesis using False by (simp add: entry_zero)
    qed
  qed
  have "entry (boot_tables m) 0x4000 i = (push_bit 12 i OR 3)" if "i < 512" for i
  proof -
    define j where "j = unat i"
    have j: "j < 512" "i = of_nat j" using that by (simp_all add: j_def word_less_nat_alt)
    have "boot_tables m x = 0" if x: "x \<in> region (0x4000 + 8 * i + 4) 4" for x
    proof -
      have "unat (0x4004 + 8 * of_nat j :: u64) = 0x4004 + 8 * j" using j(1) by (simp add: unat_word_ariths unat_of_nat)
      moreover have "x \<in> region (0x4004 + 8 * of_nat j) 4" using x by (simp add: j(2) algebra_simps)
      ultimately show ?thesis using b(3) [OF j(1)] assms [of x] j(1) by (simp add: region_iff)
    qed
    then have "read_u64 (boot_tables m) (0x4000 + 8 * i) = ucast (read_u32 (boot_tables m) (0x4000 + 8 * i))" by (rule read_u64_zero_high)
    then have "entry (boot_tables m) 0x4000 i = ucast (0x1000 * of_nat j + 3 :: u32)"
      using b(7) [OF j(1)] by (simp add: entry_def j(2))
    also have "\<dots> = push_bit 12 i + 3"
      using j(1) by (simp add: word_unat_eq_iff unat_ucast_up unat_word_ariths unat_of_nat push_bit_eq_mult j(2))
    also have "\<dots> = (push_bit 12 i OR 3)" 
    proof (rule disjunctive_add_eq_or)
      have "n < 2" if "bit (3 :: u64) n" for n by (rule less_bits [OF _ that]) simp
      then show "push_bit 12 i AND 3 = (0 :: u64)" by (fastforce simp: bit_eq_iff bit_simps)
    qed
    finally show ?thesis .
  qed
  then show ?thesis unfolding chain_def using one b(4-6) by simp
qed

lemma chain_agree:
  assumes "chain m" "agree_off R m m'" "R \<inter> region 0x1000 0x4000 = {}"
  shows "chain m'"
proof -
  have "region t 4096 \<inter> R = {}" if "t \<in> {0x1000, 0x2000, 0x3000, 0x4000}" for t :: u64
    using that assms(3) by (auto simp: region_iff)
  then have "entry m' t i = entry m t i" if "t \<in> {0x1000, 0x2000, 0x3000, 0x4000}" "i < 512" for t i :: u64
    using that assms(2) by (intro entry_agree) (auto simp: aligned_def)
  then show ?thesis using assms(1) by (simp add: chain_def)
qed

text \<open>The translation: the identity on the first two megabytes, and no other address.\<close>

lemma less_exp_iff:
  assumes "n < 64"
  shows "(v :: u64) < 2 ^ n \<longleftrightarrow> (\<forall>k. n \<le> k \<longrightarrow> \<not> bit v k)"
proof
  show "v < 2 ^ n \<Longrightarrow> \<forall>k. n \<le> k \<longrightarrow> \<not> bit v k" using less_bits by (metis not_le)
  assume "\<forall>k. n \<le> k \<longrightarrow> \<not> bit v k"
  then have "take_bit n v = v" by (auto simp: bit_eq_iff bit_simps not_le [symmetric])
  then have "unat v = take_bit n (unat v)" by (metis unsigned_take_bit_eq)
  also have "\<dots> < 2 ^ n" by (rule take_bit_nat_less_exp)
  also have "2 ^ n = unat (2 ^ n :: u64)"
  proof -
    have "(2 :: nat) ^ n < 2 ^ 64" using assms by (intro power_strict_increasing) simp_all
    moreover have "(2 ^ n :: u64) = push_bit n 1" by (simp add: push_bit_eq_mult)
    ultimately show ?thesis by (simp only: unsigned_push_bit_eq) (use assms in \<open>simp add: push_bit_eq_mult take_bit_nat_eq_self\<close>)
  qed
  finally show "v < 2 ^ n" by (simp add: word_less_nat_alt)
qed

lemma chain_walk:
  assumes "chain m" "v < 2 ^ 48"
  shows "page_walk m 0x1000 v = (if v < 0x200000 then Some v else None)"
proof -
  have mask: "(0x1FF :: u64) = mask 9" "(0xFFF :: u64) = mask 12" by (simp_all add: mask_eq_exp_minus_1)
  have ix: "drop_bit n v AND 0x1FF < 512" for n
    by (rule index_less)
  have z: "drop_bit n v AND 0x1FF = 0 \<longleftrightarrow> (\<forall>k. n \<le> k \<and> k < n + 9 \<longrightarrow> \<not> bit v k)" for n
  proof -
    have l: "k < 9 \<Longrightarrow> k < 64" for k :: nat by simp
    have "drop_bit n v AND 0x1FF = 0 \<longleftrightarrow> (\<forall>k<9. \<not> bit v (n + k))"
      unfolding mask by (simp add: bit_eq_iff bit_simps) (meson l)
    also have "\<dots> \<longleftrightarrow> (\<forall>k. n \<le> k \<and> k < n + 9 \<longrightarrow> \<not> bit v k)" by (metis add.commute add_less_cancel_left le_add1 le_add_diff_inverse)
    finally show ?thesis .
  qed
  have less: "v < 2 ^ n \<longleftrightarrow> (\<forall>k. n \<le> k \<longrightarrow> \<not> bit v k)" if "n < 64" for n
    by (rule less_exp_iff [OF that])
  have hi: "v < 0x200000 \<longleftrightarrow> drop_bit 39 v AND 0x1FF = 0 \<and> drop_bit 30 v AND 0x1FF = 0 \<and> drop_bit 21 v AND 0x1FF = 0"
  proof -
    have "k < 48" if "bit v k" for k by (rule less_bits [OF assms(2) that])
    moreover have "v < 0x200000 \<longleftrightarrow> (\<forall>k. 21 \<le> k \<longrightarrow> \<not> bit v k)" using less [of 21] by simp
    ultimately show ?thesis unfolding z by (auto; metis add_less_cancel_right linorder_not_le not_less_eq)
  qed
  let ?j = "drop_bit 12 v AND 0x1FF"
  have three: "n < 2" if "bit (3 :: u64) n" for n by (rule less_bits [OF _ that]) simp
  have pr: "present (push_bit 12 ?j OR 3)" by (simp add: present_def bit_eq_iff bit_simps) (rule exI [of _ 0], simp)
  note ch = assms(1) [unfolded chain_def, rule_format, OF ix]
  note c = ch [of 39, THEN conjunct1] ch [of 30, THEN conjunct2, THEN conjunct1] ch [of 21, THEN conjunct2, THEN conjunct2, THEN conjunct1]
    ch [of 12, THEN conjunct2, THEN conjunct2, THEN conjunct2]
  have "page_walk m 0x1000 v = (if v < 0x200000 then Some ((push_bit 12 ?j OR 3) AND 0xFFFFFFFFFF000 OR (v AND 0xFFF)) else None)"
  proof -
    obtain a b d j where i: "drop_bit 39 v AND 0x1FF = a" "drop_bit 30 v AND 0x1FF = b" "drop_bit 21 v AND 0x1FF = d" "?j = j" by blast
    have k: "present 0x2003" "present 0x3003" "present 0x4003" "\<not> present 0" by (simp_all add: present_def)
    show ?thesis
      unfolding page_walk_def Let_def hi i using c [unfolded i] pr [unfolded i] k
      by (cases "a = 0"; cases "b = 0"; cases "d = 0") simp_all
  qed
  moreover have "((push_bit 12 ?j OR 3) AND 0xFFFFFFFFFF000) OR (v AND 0xFFF) = v" if "v < 0x200000"
  proof (rule bit_word_eqI)
    fix n :: nat
    have f: "(0xFFFFFFFFFF000 :: u64) = push_bit 12 (mask 40)" by (simp add: mask_eq_exp_minus_1)
    have "bit v n \<Longrightarrow> n < 21" using less_bits [of v 21 n] that by simp
    then show "bit (((push_bit 12 ?j OR 3) AND 0xFFFFFFFFFF000) OR (v AND 0xFFF)) n \<longleftrightarrow> bit v n"
      using three [of n] unfolding f mask by (auto simp: bit_simps)
  qed
  ultimately show ?thesis using c(4) by simp
qed

subsection \<open>The tables are those the kernel expects\<close>

lemma chain_node:
  assumes "chain m" "inner_path p"
  shows "node m 0x1000 p = (if p = [] then Some 0x1000 else if p = [0] then Some 0x2000 else if p = [0, 0] then Some 0x3000 else None)"
proof -
  have k: "present 0x2003" "present 0x3003" "\<not> present 0" "table_of 0x2003 = 0x2000" "table_of 0x3003 = 0x3000"
    by (simp_all add: present_def table_of_def)
  consider "p = []" | i where "p = [i]" "i < 512" | i j where "p = [i, j]" "i < 512" "j < 512"
    using assms(2) unfolding inner_path_def by (cases p rule: remdups_adj.cases) auto
  then show ?thesis
  proof cases
    case (2 i)
    then show ?thesis using assms(1) k by (cases "i = 0") (simp_all add: chain_def)
  next
    case (3 i j)
    then show ?thesis using assms(1) k by (cases "i = 0"; cases "j = 0") (simp_all add: chain_def)
  qed simp
qed

lemma chain_tables_ok:
  assumes "chain (mem s)" "\<And>t. t \<in> {0x1000, 0x2000, 0x3000, 0x4000} \<Longrightarrow> table_page s t"
  shows "tables_ok 0x1000 s"
proof -
  note n = chain_node [OF assms(1)]
  have k: "present 0x2003" "present 0x3003" "present 0x4003" "\<not> present 0" "table_of 0x4003 = 0x4000" "plain 0x2003" "plain 0x3003"
    by (simp_all add: present_def table_of_def plain_def)
  have "tree_ok 0x1000 s"
    unfolding tree_ok_def
  proof (intro allI impI)
    fix p t assume p: "inner_path p" "node (mem s) 0x1000 p = Some t"
    then have t: "p = [] \<and> t = 0x1000 \<or> p = [0] \<and> t = 0x2000 \<or> p = [0, 0] \<and> t = 0x3000" using n by (auto split: if_splits)
    have "q = p" if "inner_path q" "node (mem s) 0x1000 q = Some t" for q using n [OF that(1)] that(2) t by (auto split: if_splits)
    moreover have "plain (entry (mem s) t i)" if "length p < 2" "i < 512" "present (entry (mem s) t i)" for i
      using that t assms(1) k by (cases "i = 0") (auto simp: chain_def)
    ultimately show "table_page s t \<and> (\<forall>q. inner_path q \<longrightarrow> node (mem s) 0x1000 q = Some t \<longrightarrow> q = p)
        \<and> (length p < 2 \<longrightarrow> (\<forall>i<512. present (entry (mem s) t i) \<longrightarrow> plain (entry (mem s) t i)))"
      using assms(2) t by auto
  qed
  moreover have "leaves_ok 0x1000 s"
    unfolding leaves_ok_def
  proof (intro allI impI)
    fix y assume y: "index_ok y" "pt_link (pd_slot (mem s) 0x1000 y)"
    obtain a b c where abc: "y = (a, b, c)" "a < 512" "b < 512" "c < 512" using y(1) by (cases y) (simp add: index_ok_def)
    have "inner_path [a, b]" using abc by (simp add: inner_path_def)
    from n [OF this] have "pd_slot (mem s) 0x1000 y = (if a = 0 \<and> b = 0 \<and> c = 0 then 0x4003 else 0)"
      using abc assms(1) by (simp add: pd_slot_def chain_def del: node.simps)
    then have e: "pd_slot (mem s) 0x1000 y = 0x4003" using y(2) k(4) by (auto simp: pt_link_def split: if_splits)
    have "node (mem s) 0x1000 p \<noteq> Some 0x4000" if "inner_path p" for p using n [OF that] by simp
    then show "let e = pd_slot (mem s) 0x1000 y in e < 2 ^ 52 \<and> table_page s (table_of e)
        \<and> (\<forall>p. inner_path p \<longrightarrow> node (mem s) 0x1000 p \<noteq> Some (table_of e))"
      unfolding e k(5) Let_def using assms(2) by simp
  qed
  ultimately show ?thesis by (simp add: tables_ok_def)
qed

end
