(* ===== verification/Boot_Properties.thy ===== *)
theory Boot_Properties
  imports Boot_Tables System
begin

text \<open>
  Properties of the boot loader and of its composition with the kernel: the mapping under which
  the kernel starts, what the loader leaves uninitialised, that a loaded kernel starts, and how
  much of the physical memory the kernel can reach afterwards.
\<close>

subsection \<open>The state at the kernel's entry\<close>

lemma write_u32_agree: "agree_off (region a 4) m (write_u32 m a v)"
  by (simp add: agree_off_def write_u32_off)

lemma gdt_bytes:
  "gdt32 = [0, 0, 0, 0, 0, 0, 0, 0, 0xFF, 0xFF, 0, 0, 0, 0x9A, 0xCF, 0, 0xFF, 0xFF, 0, 0, 0, 0x92, 0xCF, 0]"
  "gdt64 = [0, 0, 0, 0, 0, 0, 0, 0, 0xFF, 0xFF, 0, 0, 0, 0x9A, 0xAF, 0, 0xFF, 0xFF, 0, 0, 0, 0x92, 0xCF, 0,
     0x68, 0, 0, 0, 0, 0x89, 0xCF, 0]"
  by (simp_all add: gdt32_def gdt64_def dq_def dd_def dw_def)

lemma seg_bits:
  "bit (0x9A :: u8) 7" "bit (0x9A :: u8) 4" "bit (0x9A :: u8) 3" "bit (0x92 :: u8) 7" "bit (0x92 :: u8) 4" "\<not> bit (0x92 :: u8) 3"
  "bit (0xAF :: u8) 5" "\<not> bit (0xAF :: u8) 6" "\<not> bit (0xCF :: u8) 5" "\<not> bit (0x89 :: u8) 4"
  by (simp_all add: bit_iff_odd_drop_bit)

lemmas boot_steps = begin_pm_def begin_lm_def enter_long_mode_def switch_to_pm_def init_pm_def cli_def lgdt_def wrmsr_def
  set_reg_def set_seg_def machine_of_def Let_def

lemma begin_pm_mem: "mem (begin_pm g s) = write_u32 (boot_tables (mem s)) 0xB8000 0x2F532F4F"
  by (simp add: boot_steps)

lemma banner_off: "region 0xB8000 4 \<inter> region 0x1000 0x4000 = {}" "region 0xB8000 4 \<subseteq> screen_bytes"
  by (auto simp: region_iff screen_bytes_iff)

definition pages_clear :: "memory_bytes \<Rightarrow> bool" where
  "pages_clear m \<longleftrightarrow> (\<forall>x. 0x2000 \<le> unat x \<and> unat x < 0x5000 \<longrightarrow> m x = 0)"

lemma begin_pm_chain:
  assumes "pages_clear (mem s)"
  shows "chain (mem (begin_pm g s))"
  unfolding begin_pm_mem
  by (rule chain_agree [OF boot_tables_chain write_u32_agree banner_off(1)]) (use assms in \<open>simp add: pages_clear_def\<close>)

text \<open>
  C18: The mapping under which the kernel starts: if the memory from \<^verbatim>\<open>0x2000\<close> to \<^verbatim>\<open>0x4FFF\<close> is zero
  before, then in long mode (PAE, the long mode bit of \<^verbatim>\<open>EFER\<close>, protection and paging are on) the
  first two megabytes are mapped to themselves and no other address is mapped.
\<close>

theorem boot_identity_map:
  assumes "pages_clear (mem s)"
  shows "cr3 (begin_pm g s) = 0x1000 \<and> bit (cr4 (begin_pm g s)) 5 \<and> bit (msr (begin_pm g s) 0xC0000080) 8
    \<and> bit (cr0 (begin_pm g s)) 0 \<and> bit (cr0 (begin_pm g s)) 31 \<and> regs (begin_pm g s) RSP = 0x9000
    \<and> (\<forall>v < 2 ^ 48. page_walk (mem (begin_pm g s)) (cr3 (begin_pm g s)) v = (if v < 0x200000 then Some v else None))"
proof -
  have c: "cr3 (begin_pm g s) = 0x1000" "regs (begin_pm g s) RSP = 0x9000"
    by (simp_all add: boot_steps)
  have "bit (cr4 (begin_pm g s)) 5" "bit (msr (begin_pm g s) 0xC0000080) 8" "bit (cr0 (begin_pm g s)) 0" "bit (cr0 (begin_pm g s)) 31"
    by (simp_all add: boot_steps bit_simps)
  then show ?thesis using c chain_walk [OF begin_pm_chain [OF assms]] by simp
qed

theorem boot_identity_map_witness:
  "page_walk (mem (begin_pm 0x7D80 boot_state)) 0x1000 0x10000 = Some 0x10000 \<and> page_walk (mem (begin_pm 0x7D80 boot_state)) 0x1000 0x200000 = None"
proof -
  have "pages_clear (mem boot_state)" by (simp add: pages_clear_def)
  from boot_identity_map [OF this] have "cr3 (begin_pm 0x7D80 boot_state) = 0x1000"
    and "v < 2 ^ 48 \<Longrightarrow> page_walk (mem (begin_pm 0x7D80 boot_state)) (cr3 (begin_pm 0x7D80 boot_state)) v = (if v < 0x200000 then Some v else None)" for v
    by blast+
  from this(1) this(2) [of "0x10000"] this(2) [of "0x200000"] show ?thesis by simp
qed

text \<open>
  The loader clears the first table only: whatever earlier code left in the other tables stays
  in entries 1 to 511 of the second and third table and in the upper halves of the entries of
  the last, where it is a mapping as soon as its present bit is set.
\<close>

lemma boot_tables_uncleared:
  "\<forall>i. 0 < i \<and> i < 512 \<longrightarrow>
     entry (mem (begin_pm g s)) 0x1000 i = 0
     \<and> entry (mem (begin_pm g s)) 0x2000 i = entry (mem s) 0x2000 i \<and> entry (mem (begin_pm g s)) 0x3000 i = entry (mem s) 0x3000 i
     \<and> read_u32 (mem (begin_pm g s)) (0x4004 + 8 * i) = read_u32 (mem s) (0x4004 + 8 * i)"
proof (intro allI impI)
  fix i :: u64 assume i: "0 < i \<and> i < 512"
  note b = boot_tables_bytes [where m = "mem s"]
  have w: "mem (begin_pm g s) x = boot_tables (mem s) x" if "unat x < 0x5000" for x
    unfolding begin_pm_mem by (rule write_u32_off) (use that in \<open>simp add: region_iff\<close>)
  have p: "1 \<le> unat i" "unat i < 512" using i by (simp_all add: word_less_nat_alt Suc_leI)
  have s: "unat (0x1000 + 8 * i) = 0x1000 + 8 * unat i" "unat (0x2000 + 8 * i) = 0x2000 + 8 * unat i" "unat (0x3000 + 8 * i) = 0x3000 + 8 * unat i"
    using unat_slot(1) [of "0x1000" i] unat_slot(1) [of "0x2000" i] unat_slot(1) [of "0x3000" i] i by (simp_all add: aligned_def)
  have "entry (mem (begin_pm g s)) 0x1000 i = 0" using w b(1) s p by (intro entry_zero) (auto simp: region_iff)
  moreover have "entry (mem (begin_pm g s)) 0x2000 i = entry (mem s) 0x2000 i" "entry (mem (begin_pm g s)) 0x3000 i = entry (mem s) 0x3000 i"
    unfolding entry_def using w b(2) s p by (intro read_u64_cong; auto simp: region_iff)+
  moreover have "read_u32 (mem (begin_pm g s)) (0x4004 + 8 * i) = read_u32 (mem s) (0x4004 + 8 * i)"
  proof (rule read_u32_cong)
    fix x assume x: "x \<in> region (0x4004 + 8 * i) 4"
    have "unat (0x4004 + 8 * i) = 0x4004 + 8 * unat i" using p by (simp add: unat_word_ariths)
    then have "unat x < 0x5000" using x p by (simp add: region_iff)
    then show "mem (begin_pm g s) x = mem s x" using w b(3) [of "unat i" x] p x by simp
  qed
  ultimately show "entry (mem (begin_pm g s)) 0x1000 i = 0
     \<and> entry (mem (begin_pm g s)) 0x2000 i = entry (mem s) 0x2000 i \<and> entry (mem (begin_pm g s)) 0x3000 i = entry (mem s) 0x3000 i
     \<and> read_u32 (mem (begin_pm g s)) (0x4004 + 8 * i) = read_u32 (mem s) (0x4004 + 8 * i)" by blast
qed

subsection \<open>From the loader to the kernel\<close>

lemma low_table_page:
  assumes "alloc_ok s" "t \<in> {0x1000, 0x2000, 0x3000, 0x4000}"
  shows "table_page s t"
proof -
  have b: "alloc_bounds s" using assms(1) by (simp add: alloc_ok_def)
  have "t \<notin> avail_pages s"
  proof
    assume "t \<in> avail_pages s"
    then obtain i where "t = page_addr i" "i < total_pages s" by (auto simp: avail_pages_def free_pages_def)
    with page_addr_bounds(2) [OF b, of i] assms(2) show False by auto
  qed
  then show ?thesis using assms(2) by (auto simp: table_page_def aligned_def region_iff bitmap_area_iff screen_bytes_iff)
qed

text \<open>The static variables of the kernel as its image has them.\<close>

definition image_fresh :: "'a syscall_state_scheme \<Rightarrow> bool" where
  "image_fresh s \<longleftrightarrow> memory_start s = 0x100000 \<and> used_pages s = 0 \<and> length (idt s) = 256 \<and> length (irq_handlers s) = 16
     \<and> processes s = replicate 64 unused_slot \<and> length (syscall_table s) = 10"

lemma loaded_mem: "mem (set_reg RIP 0x10000 (begin_pm g64 (switch_to_pm g32 (machine_of q s)))) =
    write_u32 (boot_tables (rmem q)) 0xB8000 0x2F532F4F"
  by (simp add: set_reg_def begin_pm_mem) (simp add: boot_steps)

lemma loaded_end: "detected_end (mem (set_reg RIP 0x10000 (begin_pm g64 (switch_to_pm g32 (machine_of q s))))) = detected_end (rmem q)"
  unfolding loaded_mem using boot_tables_bytes(2) [where m = "rmem q"] by (intro detected_end_cong) (simp add: write_u32_off region_iff)

lemma loaded_ready:
  fixes g32 g64 :: u64
  assumes "image_fresh s" "pages_clear (rmem q)" "3 \<le> unat ((detected_end (rmem q) - 0x100000) div PAGE_SIZE)"
  defines "t \<equiv> set_reg RIP 0x10000 (begin_pm g64 (switch_to_pm g32 (machine_of q s)))"
  shows "boot_ready t"
proof -
  note mt = loaded_mem [of g64 g32 q s, folded t_def] and d = loaded_end [of g64 g32 q s, folded t_def]
  have r: "regs t RSP = 0x9000" "get_current_pml4 t = 0x1000" "memory_start t = 0x100000" "used_pages t = 0" "length (idt t) = 256"
    "length (irq_handlers t) = 16" "processes t = replicate 64 unused_slot" "length (syscall_table t) = 10"
    using assms(1) by (simp_all add: t_def image_fresh_def get_current_pml4_def boot_steps)
  have "chain (mem t)"
    unfolding mt by (rule chain_agree [OF boot_tables_chain write_u32_agree banner_off(1)]) (use assms(2) in \<open>simp add: pages_clear_def\<close>)
  then have "chain (mem (fresh_bitmap t))"
    by (rule chain_agree [OF _ fresh_bitmap_agree [OF r(3,4)]]) (auto simp: bitmap_area_iff screen_bytes_iff region_iff)
  then have "tables_ok 0x1000 (fresh_bitmap t)"
    using low_table_page fresh_bitmap_alloc_ok [OF r(3,4)] by (intro chain_tables_ok) blast+
  moreover have "sps_ok t" using r(1,7) by (simp add: sps_ok_def proc_def safe_sp_boot safe_sp_fresh)
  ultimately show "boot_ready t" using r d assms(3) by (simp add: boot_ready_def)
qed

text \<open>The end of memory that the reader computes from the entries of the BIOS.\<close>

definition reported_end :: "u32 list list \<Rightarrow> u64" where
  "reported_end tab =
     (let e = (words_entry (tab ! 0))\<lparr>base_low := push_bit 16 (drop_bit 16 (tab ! 0 ! 0))\<rparr>;
          (size, base) = fold pick_block (e # map words_entry (take 31 (tl tab))) (0, 0x100000)
      in if size = 0 then 0x20000000 else min (base + size) MAX_MEMORY)"

lemma detected_reported:
  assumes "smap_service int15 cont tab 6" "0x6000 \<le> sp s"
  shows "detected_end (rmem (detect_memory int15 s)) = reported_end tab"
proof -
  let ?m = "rmem (detect_memory int15 s)" and ?n = "min (length tab) 32"
  let ?e = "(words_entry (tab ! 0))\<lparr>base_low := push_bit 16 (drop_bit 16 (tab ! 0 ! 0))\<rparr>"
  note r = memory_map_entries [OF assms]
  have "tab \<noteq> []" using assms(1) by (simp add: smap_service_def)
  then obtain t ts where tab: "tab = t # ts" by (cases tab) auto
  have "?n < 2 ^ 16" by (rule le_less_trans [of _ 32]) simp_all
  then have n: "unat (of_nat ?n :: u16) = ?n" by (simp only: unat_of_nat) simp
  have n': "0 < ?n" using tab by simp
  have "map (read_entry ?m) [0..<?n] = ?e # map words_entry (take 31 (tl tab))"
  proof (rule nth_equalityI)
    show "length (map (read_entry ?m) [0..<?n]) = length (?e # map words_entry (take 31 (tl tab)))" by (simp add: tab)
    fix i assume "i < length (map (read_entry ?m) [0..<?n])"
    then have i: "i < ?n" by simp
    then have "map (read_entry ?m) [0..<?n] ! i = read_entry ?m i" by (simp only: nth_map_upt) simp
    also have "\<dots> = (?e # map words_entry (take 31 (tl tab))) ! i" unfolding r(2) [OF i] using i by (cases i) (auto simp: tab)
    finally show "map (read_entry ?m) [0..<?n] ! i = (?e # map words_entry (take 31 (tl tab))) ! i" .
  qed
  moreover have "of_nat ?n \<noteq> (0 :: u16)" "\<not> (50 :: u16) < of_nat ?n" using n n' by (auto simp: word_unat_eq_iff word_less_nat_alt simp del: of_nat_min)
  ultimately show ?thesis unfolding detected_end_def reported_end_def Let_def r(1) n by (simp add: case_prod_beta)
qed

text \<open>
  C3: From power-on to the kernel's loop: if the BIOS reports its memory in 24-byte entries and reads
  the image from drive \<^verbatim>\<open>0x80\<close>, the memory of the page tables is zero and the reported memory has
  at least three pages above 1 MiB, then the loader reaches the kernel's entry in the state
  \<open>kmain\<close> relies on, with the end of memory the BIOS reported and the segment registers and the
  descriptor table of long mode, and \<open>kmain\<close> reaches its final loop
  with the kernel's invariant.
\<close>

theorem power_on_to_kernel:
  assumes "smap_service int15 cont tab 6" "loads_image int13" "low8 (edx r) = 0x80" "pages_clear (rmem r)"
    and "image_fresh s" "3 \<le> unat ((reported_end tab - 0x100000) div PAGE_SIZE)"
  shows "\<exists>t u. boot_loader int15 int13 g32 g64 r s = Inr t \<and> regs t RIP = 0x10000 \<and> regs t RSP = 0x9000 \<and> \<not> interrupts_enabled t
    \<and> gdtr t = (31, g64) \<and> segs t = (\<lambda>_. 0x10)(CS := 0x08)
    \<and> boot_ready t \<and> detected_end (mem t) = reported_end tab
    \<and> kmain idt_addr isr irq idle entry_addr t = Some u \<and> kernel_ok u \<and> interrupts_enabled u
    \<and> get_current_pml4 u = kernel_pml4 u \<and> current_process u = Some 0"
proof -
  obtain q d where q: "start int15 int13 r = Inr q" "\<forall>a. 0x1000 \<le> unat a \<and> unat a < 0x5000 \<longrightarrow> rmem q a = rmem r a"
    and d: "0x6000 \<le> sp d" "\<forall>a. 0x1000 \<le> unat a \<and> unat a < 0x5500 \<longrightarrow> rmem q a = rmem (detect_memory int15 d) a"
    using start_loads [OF assms(1-3)] by blast
  let ?t = "set_reg RIP 0x10000 (begin_pm g64 (switch_to_pm g32 (machine_of q s)))"
  have e: "detected_end (rmem q) = reported_end tab"
    using detected_end_cong [of "rmem q" "rmem (detect_memory int15 d)"] d(2) detected_reported [OF assms(1) d(1)] by simp
  have c: "pages_clear (rmem q)" using assms(4) q(2) by (simp add: pages_clear_def)
  have l: "boot_ready ?t" by (rule loaded_ready [OF assms(5) c]) (simp only: e assms(6))
  obtain u where "kmain idt_addr isr irq idle entry_addr ?t = Some u" "kernel_ok u" "interrupts_enabled u"
    "get_current_pml4 u = kernel_pml4 u" "current_process u = Some 0"
    using kmain_result [OF l, of idt_addr isr irq idle entry_addr] by blast
  moreover have "boot_loader int15 int13 g32 g64 r s = Inr ?t" by (simp add: boot_loader_def q(1))
  moreover have "regs ?t RIP = 0x10000" "regs ?t RSP = 0x9000" "\<not> interrupts_enabled ?t" "gdtr ?t = (31, g64)"
    by (simp_all add: boot_steps gdt_bytes)
  moreover have "segs ?t q = ((\<lambda>_. 0x10)(CS := 0x08)) q" for q by (cases q) (simp_all add: boot_steps)
  then have "segs ?t = (\<lambda>_. 0x10)(CS := 0x08)" by (rule ext)
  ultimately show ?thesis using l loaded_end [of g64 g32 q s] e by metis
qed

theorem power_on_to_kernel_witness:
  "\<exists>t u. boot_loader (table_bios sample_map 6) (\<lambda>q. q\<lparr>cf := False\<rparr>) 0x7DA0 0x7D80 sample_boot boot_state = Inr t
    \<and> detected_end (mem t) = 0xFFE0000
    \<and> kmain 0x12000 (\<lambda>v. 0x10000 + of_nat v) (\<lambda>v. 0x11000 + of_nat v) 0x7000 0x13000 t = Some u \<and> kernel_ok u"
proof -
  have m: "smap_service (table_bios sample_map 6) of_nat sample_map 6" by (rule table_bios_service) (simp_all add: sample_map_def)
  have e: "reported_end sample_map = 0xFFE0000"
    by (simp add: reported_end_def sample_map_def words_entry_def pick_block_def usable_block_def entry_base_def entry_length_def Let_def)
  have "loads_image (\<lambda>q. q\<lparr>cf := False\<rparr>)" by (simp add: loads_image_def)
  moreover have "low8 (edx sample_boot) = 0x80" by (simp add: sample_boot_def low8_def)
  moreover have "pages_clear (rmem sample_boot)" by (simp add: sample_boot_def pages_clear_def)
  moreover have "image_fresh boot_state" by (simp add: image_fresh_def)
  moreover have "3 \<le> unat ((reported_end sample_map - 0x100000) div PAGE_SIZE)" unfolding e by (simp add: unat_div_distrib)
  ultimately have "\<exists>t u. boot_loader (table_bios sample_map 6) (\<lambda>q. q\<lparr>cf := False\<rparr>) 0x7DA0 0x7D80 sample_boot boot_state = Inr t
    \<and> regs t RIP = 0x10000 \<and> regs t RSP = 0x9000 \<and> \<not> interrupts_enabled t
    \<and> gdtr t = (31, 0x7D80) \<and> segs t = (\<lambda>_. 0x10)(CS := 0x08)
    \<and> boot_ready t \<and> detected_end (mem t) = reported_end sample_map
    \<and> kmain 0x12000 (\<lambda>v. 0x10000 + of_nat v) (\<lambda>v. 0x11000 + of_nat v) 0x7000 0x13000 t = Some u \<and> kernel_ok u \<and> interrupts_enabled u
    \<and> get_current_pml4 u = kernel_pml4 u \<and> current_process u = Some 0"
    by (rule power_on_to_kernel [OF m])
  then show ?thesis unfolding e by blast
qed

subsection \<open>The reach of the kernel\<close>

text \<open>
  C26: The kernel keeps the loader's mapping: after \<open>Init_Paging\<close>, the pages of the allocator with
  number below 256 (up to 2 MiB) are mapped to themselves and all later ones are not mapped, so
  that clearing such a page, as \<open>get_physical_page\<close> does, is a page fault.
\<close>

theorem later_pages_unmapped:
  assumes "chain (mem s)" "get_current_pml4 s = 0x1000" "alloc_ok s" "cursor_ok s" "3 \<le> card (avail_pages s)"
  shows "\<exists>t. Init_Paging s = Some t \<and> (\<forall>i < total_pages s.
    page_walk (mem t) (get_current_pml4 t) (page_addr i) = (if i < 256 then Some (page_addr i) else None))"
proof -
  have "tables_ok 0x1000 s" by (rule chain_tables_ok [OF assms(1)]) (rule low_table_page [OF assms(3)])
  then obtain t where t: "Init_Paging s = Some t" "get_current_pml4 t = kernel_pml4 t"
    "\<forall>w. indices w \<noteq> indices KERNEL_VIRTUAL_BASE \<longrightarrow> page_walk (mem t) (kernel_pml4 t) w = page_walk (mem s) 0x1000 w"
    using Init_Paging_walk [of s] assms(2-5) by auto
  have b: "alloc_bounds s" using assms(3) by (simp add: alloc_ok_def)
  have "page_walk (mem t) (get_current_pml4 t) (page_addr i) = (if i < 256 then Some (page_addr i) else None)" if "i < total_pages s" for i
  proof -
    note p = page_addr_bounds [OF b that]
    have lt: "page_addr i < 2 ^ 48" "page_addr i < 2 ^ 39" using p alloc_bounds_total [OF b] b by (simp_all add: word_less_nat_alt alloc_bounds_def)
    have "drop_bit 39 (page_addr i) = 0" using less_exp_iff [of 39 "page_addr i"] lt(2) by (auto simp: bit_eq_iff bit_simps)
    then have "indices (page_addr i) \<noteq> indices KERNEL_VIRTUAL_BASE" by (simp add: indices_def PML4_INDEX_def)
    moreover have "page_addr i < 0x200000 \<longleftrightarrow> i < 256" using p(1) by (auto simp: word_less_nat_alt)
    ultimately show ?thesis using t(2,3) chain_walk [OF assms(1) lt(1)] by simp
  qed
  then show ?thesis using t(1) by blast
qed

theorem later_pages_unmapped_witness:
  "\<exists>t. Init_Paging (fresh_bitmap (boot_state\<lparr>mem := boot_tables (\<lambda>_. 0)\<rparr>)) = Some t
    \<and> page_walk (mem t) (get_current_pml4 t) 0x1FF000 = Some 0x1FF000 \<and> page_walk (mem t) (get_current_pml4 t) 0x200000 = None"
proof -
  let ?b = "boot_state\<lparr>mem := boot_tables (\<lambda>_. 0)\<rparr>"
  let ?s = "fresh_bitmap ?b"
  have st: "memory_start ?b = 0x100000" "used_pages ?b = 0" by simp_all
  have "chain (mem ?b)" using boot_tables_chain [of "\<lambda>_. 0"] by simp
  then have ch: "chain (mem ?s)"
    by (rule chain_agree [OF _ fresh_bitmap_agree [OF st]]) (auto simp: bitmap_area_iff screen_bytes_iff region_iff)
  have d: "detected_end (mem ?b) = 0x20000000"
    using detected_end_cong [of "mem ?b" "\<lambda>_. 0"] boot_tables_bytes(2) [of _ "\<lambda>_. 0"]
    by (simp add: detected_end_def read_u16_def case_prod_beta)
  have cr: "get_current_pml4 ?s = 0x1000" "crtc_regs ?s = crtc_regs (vga_statics ())"
    by (simp_all add: fresh_bitmap_def Let_def get_current_pml4_def boot_state_def syscall_statics_def process_statics_def irq_statics_def
        idt_statics_def paging_statics_def memory_statics_def vga_statics_def cleared_def)
  have c: "cursor_ok ?s" using cursor_ok_regs [OF cr(2)] by simp
  have "3 \<le> card (avail_pages ?s)" unfolding fresh_bitmap_card [OF st] d by (simp add: unat_div_distrib)
  from later_pages_unmapped [OF ch cr(1) _ c this] fresh_bitmap_alloc_ok [OF st] obtain t where
    t: "Init_Paging ?s = Some t" "\<forall>i < total_pages ?s. page_walk (mem t) (get_current_pml4 t) (page_addr i) = (if i < 256 then Some (page_addr i) else None)"
    by blast
  have "total_pages ?s = 0x1FF00" unfolding fresh_bitmap_def Let_def d by simp
  then show ?thesis using t(1) t(2) [rule_format, of 255] t(2) [rule_format, of 256] by (simp add: page_addr_def)
qed

subsection \<open>Segments\<close>

text \<open>
  C35: The segments the two tables describe: in protected mode, selector \<^verbatim>\<open>0x08\<close> is flat code and
  \<^verbatim>\<open>0x10\<close> flat data (base 0, limit 4 GiB). In long mode \<^verbatim>\<open>0x08\<close>, which the interrupt gates and the
  entry of system calls use, is 64-bit code and \<^verbatim>\<open>0x10\<close> is data. But the selectors \<^verbatim>\<open>sysret\<close> takes
  from \<^verbatim>\<open>STAR\<close> as \<open>Init_Syscall\<close> sets it are wrong: the code selector lies beyond the end of the
  table, and the stack selector names the descriptor of the task state segment.
\<close>

theorem segment_selectors:
  assumes "cursor_ok s" "length (syscall_table s) = 10"
  shows "code_segment gdt32 0x08 \<and> \<not> code64_segment gdt32 0x08 \<and> data_segment gdt32 0x10
    \<and> (\<forall>sel \<in> {0x08, 0x10}. seg_base gdt32 sel = 0 \<and> seg_limit gdt32 sel = 0xFFFFF)
    \<and> code64_segment gdt64 0x08 \<and> data_segment gdt64 0x10
    \<and> (\<exists>t. Init_Syscall entry_addr s = Some t \<and> drop_bit 32 (msr t 0xC0000081) AND 0xFFFF = 0x08
         \<and> \<not> in_table gdt64 (sel_offset (segs (sysret t) CS))
         \<and> in_table gdt64 (sel_offset (segs (sysret t) SS)) \<and> \<not> data_segment gdt64 (sel_offset (segs (sysret t) SS)))"
proof -
  obtain t where t: "Init_Syscall entry_addr s = Some t" "screen_only (syscalls_started entry_addr s) t"
    using Init_Syscall_result [OF assms] by blast
  have m: "msr t 0xC0000081 = 0x10000800000000" using t(2) by (auto simp: syscalls_started_def elim!: screen_onlyE)
  then have "sel_offset (segs (sysret t) CS) = 0x20" "sel_offset (segs (sysret t) SS) = 0x18"
    by (simp_all add: sysret_def set_seg_def set_reg_def sel_offset_def Let_def)
  then show ?thesis
    using t(1) m seg_bits by (simp add: Let_def code_segment_def code64_segment_def data_segment_def in_table_def seg_base_def seg_limit_def gdt_bytes)
qed

theorem segment_selectors_witness:
  "\<exists>t. Init_Syscall 0x13000 boot_state = Some t \<and> \<not> in_table gdt64 (sel_offset (segs (sysret t) CS))"
proof -
  have "crtc_regs boot_state = crtc_regs (vga_statics ())"
    by (simp add: boot_state_def syscall_statics_def process_statics_def irq_statics_def idt_statics_def paging_statics_def
      memory_statics_def vga_statics_def cleared_def)
  then have "cursor_ok boot_state" using cursor_ok_regs [of boot_state "vga_statics ()"] by simp
  from segment_selectors [OF this, of "0x13000"] show ?thesis by (auto simp: Let_def)
qed

end
