(* ===== verification/Boot_Failures.thy ===== *)
theory Boot_Failures
  imports Boot_Properties
begin

text \<open>
  Memory detection with a BIOS that is not known to follow the protocol: whatever the service
  answers, the loader's loop ends, the registers come back, and the kernel finds at most 32
  entries; without a usable answer it finds none, falls back to its default, and starts.
\<close>

text \<open>The only thing asked of the service: it returns with the stack as its caller left it.\<close>

definition keeps_stack :: "(real_mode \<Rightarrow> real_mode) \<Rightarrow> bool" where
  "keeps_stack f \<longleftrightarrow> (\<forall>q. sp (f q) = sp q \<and> (\<forall>a \<in> region (ucast (sp q)) 20. rmem (f q) a = rmem q a))"

text \<open>For the way to the kernel also: it leaves the memory of the first page tables alone.\<close>

definition keeps_tables :: "(real_mode \<Rightarrow> real_mode) \<Rightarrow> bool" where
  "keeps_tables f \<longleftrightarrow> (\<forall>q a. 0x1000 \<le> unat a \<and> unat a < 0x5000 \<longrightarrow> rmem (f q) a = rmem q a)"

text \<open>The loop has ended: \<open>n\<close> is the number of entries it stored, the stack is as before.\<close>

definition counted :: "u32 \<Rightarrow> boot \<Rightarrow> boot \<Rightarrow> bool" where
  "counted n s t \<longleftrightarrow> sp t = sp s \<and> (\<forall>a \<in> region (ucast (sp s)) 20. rmem t a = rmem s a)
     \<and> read_u32 (rmem t) 0x5000 = n \<and> BOOT_DRIVE t = BOOT_DRIVE s"

lemma store_count_counted:
  assumes "sp t = sp s" "\<forall>a \<in> region (ucast (sp s)) 20. rmem t a = rmem s a" "BOOT_DRIVE t = BOOT_DRIVE s" "0x5800 \<le> unat (sp s)"
  shows "counted n s (store_count n t)"
proof -
  have "unat (ucast (sp s) :: u64) = unat (sp s)" "unat (sp s) < 2 ^ 16"
    using unsigned_less [of "sp s", where ?'a = nat] by (simp_all add: unat_ucast_up)
  then have "region (ucast (sp s)) 20 \<inter> region 0x5000 4 = {}" using assms(4) by (auto simp: region_iff)
  then have "\<forall>a \<in> region (ucast (sp s)) 20. write_u32 (rmem t) 0x5000 n a = rmem s a"
    using assms(2) write_u32_off by (metis IntI empty_iff)
  then show ?thesis using assms by (simp add: counted_def store_count_def Let_def)
qed

text \<open>One request, and the state in which the next one is made.\<close>

definition asked_once :: "(real_mode \<Rightarrow> real_mode) \<Rightarrow> boot \<Rightarrow> boot" where
  "asked_once int15 s = service int15 (s\<lparr>eax := 0xE820\<rparr>)"

definition next_request :: "boot \<Rightarrow> boot" where
  "next_request t = t\<lparr>entry_count := entry_count t + 1, edi := set_low16 (low16 (edi t) + low16 (ecx t)) (edi t)\<rparr>"

lemma memory_loop_step:
  "memory_loop int15 s =
     (let t = asked_once int15 s; u = next_request t
      in if cf t then memory_done t else if eax t \<noteq> SMAP then memory_error t
         else if ebx t = 0 then memory_done u else if entry_count u < 32 then memory_loop int15 u else memory_done u)"
  by (subst memory_loop.simps) (simp add: asked_once_def next_request_def Let_def cong: if_cong)

lemma asked_once_keeps:
  assumes "keeps_stack int15"
  shows "sp (asked_once int15 s) = sp s" "\<forall>a \<in> region (ucast (sp s)) 20. rmem (asked_once int15 s) a = rmem s a"
    "BOOT_DRIVE (asked_once int15 s) = BOOT_DRIVE s" "entry_count (asked_once int15 s) = entry_count s"
  using assms by (simp_all add: keeps_stack_def asked_once_def)

lemma memory_loop_counted:
  assumes "keeps_stack int15" "entry_count s < 32" "0x5800 \<le> unat (sp s)"
  shows "\<exists>n \<le> 32. counted n s (memory_loop int15 s)"
  using assms(2,3)
proof (induction "32 - unat (entry_count s)" arbitrary: s)
  case 0
  then show ?case by (simp add: word_less_nat_alt)
next
  case (Suc k)
  let ?t = "asked_once int15 s"
  let ?u = "next_request ?t"
  note t = asked_once_keeps [OF assms(1), of s]
  have u: "sp ?u = sp s" "\<forall>a \<in> region (ucast (sp s)) 20. rmem ?u a = rmem s a" "BOOT_DRIVE ?u = BOOT_DRIVE s"
    "entry_count ?u = entry_count s + 1" using t by (simp_all add: next_request_def)
  have stop: "counted n s (store_count n x)"
    if "sp x = sp s" "\<forall>a \<in> region (ucast (sp s)) 20. rmem x a = rmem s a" "BOOT_DRIVE x = BOOT_DRIVE s" for n x
    using that Suc.prems(2) by (rule store_count_counted)
  have fin: "counted (entry_count x) s (memory_done x)"
    if "sp x = sp s" "\<forall>a \<in> region (ucast (sp s)) 20. rmem x a = rmem s a" "BOOT_DRIVE x = BOOT_DRIVE s" for x
    unfolding memory_done_def Let_def using that stop [of "x\<lparr>eax := entry_count x\<rparr>"] by simp
  have inc: "unat (entry_count s + 1) = Suc (unat (entry_count s))" by (rule unat_plus_one [OF Suc.prems(1)])
  then have le: "entry_count s \<le> 32" "entry_count ?u \<le> 32"
    using Suc.prems(1) by (simp_all add: u(4) word_less_nat_alt word_le_nat_alt)
  consider "memory_loop int15 s = memory_done ?t" | "memory_loop int15 s = memory_error ?t" | "memory_loop int15 s = memory_done ?u"
    | "memory_loop int15 s = memory_loop int15 ?u" "entry_count ?u < 32"
    using memory_loop_step [of int15 s] unfolding Let_def by metis
  then show ?case
  proof cases
    case 1
    then show ?thesis using fin [OF t(1-3)] le(1) t(4) by auto
  next
    case 2
    then show ?thesis using stop [OF t(1-3), of 0] by (intro exI [of _ 0]) (simp add: memory_error_def)
  next
    case 3
    then show ?thesis using fin [OF u(1-3)] le(2) by auto
  next
    case 4
    have "k = 32 - unat (entry_count ?u)" using Suc.hyps(2) inc by (simp add: u(4))
    then obtain n where "n \<le> 32" "counted n ?u (memory_loop int15 ?u)" using Suc.hyps(1) [of ?u] 4(2) Suc.prems(2) u(1) by auto
    then show ?thesis using 4(1) u by (auto simp: counted_def)
  qed
qed

lemma memory_loop_tables:
  assumes "keeps_tables int15" "0x1000 \<le> unat a" "unat a < 0x5000"
  shows "rmem (memory_loop int15 s) a = rmem s a"
  using assms(1)
proof (induction int15 s rule: memory_loop.induct)
  case (1 int15 s)
  have "a \<notin> region 0x5000 4" using assms(2,3) by (simp add: region_iff)
  then have w: "rmem (store_count n t) a = rmem t a" for n t by (simp add: store_count_def Let_def write_u32_off)
  have t: "rmem (service int15 (s\<lparr>eax := 0xE820\<rparr>)) a = rmem s a" using "1.prems" assms(2,3) by (simp add: keeps_tables_def)
  show ?case
    by (subst memory_loop.simps) (use "1.IH" [OF refl _ _ refl] "1.prems" t in \<open>simp add: Let_def memory_done_def memory_error_def w\<close>)
qed

lemma first_answer:
  assumes "keeps_stack int15" "0x5800 \<le> unat (sp s)" "entry_count s = 0" "cf (asked_once int15 s) \<or> eax (asked_once int15 s) \<noteq> SMAP"
  shows "counted 0 s (memory_loop int15 s)"
proof -
  note t = asked_once_keeps [OF assms(1), of s]
  have "memory_loop int15 s = store_count 0 ((asked_once int15 s)\<lparr>eax := (if cf (asked_once int15 s) then 0 else eax (asked_once int15 s))\<rparr>)"
    using assms(3,4) t(4) unfolding memory_loop_step [of int15 s] Let_def by (auto simp: memory_done_def memory_error_def Let_def)
  then show ?thesis using t assms(2) store_count_counted [of "(asked_once int15 s)\<lparr>eax := x\<rparr>" s 0 for x] by simp
qed

lemma count_read: "read_u16 m a = ucast (read_u32 m a)"
  unfolding read_u32_def by (rule bit_word_eqI) (auto simp: bit_simps)

text \<open>The state in which the first request is made, and what holds of the routine in any case.\<close>

definition first_request :: "(real_mode \<Rightarrow> real_mode) \<Rightarrow> boot \<Rightarrow> boot" where
  "first_request int15 s = service int15 ((detect_setup s)\<lparr>eax := 0xE820\<rparr>)"

lemma detect_memory_result:
  assumes "keeps_stack int15" "0x6000 \<le> sp s"
  defines "t \<equiv> detect_memory int15 s"
  shows "regs_restored s t" "es t = es s" "BOOT_DRIVE t = BOOT_DRIVE s" "read_u16 (rmem t) 0x5000 \<le> 32"
    and "cf (first_request int15 s) \<or> eax (first_request int15 s) \<noteq> SMAP \<Longrightarrow> read_u16 (rmem t) 0x5000 = 0"
    and "keeps_tables int15 \<Longrightarrow> 0x1000 \<le> unat a \<Longrightarrow> unat a < 0x5000 \<Longrightarrow> rmem t a = rmem s a"
proof -
  let ?q = "sp s - 20"
  have p: "20 \<le> unat (sp s)" "0x6000 \<le> unat (sp s)" using assms(2) by (simp_all add: word_le_nat_alt)
  obtain m where m: "detect_setup s = requesting m s" "agree_off (region (ucast ?q) 20) (rmem s) m"
    and ret: "sp u = ?q \<longrightarrow> (\<forall>a \<in> region (ucast ?q) 20. rmem u a = m a) \<longrightarrow> regs_restored s (detect_return u)
      \<and> es (detect_return u) = es s \<and> BOOT_DRIVE (detect_return u) = BOOT_DRIVE u \<and> rmem (detect_return u) = rmem u" for u
    using detect_memory_frame [OF p(1)] by blast
  let ?r = "requesting m s"
  have r: "sp ?r = ?q" "rmem ?r = m" "BOOT_DRIVE ?r = BOOT_DRIVE s" "entry_count ?r = 0" by (simp_all add: requesting_def)
  have big: "0x5800 \<le> unat (sp ?r)" using stack_words(1) [OF p(1)] p(2) r(1) by simp
  have t: "t = detect_return (memory_loop int15 ?r)" by (simp add: t_def detect_memory_def m)
  have get: "regs_restored s t" "es t = es s" "BOOT_DRIVE t = BOOT_DRIVE s" "read_u16 (rmem t) 0x5000 = ucast n" "rmem t = rmem (memory_loop int15 ?r)"
    if "counted n ?r (memory_loop int15 ?r)" for n
    using that ret [of "memory_loop int15 ?r"] r by (simp_all add: counted_def t count_read)
  obtain n where n: "n \<le> 32" "counted n ?r (memory_loop int15 ?r)"
    using memory_loop_counted [OF assms(1) _ big] r(4) by auto
  have "unat (ucast n :: u16) \<le> 32" using n(1) by (simp add: word_le_nat_alt unsigned_ucast_eq take_bit_nat_eq_self)
  then show "regs_restored s t" "es t = es s" "BOOT_DRIVE t = BOOT_DRIVE s" "read_u16 (rmem t) 0x5000 \<le> 32"
    using get [OF n(2)] by (simp_all add: word_le_nat_alt)
  show "read_u16 (rmem t) 0x5000 = 0" if "cf (first_request int15 s) \<or> eax (first_request int15 s) \<noteq> SMAP"
    using get(4) [OF first_answer [OF assms(1) big r(4)]] that by (simp add: first_request_def m(1) asked_once_def)
  show "rmem t a = rmem s a" if "keeps_tables int15" "0x1000 \<le> unat a" "unat a < 0x5000"
  proof -
    have "m a = rmem s a" using that stack_words(1,2,3) [OF p(1)] p(2) by (intro agree_offD [OF m(2)]) (simp add: region_iff)
    then show ?thesis using get(5) [OF n(2)] memory_loop_tables [OF that, of ?r] r(2) by simp
  qed
qed

lemma no_entries: "read_u16 m 0x5000 = 0 \<Longrightarrow> detected_end m = 0x20000000"
  by (simp add: detected_end_def case_prod_beta)

text \<open>
  C16: Memory detection survives every answer of the BIOS: with a service that merely keeps its
  caller's stack, the routine returns with all sixteen-bit registers, the stack pointer and
  the drive number restored, and leaves a count of at most 32 entries for the kernel (which
  accepts up to 50). If the first request fails, by the carry flag or a wrong signature, the
  count is 0, and the kernel then assumes 512 MiB of memory.
\<close>

theorem detect_memory_any_bios:
  assumes "keeps_stack int15" "0x6000 \<le> sp s"
  defines "t \<equiv> detect_memory int15 s"
  shows "regs_restored s t \<and> es t = es s \<and> BOOT_DRIVE t = BOOT_DRIVE s \<and> read_u16 (rmem t) MEMORY_MAP_LOCATION \<le> 32
    \<and> (cf (first_request int15 s) \<or> eax (first_request int15 s) \<noteq> SMAP \<longrightarrow>
         read_u16 (rmem t) MEMORY_MAP_LOCATION = 0 \<and> detected_end (rmem t) = 0x20000000)"
  using detect_memory_result [OF assms(1,2)] no_entries unfolding t_def by blast

theorem detect_memory_any_bios_witness:
  "detected_end (rmem (detect_memory (\<lambda>q. q\<lparr>cf := True\<rparr>) (sample_boot\<lparr>sp := 0x8000\<rparr>))) = 0x20000000"
proof -
  have "keeps_stack (\<lambda>q. q\<lparr>cf := True\<rparr>)" by (simp add: keeps_stack_def)
  from detect_memory_any_bios [OF this, of "sample_boot\<lparr>sp := 0x8000\<rparr>"] show ?thesis by (simp add: first_request_def)
qed

text \<open>
  C17: Power-on with any BIOS: if the memory service keeps the stack and the tables' memory, whatever
  else it answers, and the disk service reads the image from drive \<^verbatim>\<open>0x80\<close>, then the loader
  reaches the kernel's entry; whenever the kernel detects three pages of memory above 1 MiB it
  also reaches its loop with its invariant; and if the memory service only fails, it detects
  512 MiB and starts.
\<close>

theorem power_on_any_bios:
  assumes "keeps_stack int15" "keeps_tables int15" "loads_image int13" "low8 (edx r) = 0x80" "pages_clear (rmem r)" "image_fresh s"
  shows "\<exists>t. boot_loader int15 int13 g32 g64 r s = Inr t \<and> regs t RIP = 0x10000
    \<and> ((\<forall>q. cf (int15 q)) \<longrightarrow> detected_end (mem t) = 0x20000000)
    \<and> (3 \<le> unat ((detected_end (mem t) - 0x100000) div PAGE_SIZE) \<or> (\<forall>q. cf (int15 q)) \<longrightarrow>
         (\<exists>u. kmain idt_addr isr irq idle entry_addr t = Some u \<and> kernel_ok u \<and> interrupts_enabled u))"
proof -
  let ?d = "detect_memory int15 (detecting r)"
  note d = detect_memory_result [OF assms(1) detecting_sp [of r]]
  obtain q where q: "start int15 int13 r = Inr q" "\<forall>a. 0x1000 \<le> unat a \<and> unat a < 0x5500 \<longrightarrow> rmem q a = rmem ?d a"
    using start_after_map [OF d(1,3) refl assms(3,4)] by auto
  have "rmem q a = rmem r a" if "0x1000 \<le> unat a" "unat a < 0x5000" for a
    using q(2) d(6) [OF assms(2) that] that by (simp add: detecting_def)
  then have c: "pages_clear (rmem q)" using assms(5) by (simp add: pages_clear_def)
  have e: "detected_end (rmem q) = detected_end (rmem ?d)" using q(2) by (intro detected_end_cong) simp
  let ?t = "set_reg RIP 0x10000 (begin_pm g64 (switch_to_pm g32 (machine_of q s)))"
  note m = loaded_end [of g64 g32 q s, unfolded e]
  have ready: "\<exists>u. kmain idt_addr isr irq idle entry_addr ?t = Some u \<and> kernel_ok u \<and> interrupts_enabled u"
    if "3 \<le> unat ((detected_end (mem ?t) - 0x100000) div PAGE_SIZE)"
  proof -
    have "boot_ready ?t" by (rule loaded_ready [OF assms(6) c]) (use that in \<open>simp only: m e\<close>)
    from kmain_result [OF this, of idt_addr isr irq idle entry_addr] show ?thesis by blast
  qed
  have fail: "detected_end (mem ?t) = 0x20000000" if "\<forall>q. cf (int15 q)"
    unfolding m by (rule no_entries, rule d(5)) (use that in \<open>simp add: first_request_def\<close>)
  have "3 \<le> unat (((0x20000000 :: u64) - 0x100000) div PAGE_SIZE)" by (simp add: unat_div_distrib)
  then have "\<exists>u. kmain idt_addr isr irq idle entry_addr ?t = Some u \<and> kernel_ok u \<and> interrupts_enabled u"
    if "3 \<le> unat ((detected_end (mem ?t) - 0x100000) div PAGE_SIZE) \<or> (\<forall>q. cf (int15 q))" using that ready fail by metis
  moreover have "boot_loader int15 int13 g32 g64 r s = Inr ?t" by (simp add: boot_loader_def q(1))
  moreover have "regs ?t RIP = 0x10000" by (simp add: set_reg_def)
  ultimately show ?thesis using fail by blast
qed

theorem power_on_any_bios_witness:
  "\<exists>t u. boot_loader (\<lambda>q. q\<lparr>cf := True\<rparr>) (\<lambda>q. q\<lparr>cf := False\<rparr>) 0x7DA0 0x7D80 sample_boot boot_state = Inr t
    \<and> detected_end (mem t) = 0x20000000
    \<and> kmain 0x12000 (\<lambda>v. 0x10000 + of_nat v) (\<lambda>v. 0x11000 + of_nat v) 0x7000 0x13000 t = Some u \<and> kernel_ok u"
proof -
  have "keeps_stack (\<lambda>q. q\<lparr>cf := True\<rparr>)" "keeps_tables (\<lambda>q. q\<lparr>cf := True\<rparr>)" "loads_image (\<lambda>q. q\<lparr>cf := False\<rparr>)"
    by (simp_all add: keeps_stack_def keeps_tables_def loads_image_def)
  moreover have "low8 (edx sample_boot) = 0x80" "pages_clear (rmem sample_boot)"
    by (simp_all add: sample_boot_def low8_def pages_clear_def)
  moreover have "image_fresh boot_state" by (simp add: image_fresh_def)
  ultimately show ?thesis
    using power_on_any_bios [of "\<lambda>q. q\<lparr>cf := True\<rparr>" "\<lambda>q. q\<lparr>cf := False\<rparr>" sample_boot boot_state "0x7DA0" "0x7D80"
        "0x12000" "\<lambda>v. 0x10000 + of_nat v" "\<lambda>v. 0x11000 + of_nat v" "0x7000" "0x13000"] by auto
qed

end
