(* ===== verification/Refinement.thy ===== *)
theory Refinement
  imports Memory_Properties Screen_Properties Paging_Properties
begin

text \<open>
  Two components as data types with an abstract specification. The page allocator, whose state is
  a bitmap, counters and bounds, behaves on every sequence of calls as a set of pages; the
  screen driver, whose state is the video memory and the registers of the controller, behaves
  on every sequence of calls as a terminal. Both are instances of one refinement contract.
\<close>

subsection \<open>The page allocator as a set of pages\<close>

datatype pool_op = Alloc | Release u64 | Free_memory | Total_memory

fun pool_call :: "pool_op \<Rightarrow> 'a memory_scheme \<Rightarrow> (u64 \<times> 'a memory_scheme) option" where
  "pool_call Alloc s = Some (get_physical_page s)"
| "pool_call (Release p) s = Some (0, free_physical_page p s)"
| "pool_call Free_memory s = Some (get_free_memory s, s)"
| "pool_call Total_memory s = Some (get_total_memory s, s)"

text \<open>The specification: all pages and the free ones among them.\<close>

fun pool_spec :: "pool_op \<Rightarrow> u64 set \<times> u64 set \<Rightarrow> (u64 \<times> u64 set \<times> u64 set) option" where
  "pool_spec Alloc (A, F) = Some (if F = {} then (0, A, F) else (Min F, A, F - {Min F}))"
| "pool_spec (Release p) (A, F) = Some (0, A, if p \<in> A then insert p F else F)"
| "pool_spec Free_memory (A, F) = Some (of_nat (4096 * card F), A, F)"
| "pool_spec Total_memory (A, F) = Some (of_nat (4096 * card A), A, F)"

definition pool_of :: "'a memory_scheme \<Rightarrow> u64 set \<times> u64 set" where
  "pool_of s = (all_pages s, avail_pages s)"

lemma card_pages:
  assumes "alloc_bounds s"
  shows "card (all_pages s) = unat (total_pages s)" "card (avail_pages s) = card (free_pages s)"
proof -
  have "inj_on page_addr {i. i < total_pages s}" by (auto simp: inj_on_def page_addr_inject [OF assms])
  then show "card (all_pages s) = unat (total_pages s)" "card (avail_pages s) = card (free_pages s)"
    unfolding all_pages_def avail_pages_def
    by (simp_all add: card_image card_word_less inj_on_subset free_pages_def subset_eq)
qed

text \<open>What the allocator may change: the bitmap, the bytes of its pages and the count of used pages.\<close>

definition pool_bytes :: "'a memory_scheme \<Rightarrow> u64 set" where
  "pool_bytes s = bitmap_area \<union> (\<Union>p \<in> all_pages s. region p 4096)"

definition pool_only :: "'a memory_scheme \<Rightarrow> 'a memory_scheme \<Rightarrow> bool" where
  "pool_only s t \<longleftrightarrow> (\<exists>m u. t = s\<lparr>mem := m, used_pages := u\<rparr> \<and> agree_off (pool_bytes s) (mem s) m)"

lemma pool_only_refl: "pool_only s s"
  unfolding pool_only_def by (intro exI [of _ "mem s"] exI [of _ "used_pages s"]) simp

lemma pool_only_trans:
  assumes "pool_only s t" "pool_only t u"
  shows "pool_only s u"
proof -
  obtain m n where t: "t = s\<lparr>mem := m, used_pages := n\<rparr>" "agree_off (pool_bytes s) (mem s) m"
    using assms(1) unfolding pool_only_def by blast
  obtain m' n' where u: "u = t\<lparr>mem := m', used_pages := n'\<rparr>" "agree_off (pool_bytes t) (mem t) m'"
    using assms(2) unfolding pool_only_def by blast
  have "pool_bytes t = pool_bytes s" by (simp add: t(1) pool_bytes_def all_pages_def)
  then have "agree_off (pool_bytes s) (mem s) m'" using t u(2) agree_off_trans by fastforce
  moreover have "u = s\<lparr>mem := m', used_pages := n'\<rparr>" by (simp add: t(1) u(1))
  ultimately show ?thesis unfolding pool_only_def by blast
qed

lemma get_page_pool_only: "alloc_ok s \<Longrightarrow> pool_only s (snd (get_physical_page s))"
proof (cases "avail_pages s = {}")
  case False
  assume ok: "alloc_ok s"
  note g = get_physical_page_some [OF ok False, of "fst (get_physical_page s)" "snd (get_physical_page s)", simplified]
  have "fst (get_physical_page s) \<in> all_pages s" using g(1) pa.avail_pages [OF ok] by blast
  then have "agree_off (pool_bytes s) (mem s) (mem (snd (get_physical_page s)))"
    by (intro agree_off_mono [OF g(7)]) (auto simp: pool_bytes_def)
  then show ?thesis using g(8) unfolding pool_only_def by blast
qed (simp add: pa.alloc_none pool_only_refl)

lemma free_page_pool_only: "alloc_ok s \<Longrightarrow> pool_only s (free_physical_page p s)"
proof (cases "p \<in> all_pages s - avail_pages s")
  case True
  assume ok: "alloc_ok s"
  then have b: "alloc_bounds s" by (simp add: alloc_ok_def)
  obtain i where i: "p = page_addr i" "i < total_pages s" "\<not> page_free s i" using owned_page [OF b True] .
  then have eq: "free_physical_page p s = give_page i s" by (simp add: free_physical_page_addr [OF b i(2)])
  have "agree_off (pool_bytes s) (mem s) (mem (give_page i s))"
    by (rule agree_off_mono [OF give_page_agree [OF b i(2)]]) (use True i(1) in \<open>auto simp: pool_bytes_def\<close>)
  moreover have "give_page i s = s\<lparr>mem := mem (give_page i s), used_pages := used_pages s - 1\<rparr>"
    by (simp add: give_page_def memset_def set_map_bit_def)
  ultimately show ?thesis unfolding eq pool_only_def by blast
qed (simp add: pa.release_other pool_only_refl)

interpretation pool: data_refinement pool_call pool_spec pool_of alloc_ok pool_only
proof unfold_locales
  show "pool_only s s" for s :: "'a memory_scheme" by (rule pool_only_refl)
  show "pool_only s u" if "pool_only s t" "pool_only t u" for s t u :: "'a memory_scheme" using that by (rule pool_only_trans)
  fix s :: "'a memory_scheme" and e out a
  assume ok: "alloc_ok s" and a: "pool_spec e (pool_of s) = Some (out, a)"
  then have b: "alloc_bounds s" by (simp add: alloc_ok_def)
  show "\<exists>s'. pool_call e s = Some (out, s') \<and> pool_of s' = a \<and> alloc_ok s' \<and> pool_only s s'"
  proof (cases e)
    case Alloc
    then show ?thesis
      using a pa.alloc_none [OF ok] pa.alloc_some [OF ok] ok get_page_pool_only [OF ok]
      by (cases "get_physical_page s"; cases "avail_pages s = {}") (auto simp: pool_of_def)
  next
    case (Release p)
    then show ?thesis
      using a pa.release_page [OF ok, of p] pa.release_other [OF ok, of p] ok free_page_pool_only [OF ok, of p]
      by (cases "p \<in> all_pages s - avail_pages s") (auto simp: pool_of_def insert_absorb split: if_splits)
  next
    case Free_memory
    have "4096 * card (avail_pages s) = unat (get_free_memory s)" using memory_statistics [OF ok] card_pages(2) [OF b] by simp
    then have "of_nat (4096 * card (avail_pages s)) = get_free_memory s" by (simp only: of_nat_unat ucast_id)
    then show ?thesis using a ok Free_memory pool_only_refl by (auto simp: pool_of_def simp del: of_nat_mult)
  next
    case Total_memory
    have "get_total_memory s = of_nat (4096 * card (all_pages s))"
      by (simp add: card_pages [OF b] get_total_memory_def mult.commute)
    then show ?thesis using a ok Total_memory pool_only_refl by (auto simp: pool_of_def)
  qed
qed

subsection \<open>The screen driver as a terminal\<close>

datatype screen_op = Put u8 | Scroll | Set_color u32 | Clear | Get_cursor | Set_cursor int int | Remove_line
  | Cursor_style u8 u8 | Enable_cursor | Disable_cursor
  | Print string "vararg list" | Print_color Color string "vararg list" | Start

fun screen_call :: "screen_op \<Rightarrow> 'a vga_scheme \<Rightarrow> ((int \<times> int) option \<times> 'a vga_scheme) option" where
  "screen_call (Put c) s = Some (None, VGA_Putc c s)"
| "screen_call Scroll s = Some (None, scroll s)"
| "screen_call (Set_color c) s = Some (None, SetColor c s)"
| "screen_call Clear s = Some (None, VGA_Clear s)"
| "screen_call Get_cursor s = (let (p, s) = VGA_GetCursor s in Some (Some p, s))"
| "screen_call (Set_cursor x y) s = Some (None, VGA_SetCursor x y s)"
| "screen_call Remove_line s = Some (None, rmline s)"
| "screen_call (Cursor_style a b) s = Some (None, VGA_SetCursorStyle a b s)"
| "screen_call Enable_cursor s = Some (None, VGA_EnableCursor s)"
| "screen_call Disable_cursor s = Some (None, VGA_DisableCursor s)"
| "screen_call (Print fmt args) s = map_option (Pair None) (kprintf fmt args s)"
| "screen_call (Print_color c fmt args) s = map_option (Pair None) (kprintcolor c fmt args s)"
| "screen_call Start s = map_option (Pair None) (Init_VGA s)"

text \<open>
  The specification promises nothing for a format whose conversions lack an argument of their
  kind, and nothing about the shape of the cursor.
\<close>

fun screen_spec :: "screen_op \<Rightarrow> terminal \<Rightarrow> ((int \<times> int) option \<times> terminal) option" where
  "screen_spec (Put c) t = Some (None, term_putc c t)"
| "screen_spec Scroll t = Some (None, term_scroll t)"
| "screen_spec (Set_color c) t = Some (None, t\<lparr>attr := ucast c\<rparr>)"
| "screen_spec Clear t = Some (None, t\<lparr>cells := replicate 2000 0x0F20\<rparr>)"
| "screen_spec Get_cursor t = Some (Some (int (cur t mod 80), int (cur t div 80)), t)"
| "screen_spec (Set_cursor x y) t = Some (None, t\<lparr>cur := nat (min (max y 0) 24) * 80 + nat (min (max x 0) 79)\<rparr>)"
| "screen_spec Remove_line t =
     (let y = cur t div 80; u = t\<lparr>cells := fill_from (80 * y) 80 (blank (attr t)) (cells t)\<rparr>
      in Some (None, (if y < 24 then u else term_scroll u)\<lparr>cur := 80 * y\<rparr>))"
| "screen_spec (Cursor_style a b) t = Some (None, t)"
| "screen_spec Enable_cursor t = Some (None, t)"
| "screen_spec Disable_cursor t = Some (None, t)"
| "screen_spec (Print fmt args) t = map_option (\<lambda>bs. (None, fold term_putc bs t)) (render (bytes_of fmt) args)"
| "screen_spec (Print_color c fmt args) t =
     map_option (\<lambda>bs. (None, (fold term_putc bs (t\<lparr>attr := ucast (color_value c)\<rparr>))\<lparr>attr := attr t\<rparr>)) (render (bytes_of fmt) args)"
| "screen_spec Start t =
     Some (None, (fold term_putc boot_banner \<lparr>cells = replicate 2000 0x0F20, cur = 0, attr = 0xC\<rparr>)\<lparr>attr := 0xA\<rparr>)"

lemma abs_clear: "abs_term (VGA_Clear s) = (abs_term s)\<lparr>cells := replicate 2000 0x0F20\<rparr>" "cursor_ok (VGA_Clear s) = cursor_ok s"
proof -
  have "mem_only s (VGA_Clear s)" unfolding VGA_Clear_def by (rule fold_mem_only) simp
  then have "VGA_Clear s = s\<lparr>mem := mem (VGA_Clear s)\<rparr>" by (simp add: mem_only_def)
  then have "crtc_regs (VGA_Clear s) = crtc_regs s" "color (VGA_Clear s) = color s"
    by (metis machine.select_convs machine.update_convs(1) machine.surjective, metis mem_only_color mem_only_def)
  then have c: "cursor (VGA_Clear s) = cursor s" by (simp add: cursor_def)
  then show "cursor_ok (VGA_Clear s) = cursor_ok s" by (simp add: cursor_ok_def)
  show "abs_term (VGA_Clear s) = (abs_term s)\<lparr>cells := replicate 2000 0x0F20\<rparr>"
    by (rule terminal_eqI) (auto simp: c VGA_Clear_cells \<open>color (VGA_Clear s) = color s\<close> intro!: nth_equalityI)
qed

lemma abs_set_cursor_clamped:
  "abs_term (VGA_SetCursor x y s) = (abs_term s)\<lparr>cur := nat (min (max y 0) 24) * 80 + nat (min (max x 0) 79)\<rparr>"
proof (rule terminal_eqI)
  have "unat (cursor (VGA_SetCursor x y s)) = nat (min (max y 0) 24 * 80 + min (max x 0) 79)"
    using uint_cursor_VGA_SetCursor [of x y s] by (simp flip: nat_uint_eq)
  then show "cur (abs_term (VGA_SetCursor x y s)) =
      cur ((abs_term s)\<lparr>cur := nat (min (max y 0) 24) * 80 + nat (min (max x 0) 79)\<rparr>)"
    by (simp add: nat_add_distrib nat_mult_distrib)
qed (auto intro!: nth_equalityI vga_load_mem)

lemma abs_cursor_shape:
  "abs_term (VGA_SetCursorStyle a b s) = abs_term s" "cursor_ok (VGA_SetCursorStyle a b s) = cursor_ok s"
  "abs_term (VGA_EnableCursor s) = abs_term s" "cursor_ok (VGA_EnableCursor s) = cursor_ok s"
  "abs_term (VGA_DisableCursor s) = abs_term s" "cursor_ok (VGA_DisableCursor s) = cursor_ok s"
  by (simp_all add: abs_term_def vga_load_def cursor_ok_def cursor_def VGA_SetCursorStyle_def VGA_EnableCursor_def
      VGA_DisableCursor_def outb_def inb_def Let_def)

lemma abs_set_color: "abs_term (SetColor c s) = (abs_term s)\<lparr>attr := ucast c\<rparr>"
  by (simp add: SetColor_def abs_term_color)

text \<open>What the screen driver may change: the screen and the controller, and its colour.\<close>

definition driver_only :: "'a vga_scheme \<Rightarrow> 'a vga_scheme \<Rightarrow> bool" where
  "driver_only s t \<longleftrightarrow>
     (\<exists>m i r c. t = s\<lparr>mem := m, crtc_index := i, crtc_regs := r, color := c\<rparr> \<and> agree_off screen_bytes (mem s) m)"

lemma driver_only_trans:
  assumes "driver_only s t" "driver_only t u"
  shows "driver_only s u"
proof -
  obtain m i r c where t: "t = s\<lparr>mem := m, crtc_index := i, crtc_regs := r, color := c\<rparr>" "agree_off screen_bytes (mem s) m"
    using assms(1) unfolding driver_only_def by blast
  obtain m' i' r' c' where u: "u = t\<lparr>mem := m', crtc_index := i', crtc_regs := r', color := c'\<rparr>" "agree_off screen_bytes (mem t) m'"
    using assms(2) unfolding driver_only_def by blast
  have "agree_off screen_bytes (mem s) m'" using t u(2) agree_off_trans by fastforce
  moreover have "u = s\<lparr>mem := m', crtc_index := i', crtc_regs := r', color := c'\<rparr>" by (simp add: t(1) u(1))
  ultimately show ?thesis unfolding driver_only_def by blast
qed

lemma driver_onlyI: "screen_only (s\<lparr>color := c\<rparr>) t \<Longrightarrow> driver_only s t"
proof (elim screen_onlyE)
  fix m i r assume t: "t = s\<lparr>color := c\<rparr>\<lparr>mem := m, crtc_index := i, crtc_regs := r\<rparr>"
    and m: "agree_off screen_bytes (mem (s\<lparr>color := c\<rparr>)) m"
  have "t = s\<lparr>mem := m, crtc_index := i, crtc_regs := r, color := c\<rparr>" unfolding t by simp
  then show "driver_only s t" using m unfolding driver_only_def by auto
qed

lemma screen_only_driver: "screen_only s t \<Longrightarrow> driver_only s t"
  using driver_onlyI [where s = s and c = "color s"] by simp

lemma set_color_driver: "driver_only s (SetColor c s)"
  unfolding SetColor_def by (rule driver_onlyI [OF screen_only_refl])

lemma driver_only_crtc: "driver_only s (s\<lparr>crtc_index := i, crtc_regs := r\<rparr>)"
  unfolding driver_only_def
  by (intro exI [of _ "mem s"] exI [of _ i] exI [of _ r] exI [of _ "color s"]) simp

lemma outb_driver_only: "port \<in> {0x3D4, 0x3D5} \<Longrightarrow> driver_only s (outb port v s)"
  using driver_only_crtc [where s = s and i = v and r = "crtc_regs s"]
    driver_only_crtc [where s = s and i = "crtc_index s" and r = "(crtc_regs s)(crtc_index s := v)"]
  by (auto simp: outb_def)

lemma shape_driver_only:
  "driver_only s (VGA_SetCursorStyle a b s)" "driver_only s (VGA_EnableCursor s)" "driver_only s (VGA_DisableCursor s)"
proof -
  note o = outb_driver_only
  have style: "driver_only s (VGA_SetCursorStyle a b s)" for a b
    unfolding VGA_SetCursorStyle_def Let_def by (rule driver_only_trans [OF driver_only_trans [OF driver_only_trans [OF o o] o] o]) simp_all
  then show "driver_only s (VGA_SetCursorStyle a b s)" .
  show "driver_only s (VGA_DisableCursor s)"
    unfolding VGA_DisableCursor_def by (rule driver_only_trans [OF o o]) simp_all
  have p: "driver_only s (outb 0x3D4 v (VGA_SetCursorStyle a b s))" for v a b by (rule driver_only_trans [OF style o]) simp
  then have "driver_only s (outb 0x3D5 w (outb 0x3D4 v (VGA_SetCursorStyle a b s)))" for v a b w by (rule driver_only_trans [OF _ o]) simp
  with p show "driver_only s (VGA_EnableCursor s)" by (simp add: VGA_EnableCursor_def Let_def)
qed

interpretation screen: data_refinement screen_call screen_spec abs_term cursor_ok driver_only
proof unfold_locales
  show "driver_only s s" for s :: "'a vga_scheme" by (rule screen_only_driver) simp
  show "driver_only s u" if "driver_only s t" "driver_only t u" for s t u :: "'a vga_scheme" using that by (rule driver_only_trans)
  fix s :: "'a vga_scheme" and e out a
  assume ok: "cursor_ok s" and a: "screen_spec e (abs_term s) = Some (out, a)"
  show "\<exists>s'. screen_call e s = Some (out, s') \<and> abs_term s' = a \<and> cursor_ok s' \<and> driver_only s s'"
  proof (cases e)
    case (Put c)
    then show ?thesis using a VGA_Putc_refines [OF ok, of c] screen_only_driver by auto
  next
    case Remove_line
    then show ?thesis using a rmline_refines [OF ok] screen_only_driver by (auto simp: Let_def)
  next
    case Get_cursor
    then show ?thesis using a ok screen_only_driver [OF crtc_index_screen_only] by (auto simp: VGA_GetCursor_eq zmod_int zdiv_int)
  next
    case (Print fmt args)
    have "driver_only s (fold VGA_Putc bs s)" for bs using putcs_ok [OF ok] screen_only_driver by blast
    then show ?thesis using Print a putcs_ok [OF ok] putcs_refine [OF ok] by (auto simp: kprintf_render)
  next
    case (Print_color c fmt args)
    let ?s = "s\<lparr>color := ucast (color_value c)\<rparr>"
    have col: "cursor_ok (t\<lparr>color := x\<rparr>) = cursor_ok t" for t :: "'a vga_scheme" and x by (simp add: cursor_ok_def cursor_def)
    then have c: "cursor_ok ?s" using ok by simp
    have "driver_only s ((fold VGA_Putc bs ?s)\<lparr>color := color s\<rparr>)" for bs
      using putcs_ok [OF c] recolor_screen_only screen_only_driver by blast
    with Print_color show ?thesis
      using a ok putcs_ok [OF c] putcs_refine [OF c] by (auto simp: kprintcolor_render abs_term_color col)
  next
    case Start
    then show ?thesis using a Init_VGA_result [of s] driver_onlyI by fastforce
  qed (use a ok in \<open>auto simp: abs_scroll abs_clear abs_set_cursor_clamped abs_cursor_shape abs_set_color
        shape_driver_only intro: screen_intros screen_only_driver VGA_Clear_screen_only set_color_driver\<close>)
qed

subsection \<open>The page tables as a function\<close>

text \<open>
  The operations of an address space: mapping a 2 MiB page, and a translation by the processor.
  Its specification is the function from virtual to physical addresses together with a number
  of pages that are free for tables; mapping a page takes at most two of them. It promises
  nothing for an unaligned physical address or flags without the present bit.
\<close>

datatype space_op = Map u64 u64 u64 | Translate u64

fun space_call :: "space_op \<Rightarrow> 'a paging_scheme \<Rightarrow> (u64 option \<times> 'a paging_scheme) option" where
  "space_call (Map v p f) s = map_option (Pair None) (map_page v p f s)"
| "space_call (Translate v) s = Some (page_walk (mem s) (kernel_pml4 s) v, s)"

fun space_spec :: "space_op \<Rightarrow> (u64 \<Rightarrow> u64 option) \<times> nat \<Rightarrow> (u64 option \<times> (u64 \<Rightarrow> u64 option) \<times> nat) option" where
  "space_spec (Map v p f) (T, n) =
     (if p < 2 ^ 52 \<and> p AND 0x1FFFFF = 0 \<and> f < 0x1000 \<and> f AND PAGE_PRESENT \<noteq> 0 \<and> 2 \<le> n
      then Some (None, \<lambda>w. if indices w = indices v then Some (p OR (w AND 0x1FFFFF)) else T w, n - 2)
      else None)"
| "space_spec (Translate v) (T, n) = Some (T v, T, n)"

definition space_ok :: "'a paging_scheme \<Rightarrow> bool" where
  "space_ok s \<longleftrightarrow> alloc_ok s \<and> cursor_ok s \<and> kernel_pml4 s \<noteq> 0 \<and> kernel_pml4 s < 2 ^ 52 \<and> tables_ok (kernel_pml4 s) s"

definition space_of :: "'a paging_scheme \<Rightarrow> (u64 \<Rightarrow> u64 option) \<times> nat \<Rightarrow> bool" where
  "space_of s a \<longleftrightarrow> space_ok s \<and> page_walk (mem s) (kernel_pml4 s) = fst a \<and> snd a \<le> card (avail_pages s)"

interpretation space: simulation space_call space_spec space_of mm_only
proof unfold_locales
  fix s :: "'a paging_scheme" and a e out b
  assume a: "space_of s a" and b: "space_spec e a = Some (out, b)"
  obtain T n where Tn: "a = (T, n)" by (cases a)
  let ?r = "kernel_pml4 s"
  show "\<exists>s'. space_call e s = Some (out, s') \<and> space_of s' b \<and> mm_only s s'"
  proof (cases e)
    case (Translate v)
    then show ?thesis using a b by (auto simp: Tn space_of_def)
  next
    case (Map v p f)
    then have m: "p < 2 ^ 52" "p AND 0x1FFFFF = 0" "f < 0x1000" "f AND PAGE_PRESENT \<noteq> 0" "2 \<le> n" "out = None"
      and b': "b = (\<lambda>w. if indices w = indices v then Some (p OR (w AND 0x1FFFFF)) else T w, n - 2)"
      using b by (auto simp: Tn split: if_splits)
    have s: "alloc_ok s" "cursor_ok s" "?r \<noteq> 0" "?r < 2 ^ 52" "tables_ok ?r s" "page_walk (mem s) ?r = T" "n \<le> card (avail_pages s)"
      using a by (simp_all add: Tn space_of_def space_ok_def)
    obtain s' where s': "map_page v p f s = Some s'" "alloc_ok s'" "tables_ok ?r s'" "kernel_pml4 s' = ?r" "cursor_ok s'" "mm_only s s'"
      "card (avail_pages s) \<le> card (avail_pages s') + 2"
      "(\<forall>w. page_walk (mem s') ?r w = (if indices w = indices v then Some (p OR (w AND 0x1FFFFF)) else page_walk (mem s) ?r w))
       \<or> card (avail_pages s) < 2"
      using map_page_walk [OF s(1,2) refl s(3-5) m(1-4), of v] by blast
    then have "page_walk (mem s') ?r = fst b" using s(6,7) m(5) by (auto simp: b')
    then have "space_of s' b" using s' s(3,4,7) by (simp add: space_of_def space_ok_def b')
    then show ?thesis using Map m(6) s'(1,6) by auto
  qed
qed (rule mm_only_refl, rule mm_only_trans)

subsection \<open>Properties\<close>

lemma pool_spec_total: "\<exists>outs P. trace pool_spec ops Q = Some (outs, P)"
proof (induction ops arbitrary: Q)
  case (Cons e ops)
  obtain A F where Q: "Q = (A, F)" by (cases Q)
  have "\<exists>out P. pool_spec e (A, F) = Some (out, P)" by (cases e) auto
  then obtain out P where "pool_spec e (A, F) = Some (out, P)" by blast
  moreover from Cons obtain outs P' where "trace pool_spec ops P = Some (outs, P')" by blast
  ultimately show ?case by (simp add: Q)
qed simp

text \<open>
  C4: The page allocator refines a set of pages: on every sequence of allocations, releases (of any
  address) and questions for the free and the total memory, the results are those of the
  specification, in which an allocation takes the least free page or returns null when there
  is none, a release adds the page if it is one of the pages managed, and the answers count
  the free and all pages; the invariant of the bitmap and the counters holds afterwards, and
  nothing has changed but the bitmap, the count of used pages and bytes of the managed pages.
\<close>

theorem allocator_refines_pool:
  assumes "alloc_ok s"
  shows "\<exists>outs s'. trace pool_call ops s = Some (outs, s') \<and> trace pool_spec ops (pool_of s) = Some (outs, pool_of s')
    \<and> alloc_ok s' \<and> pool_only s s'"
  using pool.sim.trace_simulates [of s "pool_of s"] assms pool_spec_total [of ops "pool_of s"] by blast

theorem allocator_refines_pool_witness:
  "\<exists>outs s'. trace pool_call [Alloc, Alloc, Release 0x100000, Release 0x100000, Free_memory] (booted_memory ()) = Some (outs, s')
    \<and> trace pool_spec [Alloc, Alloc, Release 0x100000, Release 0x100000, Free_memory] (pool_of (booted_memory ())) = Some (outs, pool_of s')
    \<and> alloc_ok s' \<and> pool_only (booted_memory ()) s'"
  by (rule allocator_refines_pool) simp

text \<open>
  C6: The screen driver refines a terminal: on every sequence of its operations (characters,
  formatted output, scrolling, clearing, colours, reading and setting the cursor, its shape,
  removing a line and the driver's start), whenever the specification has a result, so have
  the operations, with the same answers, and the screen afterwards shows what the terminal of
  the specification shows; nothing else has changed but the cursor registers and the colour.
\<close>

theorem screen_refines_terminal:
  assumes "cursor_ok s" "trace screen_spec ops (abs_term s) = Some (outs, t)"
  shows "\<exists>s'. trace screen_call ops s = Some (outs, s') \<and> abs_term s' = t \<and> cursor_ok s' \<and> driver_only s s'"
  using screen.sim.trace_simulates [of s "abs_term s"] assms by blast

theorem screen_refines_terminal_witness:
  "\<exists>s'. trace screen_call [Set_cursor 100 3, Get_cursor, Put 0x41, Get_cursor, Print ''%d'' [VInt 7], Get_cursor] (vga_statics ())
      = Some ([None, Some (79, 3), None, Some (0, 4), None, Some (1, 4)], s') \<and> cursor_ok s'"
proof -
  have r: "render (bytes_of ''%d'') [VInt 7] = Some [0x37]"
    by (simp add: bytes_of_def text_of_def decimal_int_def decimal_def dec_bytes.simps)
  have "\<exists>t. trace screen_spec [Set_cursor 100 3, Get_cursor, Put 0x41, Get_cursor, Print ''%d'' [VInt 7], Get_cursor] (abs_term (vga_statics ()))
      = Some ([None, Some (79, 3), None, Some (0, 4), None, Some (1, 4)], t)"
    by (simp add: r term_putc_def put_cell_def Let_def)
  then obtain t where t: "trace screen_spec [Set_cursor 100 3, Get_cursor, Put 0x41, Get_cursor, Print ''%d'' [VInt 7], Get_cursor]
      (abs_term (vga_statics ())) = Some ([None, Some (79, 3), None, Some (0, 4), None, Some (1, 4)], t)" by blast
  show ?thesis using screen_refines_terminal [OF vga_statics_simps(3) t] by blast
qed

text \<open>
  C7: The page tables refine a function on addresses: after any sequence of \<open>map_page\<close> calls with
  aligned physical pages, for which two free pages each are left, the processor translates
  every address as the sequence of function updates says, later calls overriding earlier ones,
  also between the calls, although tables are shared and created on the way; the tables are
  again well formed and the allocator consistent.
\<close>

theorem page_tables_refine_function:
  assumes "space_ok s" "trace space_spec ops (page_walk (mem s) (kernel_pml4 s), card (avail_pages s)) = Some (outs, T, n)"
  shows "\<exists>s'. trace space_call ops s = Some (outs, s') \<and> page_walk (mem s') (kernel_pml4 s') = T
    \<and> n \<le> card (avail_pages s') \<and> space_ok s' \<and> mm_only s s'"
proof -
  have "space_of s (page_walk (mem s) (kernel_pml4 s), card (avail_pages s))" using assms(1) by (simp add: space_of_def)
  from space.trace_simulates [OF this assms(2)] show ?thesis by (auto simp: space_of_def)
qed

theorem page_tables_refine_function_witness:
  "\<exists>s'. trace space_call [Map 0x40000000 0x600000 3, Map 0x40200000 0x800000 3, Map 0x40000000 0xA00000 3,
      Translate 0x40000123, Translate 0x40200456] (booted_paging ())
    = Some ([None, None, None, Some 0xA00123, Some 0x800456], s')"
proof -
  let ?s = "booted_paging ()"
  have "space_ok ?s" by (simp add: space_ok_def booted_paging_tables)
  moreover have "\<exists>T n. trace space_spec [Map 0x40000000 0x600000 3, Map 0x40200000 0x800000 3, Map 0x40000000 0xA00000 3,
      Translate 0x40000123, Translate 0x40200456] (page_walk (mem ?s) (kernel_pml4 ?s), card (avail_pages ?s))
      = Some ([None, None, None, Some 0xA00123, Some 0x800456], T, n)"
    unfolding booted_paging_card by (simp add: indices_def PML4_INDEX_def PDPT_INDEX_def PD_INDEX_def)
  ultimately show ?thesis using page_tables_refine_function [of ?s] by blast
qed

end
